(* ===== verification/OoOS_Prelude.thy ===== *)
theory OoOS_Prelude
  imports Main "HOL-Library.Word" "HOL-Library.Code_Target_Nat"
begin

text \<open>
  Shared vocabulary of the development.  Machine words keep their width: \<open>u8\<close>, \<open>u16\<close>, \<open>u32\<close> and
  \<open>u64\<close> are words where the code works bitwise, and addresses and sizes (\<open>uintptr_t\<close>, \<open>size_t\<close>)
  are natural numbers with every operation that can leave the 64-bit range reduced by hand through
  \<open>u64_add\<close>, \<open>u64_sub\<close> and \<open>u64_mul\<close>.  The rounding templates of
  \<open>common/include/kernel/libk_decls.h\<close> and the generic list and option lemmas used by several
  components are here as well.
\<close>

unbundle bit_operations_syntax

type_synonym u8 = "8 word"
type_synonym u16 = "16 word"
type_synonym u32 = "32 word"
type_synonym u64 = "64 word"

named_theorems u64_arith \<open>64-bit arithmetic that does not wrap\<close>
named_theorems frame_simps \<open>state components an operation leaves alone\<close>

subsection \<open>64-bit arithmetic on natural numbers\<close>

definition u64_add :: "nat \<Rightarrow> nat \<Rightarrow> nat" where
  "u64_add a b = (a + b) mod 2 ^ 64"

definition u64_sub :: "nat \<Rightarrow> nat \<Rightarrow> nat" where
  "u64_sub a b = (a + (2 ^ 64 - b mod 2 ^ 64)) mod 2 ^ 64"

definition u64_mul :: "nat \<Rightarrow> nat \<Rightarrow> nat" where
  "u64_mul a b = (a * b) mod 2 ^ 64"

text \<open>The rounding templates; the instances the kernel uses are at 64-bit unsigned types.\<close>

definition div_round_up :: "nat \<Rightarrow> nat \<Rightarrow> nat" where
  "div_round_up num denom = (if num mod denom = 0 then num div denom else 1 + num div denom)"

definition trunc_to :: "nat \<Rightarrow> nat \<Rightarrow> nat" where
  "trunc_to n unit = (if n mod unit = 0 then n else n - n mod unit)"

definition up_to_nearest :: "nat \<Rightarrow> nat \<Rightarrow> nat" where
  "up_to_nearest n unit = (if n mod unit = 0 then n else u64_mul unit (div_round_up n unit))"

definition div_to_nearest :: "nat \<Rightarrow> nat \<Rightarrow> nat" where
  "div_to_nearest num denom =
     (if num mod denom \<ge> div_round_up denom 2 then div_round_up num denom else num div denom)"

fun magnitude_loop :: "nat \<Rightarrow> nat \<Rightarrow> nat" where
  "magnitude_loop i num = (if num < 10 then i else magnitude_loop (i * 10) (num div 10))"

declare magnitude_loop.simps [simp del]

definition magnitude :: "nat \<Rightarrow> nat" where
  "magnitude num = magnitude_loop 1 num"

fun raise_power :: "nat \<Rightarrow> nat \<Rightarrow> nat" where
  "raise_power base pw =
     (if pw < 2 then (if pw \<noteq> 0 then base else 1)
      else (let srt = raise_power base (pw div 2)
            in u64_mul (u64_mul srt srt) (if pw mod 2 \<noteq> 0 then base else 1)))"

declare raise_power.simps [simp del]

subsection \<open>Facts on 64-bit arithmetic\<close>

lemma u64_add_lt [simp]: "u64_add a b < 2 ^ 64"
  by (simp add: u64_add_def)

lemma u64_sub_lt [simp]: "u64_sub a b < 2 ^ 64"
  by (simp add: u64_sub_def)

lemma u64_mul_lt [simp]: "u64_mul a b < 2 ^ 64"
  by (simp add: u64_mul_def)

lemma u64_add_id [u64_arith]: "a + b < 2 ^ 64 \<Longrightarrow> u64_add a b = a + b"
  by (simp add: u64_add_def)

lemma u64_mul_id [u64_arith]: "a * b < 2 ^ 64 \<Longrightarrow> u64_mul a b = a * b"
  by (simp add: u64_mul_def)

lemma u64_sub_id [u64_arith]: "b \<le> a \<Longrightarrow> a < 2 ^ 64 \<Longrightarrow> u64_sub a b = a - b"
proof -
  assume le: "b \<le> a" and lt: "a < 2 ^ 64"
  then have "a + (2 ^ 64 - b mod 2 ^ 64) = (a - b) + 2 ^ 64" by simp
  then have "u64_sub a b = ((a - b) + 2 ^ 64) mod 2 ^ 64" by (simp only: u64_sub_def)
  also have "\<dots> = (a - b) mod 2 ^ 64" by simp
  finally show ?thesis using lt by simp
qed

lemma u64_sub_wraps: "a < b \<Longrightarrow> b \<le> 2 ^ 64 \<Longrightarrow> u64_sub a b = 2 ^ 64 + a - b"
  by (cases "b = 2 ^ 64") (simp_all add: u64_sub_def)

lemma div_round_up_bounds:
  assumes "0 < d"
  shows "n \<le> d * div_round_up n d" and "d * div_round_up n d < n + d"
proof -
  have *: "n = d * (n div d) + n mod d" by simp
  have lt: "n mod d < d" using assms by simp
  show "n \<le> d * div_round_up n d"
  proof (cases "n mod d = 0")
    case True then show ?thesis using * by (simp add: div_round_up_def)
  next
    case False
    then have "d * div_round_up n d = d + d * (n div d)" by (simp add: div_round_up_def)
    then show ?thesis using * lt by linarith
  qed
  show "d * div_round_up n d < n + d"
  proof (cases "n mod d = 0")
    case True then show ?thesis using * assms by (simp add: div_round_up_def)
  next
    case False
    then have "d * div_round_up n d = d + d * (n div d)" by (simp add: div_round_up_def)
    then show ?thesis using * False by linarith
  qed
qed

lemma div_round_up_0 [simp]: "div_round_up 0 d = 0"
  by (simp add: div_round_up_def)

lemma div_round_up_pos: "0 < d \<Longrightarrow> 0 < n \<Longrightarrow> 0 < div_round_up n d"
  by (auto simp: div_round_up_def intro: Nat.gr0I elim: dvdE)

lemma div_round_up_mult [simp]: "0 < d \<Longrightarrow> div_round_up (d * k) d = k"
  by (simp add: div_round_up_def)

lemma div_round_up_le:
  assumes "0 < d" "n \<le> d * k"
  shows "div_round_up n d \<le> k"
proof -
  have "d * div_round_up n d < d * k + d"
    using div_round_up_bounds(2) [OF assms(1), of n] assms(2) by linarith
  then have "d * div_round_up n d < d * Suc k" by simp
  then have "div_round_up n d < Suc k" by (simp only: mult_less_cancel1)
  then show ?thesis by simp
qed

lemma up_to_nearest_eq:
  assumes "0 < u" "n + u \<le> 2 ^ 64"
  shows "up_to_nearest n u = u * div_round_up n u"
proof (cases "n mod u = 0")
  case True then show ?thesis by (auto simp: up_to_nearest_def div_round_up_def)
next
  case False
  have "u * div_round_up n u < 2 ^ 64"
    using div_round_up_bounds(2) [OF assms(1), of n] assms(2) by linarith
  then show ?thesis using False by (simp add: up_to_nearest_def u64_mul_id)
qed

lemma up_to_nearest_dvd:
  assumes "0 < u" "n + u \<le> 2 ^ 64"
  shows "u dvd up_to_nearest n u"
  by (simp add: up_to_nearest_eq [OF assms])

lemma up_to_nearest_bounds:
  assumes "0 < u" "n + u \<le> 2 ^ 64"
  shows "n \<le> up_to_nearest n u" and "up_to_nearest n u < n + u"
  using div_round_up_bounds [OF assms(1), of n] by (simp_all add: up_to_nearest_eq [OF assms])

lemma up_to_nearest_le:
  assumes "0 < u" "n + u \<le> 2 ^ 64" "n \<le> m" "u dvd m"
  shows "up_to_nearest n u \<le> m"
  using assms(4)
proof
  fix k assume "m = u * k"
  then show ?thesis
    using div_round_up_le [OF assms(1), of n k] assms(3) by (simp add: up_to_nearest_eq [OF assms(1,2)])
qed

subsection \<open>Lists and options\<close>

lemma nth_list_update_if:
  "i < length xs \<Longrightarrow> xs[i := v] ! j = (if i = j then v else xs ! j)"
  by auto

lemma option_case_None_iff: "(case x of None \<Rightarrow> None | Some y \<Rightarrow> Some (f y)) = None \<longleftrightarrow> x = None"
  by (cases x) auto

end
