(* ===== verification/Address.thy ===== *)
theory Address
  imports OoOS_Prelude
begin

text \<open>
  The \<open>addr_t\<close> union and the page-table entry of \<open>common/include/kernel/kernel_defs.h\<close>.  An address
  is its numeric value below $2^{64}$; the bit fields are the quotients and remainders that the packed
  struct lays over it.
\<close>

subsection \<open>Constants and the address type\<close>

type_synonym addr = nat

definition page_size :: nat where
  "page_size = 0x1000"

definition page_table_length :: nat where
  "page_table_length = 0x200"

definition region_size :: nat where
  "region_size = page_size * page_table_length"

definition gigabyte :: nat where
  "gigabyte = 0x40000000"

text \<open>Bit fields of the union, low to high: 12, 9, 9, 9, 9 and 16 bits.\<close>

definition addr_offset :: "addr \<Rightarrow> nat" where
  "addr_offset a = a mod 2 ^ 12"

definition page_idx :: "addr \<Rightarrow> nat" where
  "page_idx a = a div 2 ^ 12 mod 2 ^ 9"

definition pd_idx :: "addr \<Rightarrow> nat" where
  "pd_idx a = a div 2 ^ 21 mod 2 ^ 9"

definition pdp_idx :: "addr \<Rightarrow> nat" where
  "pdp_idx a = a div 2 ^ 30 mod 2 ^ 9"

definition pml4_idx :: "addr \<Rightarrow> nat" where
  "pml4_idx a = a div 2 ^ 39 mod 2 ^ 9"

definition addr_ext :: "addr \<Rightarrow> nat" where
  "addr_ext a = a div 2 ^ 48 mod 2 ^ 16"

text \<open>The field-wise constructor; a wider argument is truncated to its field.\<close>

definition vaddr_of :: "nat \<Rightarrow> nat \<Rightarrow> nat \<Rightarrow> nat \<Rightarrow> nat \<Rightarrow> nat \<Rightarrow> addr" where
  "vaddr_of offs idx0 idx1 idx2 idx3 sign =
     offs mod 2 ^ 12 + 2 ^ 12 * (idx0 mod 2 ^ 9) + 2 ^ 21 * (idx1 mod 2 ^ 9)
     + 2 ^ 30 * (idx2 mod 2 ^ 9) + 2 ^ 39 * (idx3 mod 2 ^ 9) + 2 ^ 48 * (sign mod 2 ^ 16)"

definition addr_plus :: "addr \<Rightarrow> nat \<Rightarrow> addr" where
  "addr_plus a v = u64_add a v"

definition addr_minus :: "addr \<Rightarrow> nat \<Rightarrow> addr" where
  "addr_minus a v = u64_sub a v"

definition addr_trunc :: "addr \<Rightarrow> nat \<Rightarrow> addr" where
  "addr_trunc a alignval = (if alignval > 1 then addr_minus a (a mod alignval) else a)"

definition alignup :: "addr \<Rightarrow> nat \<Rightarrow> addr" where
  "alignup a alignval =
     (if alignval > 1 \<and> a mod alignval \<noteq> 0 then addr_trunc (addr_plus a alignval) alignval else a)"

definition page_aligned :: "addr \<Rightarrow> addr" where
  "page_aligned a = addr_minus a (a mod page_size)"

definition next_page_aligned :: "addr \<Rightarrow> addr" where
  "next_page_aligned a = (if a mod page_size \<noteq> 0 then page_aligned (addr_plus a page_size) else a)"

definition is_canonical :: "addr \<Rightarrow> bool" where
  "is_canonical a =
     ((pml4_idx a div 2 ^ 8 mod 2 = 0 \<and> addr_ext a = 0)
      \<or> (pml4_idx a div 2 ^ 8 mod 2 \<noteq> 0 \<and> addr_ext a = 0xFFFF))"

subsection \<open>Page-table entries\<close>

record pt_entry =
  present :: bool
  pte_write :: bool
  user_access :: bool
  write_thru :: bool
  cache_disable :: bool
  accessed :: bool
  dirty :: bool
  pte_page_size :: bool
  global :: bool
  avl0 :: bool
  avl1 :: bool
  avl2 :: bool
  physical_address :: nat
  avl4 :: nat
  pk :: nat
  execute_disable :: bool

text \<open>The all-zero entry: a cleared page-table slot, and the value of every member an aggregate
  initialiser leaves out.\<close>

definition zero_entry :: pt_entry where
  "zero_entry = \<lparr>present = False, pte_write = False, user_access = False, write_thru = False,
     cache_disable = False, accessed = False, dirty = False, pte_page_size = False, global = False,
     avl0 = False, avl1 = False, avl2 = False, physical_address = 0, avl4 = 0, pk = 0,
     execute_disable = False\<rparr>"

text \<open>A store to the 36-bit field \<open>physical_address\<close> keeps the low 36 bits.\<close>

definition pte_frame :: "addr \<Rightarrow> nat" where
  "pte_frame a = a div 2 ^ 12 mod 2 ^ 36"

subsection \<open>Facts\<close>

lemma size_consts:
  "page_size = 4096" "page_table_length = 512" "region_size = 2097152" "gigabyte = 1073741824"
  by (simp_all add: page_size_def page_table_length_def region_size_def gigabyte_def)

lemma pos_consts [simp]:
  "0 < page_size" "0 < region_size" "0 < gigabyte" "region_size \<noteq> 0" "page_size \<noteq> 0" "gigabyte \<noteq> 0"
  by (simp_all add: size_consts)

lemma idx_bounds [simp]:
  "page_idx a < 512" "pd_idx a < 512" "pdp_idx a < 512" "pml4_idx a < 512" "addr_offset a < 4096"
  by (simp_all add: page_idx_def pd_idx_def pdp_idx_def pml4_idx_def addr_offset_def)

lemma page_aligned_eq:
  assumes "a < 2 ^ 64"
  shows "page_aligned a = a - a mod page_size"
proof -
  have "a mod page_size \<le> a" by simp
  then show ?thesis using assms by (simp add: page_aligned_def addr_minus_def u64_sub_id)
qed

lemma page_aligned_mult: "a < 2 ^ 64 \<Longrightarrow> page_aligned a = page_size * (a div page_size)"
  by (simp add: page_aligned_eq minus_mod_eq_mult_div)

lemma addr_trunc_eq:
  assumes "a < 2 ^ 64" "0 < n"
  shows "addr_trunc a n = a - a mod n"
proof (cases "n > 1")
  case True
  have "a mod n \<le> a" by simp
  then show ?thesis using True assms by (simp add: addr_trunc_def addr_minus_def u64_sub_id)
next
  case False
  then have "n = 1" using assms by simp
  then show ?thesis by (simp add: addr_trunc_def)
qed

lemma next_page_aligned_eq:
  assumes "a + page_size \<le> 2 ^ 64"
  shows "next_page_aligned a = page_size * div_round_up a page_size"
proof (cases "a mod page_size = 0")
  case True then show ?thesis by (auto simp: next_page_aligned_def div_round_up_def)
next
  case False
  have "a + page_size \<noteq> 2 ^ 64"
  proof
    assume "a + page_size = 2 ^ 64"
    then have "a = 2 ^ 64 - page_size" by simp
    then have "a mod page_size = 0" by (simp add: size_consts)
    then show False using False by simp
  qed
  then have lt: "a + page_size < 2 ^ 64" using assms by simp
  then have "next_page_aligned a = page_size * ((a + page_size) div page_size)"
    using False by (simp add: next_page_aligned_def addr_plus_def u64_add_id page_aligned_mult)
  moreover have "(a + page_size) div page_size = 1 + a div page_size" by (simp add: size_consts)
  ultimately show ?thesis using False by (simp only: div_round_up_def if_False)
qed

lemma vaddr_fields:
  assumes "a < 2 ^ 64"
  shows "vaddr_of (addr_offset a) (page_idx a) (pd_idx a) (pdp_idx a) (pml4_idx a) (addr_ext a) = a"
proof -
  define b1 b2 b3 b4 b5 where "b1 = a div 2 ^ 12" and "b2 = b1 div 2 ^ 9" and "b3 = b2 div 2 ^ 9"
    and "b4 = b3 div 2 ^ 9" and "b5 = b4 div 2 ^ 9"
  note b = b1_def b2_def b3_def b4_def b5_def
  have s: "a = a mod 4096 + 4096 * b1" "b1 = b1 mod 512 + 512 * b2" "b2 = b2 mod 512 + 512 * b3"
    "b3 = b3 mod 512 + 512 * b4" "b4 = b4 mod 512 + 512 * b5"
    unfolding b by (simp_all add: mod_mult_div_eq)
  have d: "a div 2 ^ 21 = b2" "a div 2 ^ 30 = b3" "a div 2 ^ 39 = b4" "a div 2 ^ 48 = b5"
    unfolding b by (simp_all add: div_mult2_eq [symmetric])
  have "b5 mod 65536 = b5" using assms unfolding b
    by (simp add: div_mult2_eq [symmetric] less_mult_imp_div_less)
  then have "vaddr_of (addr_offset a) (page_idx a) (pd_idx a) (pdp_idx a) (pml4_idx a) (addr_ext a)
      = a mod 4096 + 4096 * (b1 mod 512) + 2097152 * (b2 mod 512) + 1073741824 * (b3 mod 512)
        + 549755813888 * (b4 mod 512) + 281474976710656 * b5"
    unfolding vaddr_of_def addr_offset_def page_idx_def pd_idx_def pdp_idx_def pml4_idx_def
      addr_ext_def d b1_def [symmetric] by simp
  also have "\<dots> = a" using s by linarith
  finally show ?thesis .
qed

end
