(* ===== verification/Region_Alloc.thy ===== *)
theory Region_Alloc
  imports Address
begin

text \<open>
  Stage 1 of the kernel allocator: the status-byte region allocator of \<open>kernel_memory_mgr\<close>
  (\<open>kernel/mm/kernel_mm.cpp\<close>, \<open>common/include/kernel/kernel_mm.hpp\<close>).  Each 512-page region has one
  status byte whose eight bits stand for blocks of 4, 4, 8, 16, 32, 64, 128 and 256 pages.  The search
  loops carry fuel; \<open>scan_fuel\<close> is one more than the number of tracked regions, and
  \<open>find_and_claim_spec\<close> shows that it is never used up on a well-formed manager.  An index outside the
  status array is undefined behaviour in the code: the model reads an unspecified byte there and
  drops the write, and the lemmas stay within the array.
\<close>

subsection \<open>Block indices, block sizes and status bytes\<close>

definition I0 :: u8 where "I0 = 0x01"
definition I1 :: u8 where "I1 = 0x02"
definition I2 :: u8 where "I2 = 0x04"
definition I3 :: u8 where "I3 = 0x08"
definition I4 :: u8 where "I4 = 0x10"
definition I5 :: u8 where "I5 = 0x20"
definition I6 :: u8 where "I6 = 0x40"
definition I7 :: u8 where "I7 = 0x80"
definition I_ALL :: u8 where "I_ALL = 0xFF"

definition S512 :: nat where "S512 = 512 * page_size"
definition S256 :: nat where "S256 = 256 * page_size"
definition S128 :: nat where "S128 = 128 * page_size"
definition S64 :: nat where "S64 = 64 * page_size"
definition S32 :: nat where "S32 = 32 * page_size"
definition S16 :: nat where "S16 = 16 * page_size"
definition S08 :: nat where "S08 = 8 * page_size"
definition S04 :: nat where "S04 = 4 * page_size"

type_synonym status_byte = u8

definition all_free :: "status_byte \<Rightarrow> bool" where
  "all_free b = (b = 0)"

definition has_free :: "status_byte \<Rightarrow> u8 \<Rightarrow> bool" where
  "has_free b i = (b AND i = 0)"

definition all_used :: "status_byte \<Rightarrow> bool" where
  "all_used b = (b = 0xFF)"

definition set_used :: "status_byte \<Rightarrow> u8 \<Rightarrow> status_byte" where
  "set_used b i = b OR i"

definition set_free :: "status_byte \<Rightarrow> u8 \<Rightarrow> status_byte" where
  "set_free b i = b AND NOT i"

text \<open>The macro \<open>BS2BI\<close> and \<open>operator[](block_size)\<close>.\<close>

definition bs2bi :: "nat \<Rightarrow> u8" where
  "bs2bi i = (if i = S04 then I6 OR I7 else if i = S08 then I5 else if i = S16 then I4
     else if i = S32 then I3 else if i = S64 then I2 else if i = S128 then I1
     else if i = S256 then I0 else I_ALL)"

definition has_free_size :: "status_byte \<Rightarrow> nat \<Rightarrow> bool" where
  "has_free_size b i =
     (if i = S04 then has_free b I7 \<or> has_free b I6 else has_free b (bs2bi i))"

definition gb_of :: "nat \<Rightarrow> nat" where
  "gb_of a = a div gigabyte mod 2 ^ 32"

definition sb_of :: "nat \<Rightarrow> nat" where
  "sb_of a = a div region_size mod 512"

subsection \<open>Block geometry\<close>

fun bit_len :: "nat \<Rightarrow> nat" where
  "bit_len n = (if n = 0 then 0 else Suc (bit_len (n div 2)))"

declare bit_len.simps [simp del]

text \<open>\<open>__builtin_clzl\<close> on a nonzero 64-bit value.\<close>

definition clzl :: "nat \<Rightarrow> nat" where
  "clzl n = 64 - bit_len n"

definition clzb :: "u8 \<Rightarrow> nat" where
  "clzb b = clzl (unat b) - 56"

definition ramp_shift :: "nat \<Rightarrow> nat \<Rightarrow> nat" where
  "ramp_shift base i = (if i \<noteq> 0 then u64_mul base (2 ^ (i - 1)) else 0)"

definition block_offset :: "nat \<Rightarrow> u8 \<Rightarrow> nat" where
  "block_offset a idx = u64_add a (ramp_shift S04 (clzb idx))"

definition nearest :: "nat \<Rightarrow> nat" where
  "nearest sz = (if sz \<le> S04 then S04 else if sz \<le> S08 then S08 else if sz \<le> S16 then S16
     else if sz \<le> S32 then S32 else if sz \<le> S64 then S64 else if sz \<le> S128 then S128
     else if sz \<le> S256 then S256 else S512)"

definition region_size_for :: "nat \<Rightarrow> nat" where
  "region_size_for sz = (if sz > S512 then up_to_nearest sz region_size else nearest sz)"

subsection \<open>The manager's state\<close>

record region_mgr =
  status_bytes :: "status_byte list list"
  num_status_bytes :: nat
  kernel_heap_begin :: nat
  watermark :: nat

definition get_status :: "'a region_mgr_scheme \<Rightarrow> nat \<Rightarrow> status_byte" where
  "get_status k a = status_bytes k ! gb_of a ! sb_of a"

definition put_status :: "nat \<Rightarrow> status_byte \<Rightarrow> 'a region_mgr_scheme \<Rightarrow> 'a region_mgr_scheme" where
  "put_status a b k = k\<lparr>status_bytes :=
     (status_bytes k)[gb_of a := (status_bytes k ! gb_of a)[sb_of a := b]]\<rparr>"

definition mark_all :: "nat \<Rightarrow> 'a region_mgr_scheme \<Rightarrow> 'a region_mgr_scheme" where
  "mark_all a k = put_status a (set_used (get_status k a) I_ALL) k"

definition free_all :: "nat \<Rightarrow> 'a region_mgr_scheme \<Rightarrow> 'a region_mgr_scheme" where
  "free_all a k = put_status a (set_free (get_status k a) I_ALL) k"

definition mark_used :: "'a region_mgr_scheme \<Rightarrow> nat \<Rightarrow> nat \<Rightarrow> 'a region_mgr_scheme" where
  "mark_used k start num_regions =
     fold (\<lambda>i. mark_all (u64_add start (i * region_size))) [0..<num_regions] k"

definition claim_region :: "'a region_mgr_scheme \<Rightarrow> nat \<Rightarrow> u8 \<Rightarrow> nat \<times> 'a region_mgr_scheme" where
  "claim_region k a idx = (block_offset a idx, put_status a (set_used (get_status k a) idx) k)"

subsection \<open>Searching and claiming\<close>

text \<open>
  The loop for requests above 256 pages.  The result \<open>None\<close> is exhausted fuel, \<open>Some None\<close> a loop that
  ran off the end of the status array, \<open>Some (Some (result, addr))\<close> the first and last region of a run.
\<close>

fun large_scan ::
  "nat \<Rightarrow> 'a region_mgr_scheme \<Rightarrow> nat \<Rightarrow> nat \<Rightarrow> nat \<Rightarrow> nat \<Rightarrow> (nat \<times> nat) option option" where
  "large_scan 0 k num_regions n a result = None"
| "large_scan (Suc f) k num_regions n a result =
     (if gb_of a < num_status_bytes k \<and> n > 0 then
        (if all_free (get_status k a) then
           (if n - 1 = 0 then Some (Some (result, a))
            else large_scan f k num_regions (n - 1) (u64_add a region_size) result)
         else large_scan f k num_regions num_regions (u64_add a region_size)
                (u64_add a region_size))
      else Some None)"

text \<open>Marking every region of the run, from \<open>result\<close> up to and including \<open>addr\<close>.\<close>

definition mark_span :: "'a region_mgr_scheme \<Rightarrow> nat \<Rightarrow> nat \<Rightarrow> 'a region_mgr_scheme" where
  "mark_span k result a =
     fold (\<lambda>i. mark_all (result + i * region_size)) [0..<Suc ((a - result) div region_size)] k"

fun small_scan :: "nat \<Rightarrow> 'a region_mgr_scheme \<Rightarrow> nat \<Rightarrow> nat \<Rightarrow> nat option option" where
  "small_scan 0 k bs a = None"
| "small_scan (Suc f) k bs a =
     (if gb_of a < num_status_bytes k then
        (if has_free_size (get_status k a) bs then Some (Some a)
         else small_scan f k bs (u64_add a region_size))
      else Some None)"

definition claim_idx :: "status_byte \<Rightarrow> nat \<Rightarrow> u8" where
  "claim_idx b bs = (if bs = S04 then (if has_free b I7 then I7 else I6)
     else if bs = S08 then I5 else if bs = S16 then I4 else if bs = S32 then I3
     else if bs = S64 then I2 else if bs = S128 then I1 else I0)"

definition scan_fuel :: "'a region_mgr_scheme \<Rightarrow> nat" where
  "scan_fuel k = Suc (512 * num_status_bytes k)"

text \<open>One pass of the search from the watermark: the claimed address and the new state, if any.\<close>

definition search_pass ::
  "'a region_mgr_scheme \<Rightarrow> nat \<Rightarrow> (nat \<times> 'a region_mgr_scheme) option option" where
  "search_pass k sz =
     (let a = up_to_nearest (watermark k) region_size in
      if sz > S256 then
        (let num_regions = div_round_up sz region_size in
         case large_scan (scan_fuel k) k num_regions num_regions a a of
           None \<Rightarrow> None
         | Some None \<Rightarrow> Some None
         | Some (Some (result, lst)) \<Rightarrow> Some (Some (result, mark_span k result lst)))
      else
        (case small_scan (scan_fuel k) k (nearest sz) a of
           None \<Rightarrow> None
         | Some None \<Rightarrow> Some None
         | Some (Some b) \<Rightarrow> Some (Some (claim_region k b (claim_idx (get_status k b) (nearest sz))))))"

text \<open>Where the watermark is put back for the second attempt.\<close>

definition reset_point :: "'a region_mgr_scheme \<Rightarrow> nat" where
  "reset_point k = u64_add (kernel_heap_begin k) (num_status_bytes k)"

function find_and_claim ::
  "'a region_mgr_scheme \<Rightarrow> nat \<Rightarrow> (nat \<times> 'a region_mgr_scheme) option" where
  "find_and_claim k sz =
     (case search_pass k sz of
        None \<Rightarrow> None
      | Some (Some r) \<Rightarrow> Some r
      | Some None \<Rightarrow>
          (if watermark k > reset_point k
           then find_and_claim (k\<lparr>watermark := reset_point k\<rparr>) sz
           else Some (0, k)))"
  by pat_completeness auto

termination
  by (relation "measure (\<lambda>(k, sz). if watermark k > reset_point k then 1 else 0)")
     (auto simp: reset_point_def)

declare find_and_claim.simps [simp del]

subsection \<open>Releasing\<close>

definition release_region :: "'a region_mgr_scheme \<Rightarrow> nat \<Rightarrow> nat \<Rightarrow> 'a region_mgr_scheme" where
  "release_region k sz start =
     (let bs = nearest sz in
      if sz > S256 then
        fold (\<lambda>i. free_all (u64_add start (i * region_size))) [0..<div_round_up sz region_size] k
      else put_status start
        (set_free (get_status k start)
           (if bs = S256 then I0 else if bs = S128 then I1 else if bs = S64 then I2
            else if bs = S32 then I3 else if bs = S16 then I4 else if bs = S08 then I5
            else if start mod region_size = 0 then I7 else I6)) k)"

subsection \<open>Well-formedness and the page view\<close>

text \<open>
  The status array has one 512-byte row per gigabyte, fewer than $2^{32}$ rows, and both places a
  search can start from are regions below the address where \<open>gb_of\<close> would wrap.
\<close>

definition region_wf :: "'a region_mgr_scheme \<Rightarrow> bool" where
  "region_wf k \<longleftrightarrow>
     num_status_bytes k < 2 ^ 32 \<and> length (status_bytes k) = num_status_bytes k
     \<and> list_all (\<lambda>g. length g = 512) (status_bytes k)
     \<and> up_to_nearest (watermark k) region_size < 2 ^ 62
     \<and> kernel_heap_begin k + num_status_bytes k + region_size \<le> 2 ^ 62"

abbreviation num_regions_of :: "'a region_mgr_scheme \<Rightarrow> nat" where
  "num_regions_of k \<equiv> 512 * num_status_bytes k"

text \<open>The block of its region that a page lies in.\<close>

definition page_block :: "nat \<Rightarrow> u8" where
  "page_block p = (let q = p mod 512 in
     if q < 4 then I7 else if q < 8 then I6 else if q < 16 then I5 else if q < 32 then I4
     else if q < 64 then I3 else if q < 128 then I2 else if q < 256 then I1 else I0)"

definition page_used :: "'a region_mgr_scheme \<Rightarrow> nat \<Rightarrow> bool" where
  "page_used k p = (get_status k (p * page_size) AND page_block p \<noteq> 0)"

definition used_pages :: "'a region_mgr_scheme \<Rightarrow> nat set" where
  "used_pages k = {p. p < 512 * num_regions_of k \<and> page_used k p}"

text \<open>The first page belongs to the reserved low memory and is marked used at start-up, so address 0
  is never claimed.\<close>

definition low_reserved :: "'a region_mgr_scheme \<Rightarrow> bool" where
  "low_reserved k \<longleftrightarrow> 0 \<in> used_pages k"

definition pages_of :: "nat \<Rightarrow> nat \<Rightarrow> nat set" where
  "pages_of a sz = {a div page_size ..< a div page_size + sz div page_size}"

subsection \<open>Status bytes\<close>

lemmas idx_consts = I0_def I1_def I2_def I3_def I4_def I5_def I6_def I7_def I_ALL_def
lemmas size_defs = S512_def S256_def S128_def S64_def S32_def S16_def S08_def S04_def

definition block_idxs :: "u8 list" where
  "block_idxs = [I0, I1, I2, I3, I4, I5, I6, I7]"

lemma u8_or_eq_0: "(a OR b = 0) = (a = 0 \<and> b = 0)" for a b :: u8
  by (auto simp: bit_eq_iff bit_simps)

lemma block_idxs_and:
  assumes "i \<in> set block_idxs" "j \<in> set block_idxs"
  shows "(i AND j = 0) = (i \<noteq> j)"
  using assms by (auto simp: block_idxs_def idx_consts)

lemma set_used_bit:
  assumes "i \<in> set block_idxs" "j \<in> set block_idxs"
  shows "(set_used b i AND j = 0) = (b AND j = 0 \<and> i \<noteq> j)"
  by (simp add: set_used_def bit.conj_disj_distrib2 u8_or_eq_0 block_idxs_and [OF assms])

lemma I_ALL_eq: "I_ALL = -1"
  by (simp add: I_ALL_def)

lemma u8_top: "(0xFF :: u8) = -1"
  by simp

lemma set_used_all [simp]: "set_used b I_ALL = 0xFF"
  unfolding set_used_def I_ALL_eq u8_top by (rule bit.disj_one_right)

lemma set_free_all [simp]: "set_free b I_ALL = 0"
  unfolding set_free_def I_ALL_eq bit.compl_one by (rule bit.conj_zero_right)

lemma set_free_set_used: "b AND i = 0 \<Longrightarrow> set_free (set_used b i) i = b"
  by (auto simp: set_free_def set_used_def bit_eq_iff bit_simps)

lemma page_block_mem [simp]: "page_block p \<in> set block_idxs"
  by (simp add: page_block_def block_idxs_def Let_def)

lemma page_block_ne_0 [simp]: "0xFF AND page_block p \<noteq> 0"
  by (simp add: page_block_def Let_def idx_consts)

subsection \<open>Addresses of regions\<close>

lemma gb_of_region: "r < 2 ^ 41 \<Longrightarrow> gb_of (r * region_size) = r div 512"
proof -
  assume r: "r < 2 ^ 41"
  have "r * region_size div gigabyte = r div 512" by (simp add: size_consts)
  moreover have "r div 512 < 2 ^ 32" using r by (simp add: less_mult_imp_div_less)
  ultimately show ?thesis by (simp add: gb_of_def)
qed

lemma sb_of_region: "sb_of (r * region_size) = r mod 512"
  by (simp add: sb_of_def)

lemma gb_of_lt_iff:
  "r < 2 ^ 41 \<Longrightarrow> gb_of (r * region_size) < n \<longleftrightarrow> r < 512 * n"
  by (simp add: gb_of_region div_less_iff_less_mult mult.commute [of n])

lemma status_of_page:
  assumes "p < 2 ^ 50"
  shows "get_status k (p * page_size) = get_status k (p div 512 * region_size)"
proof -
  have "p * page_size div region_size = p div 512" by (simp add: size_consts)
  then have sb: "sb_of (p * page_size) = sb_of (p div 512 * region_size)" by (simp add: sb_of_def)
  have "p * page_size div gigabyte = p div 512 * region_size div gigabyte"
    by (simp add: size_consts div_mult2_eq [symmetric])
  then show ?thesis using sb by (simp add: get_status_def gb_of_def)
qed

lemma add_region: "r < 2 ^ 42 \<Longrightarrow> u64_add (r * region_size) region_size = Suc r * region_size"
  by (simp add: u64_add_def size_consts)

lemma status_inj:
  assumes "q < 2 ^ 41" "r < 2 ^ 41"
  shows "(gb_of (q * region_size) = gb_of (r * region_size)
     \<and> sb_of (q * region_size) = sb_of (r * region_size)) = (q = r)"
  using assms by (auto simp: gb_of_region sb_of_region) (metis div_mult_mod_eq)

lemma wf_regions: "region_wf k \<Longrightarrow> r < num_regions_of k \<Longrightarrow> r < 2 ^ 41"
  by (simp add: region_wf_def)

lemma get_put_status:
  assumes wf: "region_wf k" and r: "r < num_regions_of k" and q: "q < num_regions_of k"
  shows "get_status (put_status (r * region_size) v k) (q * region_size)
     = (if q = r then v else get_status k (q * region_size))"
proof -
  let ?g = "\<lambda>x. gb_of (x * region_size)" and ?s = "\<lambda>x. sb_of (x * region_size)"
  have b: "r < 2 ^ 41" "q < 2 ^ 41" using wf_regions [OF wf] r q by auto
  have g: "?g r < length (status_bytes k)" "?g q < length (status_bytes k)"
    using wf r q b by (simp_all add: gb_of_lt_iff region_wf_def)
  have "length (status_bytes k ! ?g r) = 512"
    using wf g(1) by (simp add: region_wf_def list_all_length)
  then have s: "?s r < length (status_bytes k ! ?g r)" by (simp add: sb_of_def)
  show ?thesis
    using g s status_inj [OF b(2,1)]
    by (auto simp: get_status_def put_status_def nth_list_update_if split: if_split_asm)
qed

lemma put_status_fields [simp]:
  "num_status_bytes (put_status a b k) = num_status_bytes k"
  "kernel_heap_begin (put_status a b k) = kernel_heap_begin k"
  "watermark (put_status a b k) = watermark k"
  "region_mgr.more (put_status a b k) = region_mgr.more k"
  by (simp_all add: put_status_def)

lemma put_status_wf [simp]: "region_wf (put_status a b k) = region_wf k"
proof -
  have "length ((status_bytes k)[gb_of a := (status_bytes k ! gb_of a)[sb_of a := b]] ! n)
    = length (status_bytes k ! n)" if "n < length (status_bytes k)" for n
    using that by (cases "gb_of a = n") auto
  then have "list_all (\<lambda>g. length g = 512)
      ((status_bytes k)[gb_of a := (status_bytes k ! gb_of a)[sb_of a := b]])
    = list_all (\<lambda>g. length g = 512) (status_bytes k)"
    by (simp add: list_all_length)
  then show ?thesis by (simp add: region_wf_def put_status_def)
qed

subsection \<open>The search loops\<close>

abbreviation region_free :: "'a region_mgr_scheme \<Rightarrow> nat \<Rightarrow> bool" where
  "region_free k r \<equiv> get_status k (r * region_size) = 0"

definition free_run :: "'a region_mgr_scheme \<Rightarrow> nat \<Rightarrow> nat \<Rightarrow> bool" where
  "free_run k nr t \<longleftrightarrow> t + nr \<le> num_regions_of k \<and> (\<forall>i<nr. region_free k (t + i))"

text \<open>What the large scan from \<open>s\<close> reports: the first and last region of a free run, or that there is
  none.\<close>

fun large_post :: "'a region_mgr_scheme \<Rightarrow> nat \<Rightarrow> nat \<Rightarrow> (nat \<times> nat) option option \<Rightarrow> bool" where
  "large_post k nr s None = False"
| "large_post k nr s (Some None) = (\<forall>t\<ge>s. \<not> free_run k nr t)"
| "large_post k nr s (Some (Some (a, b))) =
     (\<exists>t\<ge>s. a = t * region_size \<and> b = (t + nr - 1) * region_size \<and> free_run k nr t)"

lemma large_post_mono:
  assumes "large_post k nr s' res" "s \<le> s'"
    and "\<And>t. s \<le> t \<Longrightarrow> t < s' \<Longrightarrow> \<not> free_run k nr t"
  shows "large_post k nr s res"
  using assms by (cases "(k, nr, s', res)" rule: large_post.cases) (auto, force+)

text \<open>The scan keeps a run of free regions from \<open>s\<close> up to its cursor \<open>r\<close>.\<close>

lemma large_scan_spec:
  assumes wf: "region_wf k" and "r < 2 ^ 41" "0 < n" "n \<le> nr" "r = s + (nr - n)"
    and "\<And>i. s \<le> i \<Longrightarrow> i < r \<Longrightarrow> region_free k i" and "num_regions_of k - r < f"
  shows "large_post k nr s (large_scan f k nr n (r * region_size) (s * region_size))"
  using assms(2-7)
proof (induction f arbitrary: r n s)
  case 0 then show ?case by simp
next
  case (Suc f)
  note prems = Suc.prems
  let ?N = "num_regions_of k"
  have lt: "gb_of (r * region_size) < num_status_bytes k \<longleftrightarrow> r < ?N"
    using prems(1) by (rule gb_of_lt_iff)
  have add: "u64_add (r * region_size) region_size = Suc r * region_size"
    using prems(1) by (intro add_region) simp
  consider (off) "\<not> r < ?N" | (found) "r < ?N" "region_free k r" "n = 1"
    | (more) "r < ?N" "region_free k r" "n \<noteq> 1" | (used) "r < ?N" "\<not> region_free k r"
    by blast
  then show ?case
  proof cases
    case off
    then show ?thesis using lt prems(2,3,4) by (auto simp: free_run_def)
  next
    case found
    then have e: "s + nr - 1 = r" "s + nr \<le> ?N" using prems by auto
    have "region_free k (s + i)" if "i < nr" for i
      using that prems(5) [of "s + i"] found(2) e(1) by (cases "s + i = r") auto
    then show ?thesis using found lt e
      by (auto simp: all_free_def free_run_def intro!: exI [of _ s])
  next
    case more
    have r': "Suc r < 2 ^ 41" using more(1) wf by (simp add: region_wf_def)
    have eq: "large_scan (Suc f) k nr n (r * region_size) (s * region_size)
        = large_scan f k nr (n - 1) (Suc r * region_size) (s * region_size)"
      using more prems(2) lt by (simp add: all_free_def add)
    have "region_free k i" if "s \<le> i" "i < Suc r" for i
      using that prems(5) [of i] more(2) by (cases "i = r") auto
    then show ?thesis
      unfolding eq by (intro Suc.IH) (use r' more(1,3) prems in auto)
  next
    case used
    have r': "Suc r < 2 ^ 41" using used(1) wf by (simp add: region_wf_def)
    have eq: "large_scan (Suc f) k nr n (r * region_size) (s * region_size)
        = large_scan f k nr nr (Suc r * region_size) (Suc r * region_size)"
      using used lt prems(2) by (simp add: all_free_def add)
    have "large_post k nr (Suc r) (large_scan f k nr nr (Suc r * region_size) (Suc r * region_size))"
      by (intro Suc.IH) (use r' used(1) prems in auto)
    moreover have "s \<le> Suc r" using prems(4) by simp
    moreover have "\<not> free_run k nr t" if "s \<le> t" "t < Suc r" for t
      using that used(2) prems(2,3,4) by (auto simp: free_run_def intro!: exI [of _ "r - t"])
    ultimately show ?thesis unfolding eq by (rule large_post_mono)
  qed
qed

lemma small_scan_spec:
  assumes "region_wf k" "r < 2 ^ 41" "num_regions_of k - r < f"
  shows "case small_scan f k bs (r * region_size) of
      None \<Rightarrow> False
    | Some None \<Rightarrow> \<forall>t\<ge>r. t < num_regions_of k \<longrightarrow>
        \<not> has_free_size (get_status k (t * region_size)) bs
    | Some (Some a) \<Rightarrow> \<exists>t\<ge>r. a = t * region_size \<and> t < num_regions_of k
        \<and> has_free_size (get_status k (t * region_size)) bs"
  using assms(2,3)
proof (induction f arbitrary: r)
  case 0 then show ?case by simp
next
  case (Suc f)
  let ?N = "num_regions_of k"
  have lt: "gb_of (r * region_size) < num_status_bytes k \<longleftrightarrow> r < ?N"
    using Suc.prems(1) by (rule gb_of_lt_iff)
  show ?case
  proof (cases "r < ?N \<and> \<not> has_free_size (get_status k (r * region_size)) bs")
    case False
    then show ?thesis using lt by auto
  next
    case True
    then have r': "Suc r < 2 ^ 41" using assms(1) by (simp add: region_wf_def)
    have "small_scan (Suc f) k bs (r * region_size) = small_scan f k bs (Suc r * region_size)"
      using True lt add_region [of r] Suc.prems(1) by simp
    moreover have "t = r \<or> Suc r \<le> t" if "r \<le> t" for t using that by auto
    ultimately show ?thesis using Suc.IH [OF r'] Suc.prems(2) True
      by (fastforce split: option.splits simp del: mult_Suc)
  qed
qed

subsection \<open>Claiming a block\<close>

lemma block_pos:
  "clzb I7 = 0" "clzb I6 = 1" "clzb I5 = 2" "clzb I4 = 3" "clzb I3 = 4" "clzb I2 = 5" "clzb I1 = 6"
  "clzb I0 = 7"
  by (simp_all add: clzb_def clzl_def idx_consts bit_len.simps)

lemma block_offset_eq:
  assumes "r < 2 ^ 41"
  shows "block_offset (r * region_size) I7 = r * region_size"
    "block_offset (r * region_size) I6 = r * region_size + S04"
    "block_offset (r * region_size) I5 = r * region_size + S08"
    "block_offset (r * region_size) I4 = r * region_size + S16"
    "block_offset (r * region_size) I3 = r * region_size + S32"
    "block_offset (r * region_size) I2 = r * region_size + S64"
    "block_offset (r * region_size) I1 = r * region_size + S128"
    "block_offset (r * region_size) I0 = r * region_size + S256"
  using assms
  by (simp_all add: block_offset_def ramp_shift_def block_pos u64_add_def u64_mul_def size_defs
      size_consts)

lemma idx_distinct [simp]:
  "I7 \<noteq> I6" "I7 \<noteq> I5" "I7 \<noteq> I4" "I7 \<noteq> I3" "I7 \<noteq> I2" "I7 \<noteq> I1" "I7 \<noteq> I0"
  "I6 \<noteq> I5" "I6 \<noteq> I4" "I6 \<noteq> I3" "I6 \<noteq> I2" "I6 \<noteq> I1" "I6 \<noteq> I0"
  "I5 \<noteq> I4" "I5 \<noteq> I3" "I5 \<noteq> I2" "I5 \<noteq> I1" "I5 \<noteq> I0" "I4 \<noteq> I3" "I4 \<noteq> I2" "I4 \<noteq> I1" "I4 \<noteq> I0"
  "I3 \<noteq> I2" "I3 \<noteq> I1" "I3 \<noteq> I0" "I2 \<noteq> I1" "I2 \<noteq> I0" "I1 \<noteq> I0"
  by (simp_all add: idx_consts)

lemmas idx_distinct' [simp] = idx_distinct [symmetric]

text \<open>The eight block sizes \<open>nearest\<close> can return for a request of at most 256 pages.\<close>

lemma nearest_cases:
  assumes "sz \<le> S256"
  obtains "nearest sz = S04" | "nearest sz = S08" | "nearest sz = S16" | "nearest sz = S32"
    | "nearest sz = S64" | "nearest sz = S128" | "nearest sz = S256"
proof -
  have "nearest sz \<in> {S04, S08, S16, S32, S64, S128, S256}" using assms by (simp add: nearest_def)
  then show ?thesis using that by blast
qed

lemma nearest_ge: "sz \<le> S512 \<Longrightarrow> sz \<le> nearest sz"
  by (auto simp: nearest_def)

lemma block_sizes: "S04 = 16384" "S08 = 32768" "S16 = 65536" "S32 = 131072" "S64 = 262144"
  "S128 = 524288" "S256 = 1048576" "S512 = 2097152"
  by (simp_all add: size_defs size_consts)

text \<open>The index claimed for a size: it was free, and its pages are exactly its extent.\<close>

lemma claim_idx_free:
  assumes "has_free_size b (nearest sz)" "sz \<le> S256"
  shows "b AND claim_idx b (nearest sz) = 0" "claim_idx b (nearest sz) \<in> set block_idxs"
proof -
  show "b AND claim_idx b (nearest sz) = 0"
    using assms(2)
    by (rule nearest_cases)
       (use assms(1) in \<open>auto simp: has_free_size_def claim_idx_def has_free_def bs2bi_def block_sizes\<close>)
  show "claim_idx b (nearest sz) \<in> set block_idxs"
    by (simp add: claim_idx_def block_idxs_def)
qed

lemma region_page_div: "(r * 2097152 + c) div 4096 = 512 * r + c div 4096" for c r :: nat
proof -
  have "r * 2097152 + c = c + 4096 * (512 * r)" by simp
  then show ?thesis by (simp only: div_mult_self2)
qed

lemma claim_in_region:
  assumes "r < 2 ^ 41" "sz \<le> S256"
    and "p \<in> pages_of (block_offset (r * region_size) (claim_idx b (nearest sz))) (nearest sz)"
  shows "p div 512 = r"
proof -
  note off = block_offset_eq [OF assms(1), unfolded size_consts block_sizes]
  have "512 * r \<le> p \<and> p < 512 * r + 512"
    using assms(2)
    by (rule nearest_cases)
       (use assms(3) in \<open>simp_all add: claim_idx_def block_sizes pages_of_def off size_consts
          region_page_div split: if_splits\<close>)
  then show ?thesis by (auto intro: div_nat_eqI)
qed

lemma claim_extent:
  assumes "p div 512 = r" "r < 2 ^ 41" "sz \<le> S256"
  shows "page_block p = claim_idx b (nearest sz)
    \<longleftrightarrow> p \<in> pages_of (block_offset (r * region_size) (claim_idx b (nearest sz))) (nearest sz)"
proof -
  define q where "q = p mod 512"
  have p: "p = 512 * r + q" and q: "q < 512" using assms(1) by (auto simp: q_def)
  have pb: "page_block (512 * r + q) = (if q < 4 then I7 else if q < 8 then I6 else if q < 16 then I5
     else if q < 32 then I4 else if q < 64 then I3 else if q < 128 then I2 else if q < 256 then I1
     else I0)" using q by (simp add: page_block_def Let_def)
  note off = block_offset_eq [OF assms(2), unfolded size_consts block_sizes]
  show ?thesis using assms(3)
    by (rule nearest_cases)
       (use q in \<open>simp_all add: p pb claim_idx_def block_sizes pages_of_def off size_consts region_page_div\<close>)
qed

subsection \<open>One search pass\<close>

lemma mark_all_fields [simp]:
  "num_status_bytes (mark_all a k) = num_status_bytes k"
  "kernel_heap_begin (mark_all a k) = kernel_heap_begin k"
  "watermark (mark_all a k) = watermark k"
  "region_mgr.more (mark_all a k) = region_mgr.more k"
  "region_wf (mark_all a k) = region_wf k"
  by (simp_all add: mark_all_def)

lemma free_all_fields [simp]:
  "num_status_bytes (free_all a k) = num_status_bytes k"
  "kernel_heap_begin (free_all a k) = kernel_heap_begin k"
  "watermark (free_all a k) = watermark k"
  "region_mgr.more (free_all a k) = region_mgr.more k"
  "region_wf (free_all a k) = region_wf k"
  by (simp_all add: free_all_def)

lemma fold_region_fields:
  assumes "\<And>a k. num_status_bytes (f a k) = num_status_bytes k"
    "\<And>a k. kernel_heap_begin (f a k) = kernel_heap_begin k"
    "\<And>a k. watermark (f a k) = watermark k"
    "\<And>a k. region_mgr.more (f a k) = region_mgr.more k"
    "\<And>a k. region_wf (f a k) = region_wf k"
  shows "num_status_bytes (fold (\<lambda>i. f (g i)) xs k) = num_status_bytes k"
    "kernel_heap_begin (fold (\<lambda>i. f (g i)) xs k) = kernel_heap_begin k"
    "watermark (fold (\<lambda>i. f (g i)) xs k) = watermark k"
    "region_mgr.more (fold (\<lambda>i. f (g i)) xs k) = region_mgr.more k"
    "region_wf (fold (\<lambda>i. f (g i)) xs k) = region_wf k"
  by (induction xs arbitrary: k) (simp_all add: assms)

lemmas fold_mark_fields [simp] = fold_region_fields [of mark_all, simplified]
lemmas fold_free_fields [simp] = fold_region_fields [of free_all, simplified]

lemma fold_put_status:
  assumes "\<And>a k. f a k = put_status a (h (get_status k a)) k" "\<And>b. h (h b) = h b"
    and "region_wf k" "t + n \<le> num_regions_of k" "q < num_regions_of k"
  shows "get_status (fold (\<lambda>i. f ((t + i) * region_size)) [0..<n] k) (q * region_size)
    = (if t \<le> q \<and> q < t + n then h (get_status k (q * region_size))
       else get_status k (q * region_size))"
  using assms(4)
proof (induction n)
  case 0 then show ?case by auto
next
  case (Suc n)
  let ?k = "fold (\<lambda>i. f ((t + i) * region_size)) [0..<n] k"
  have fields: "region_wf ?k = region_wf k" "num_status_bytes ?k = num_status_bytes k"
    by (rule fold_region_fields; simp add: assms(1))+
  have "get_status (f ((t + n) * region_size) ?k) (q * region_size)
    = (if q = t + n then h (get_status ?k (q * region_size)) else get_status ?k (q * region_size))"
    unfolding assms(1) [of "(t + n) * region_size"] using Suc.prems assms(3,5) fields by (subst get_put_status) auto
  then show ?case using Suc by (auto simp: assms(2))
qed

lemma mark_span_status:
  assumes "region_wf k" "t + n \<le> num_regions_of k" "0 < n" "q < num_regions_of k"
  shows "get_status (mark_span k (t * region_size) ((t + n - 1) * region_size)) (q * region_size)
    = (if t \<le> q \<and> q < t + n then 0xFF else get_status k (q * region_size))"
proof -
  have "(t + n - 1) * region_size - t * region_size = (n - 1) * region_size"
    using assms(3) by (simp add: diff_mult_distrib [symmetric])
  then have n: "Suc (((t + n - 1) * region_size - t * region_size) div region_size) = n"
    using assms(3) by simp
  have "mark_span k (t * region_size) ((t + n - 1) * region_size)
      = fold (\<lambda>i. mark_all ((t + i) * region_size)) [0..<n] k"
    unfolding mark_span_def n by (simp add: add_mult_distrib)
  then show ?thesis
    using fold_put_status [of mark_all "\<lambda>b. set_used b I_ALL" k t n q] assms
    by (simp add: mark_all_def)
qed

lemma page_used_eq:
  assumes "region_wf k" "p < 512 * num_regions_of k"
  shows "page_used k p = (get_status k (p div 512 * region_size) AND page_block p \<noteq> 0)"
proof -
  have "p < 2 ^ 50" using assms by (simp add: region_wf_def)
  then show ?thesis by (simp add: page_used_def status_of_page)
qed

text \<open>The addresses at which a block for a request can start.\<close>

definition valid_block :: "nat \<Rightarrow> nat \<Rightarrow> bool" where
  "valid_block a sz \<longleftrightarrow>
     (if sz > S256 then a mod region_size = 0
      else a mod region_size = nearest sz \<or> nearest sz = S04 \<and> a mod region_size = 0)"

text \<open>What a successful claim does: the pages were free, and now exactly they are used as well.\<close>

definition claimed :: "'a region_mgr_scheme \<Rightarrow> nat \<Rightarrow> nat \<Rightarrow> 'a region_mgr_scheme \<Rightarrow> bool" where
  "claimed k sz a k' \<longleftrightarrow>
     valid_block a sz \<and> pages_of a (region_size_for sz) \<inter> used_pages k = {}
     \<and> pages_of a (region_size_for sz) \<subseteq> {..<512 * num_regions_of k}
     \<and> used_pages k' = used_pages k \<union> pages_of a (region_size_for sz)
     \<and> num_status_bytes k' = num_status_bytes k \<and> kernel_heap_begin k' = kernel_heap_begin k
     \<and> watermark k' = watermark k \<and> region_mgr.more k' = region_mgr.more k \<and> region_wf k'"

lemma claimed_by_status:
  assumes wf: "region_wf k" "region_wf k'" and v: "valid_block a sz" and f: "num_status_bytes k' = num_status_bytes k"
    "kernel_heap_begin k' = kernel_heap_begin k" "watermark k' = watermark k"
    "region_mgr.more k' = region_mgr.more k"
    and sub: "\<And>p. p \<in> pages_of a (region_size_for sz) \<Longrightarrow> p < 512 * num_regions_of k"
    and free: "\<And>p. p \<in> pages_of a (region_size_for sz) \<Longrightarrow>
      get_status k (p div 512 * region_size) AND page_block p = 0"
    and st: "\<And>p. p < 512 * num_regions_of k \<Longrightarrow>
      get_status k' (p div 512 * region_size) AND page_block p \<noteq> 0 \<longleftrightarrow>
      get_status k (p div 512 * region_size) AND page_block p \<noteq> 0
      \<or> p \<in> pages_of a (region_size_for sz)"
  shows "claimed k sz a k'"
proof -
  have "p \<notin> used_pages k" if "p \<in> pages_of a (region_size_for sz)" for p
    using free [OF that] sub [OF that] by (simp add: used_pages_def page_used_eq [OF wf(1)])
  moreover have "p \<in> used_pages k' \<longleftrightarrow> p \<in> used_pages k \<union> pages_of a (region_size_for sz)" for p
    using st [of p] sub [of p] f(1)
    by (auto simp: used_pages_def page_used_eq [OF wf(1)] page_used_eq [OF wf(2)])
  ultimately show ?thesis using wf v f sub unfolding claimed_def by blast
qed

lemma region_size_for_large:
  assumes "S256 < sz" "sz + region_size \<le> 2 ^ 64"
  shows "region_size_for sz = div_round_up sz region_size * region_size"
proof (cases "sz > S512")
  case True
  then show ?thesis using assms(2) by (simp add: region_size_for_def up_to_nearest_eq mult.commute)
next
  case False
  have "div_round_up sz region_size \<le> 1"
    using False by (intro div_round_up_le) (simp_all add: block_sizes size_consts)
  moreover have "0 < div_round_up sz region_size"
    using assms(1) by (intro div_round_up_pos) simp_all
  ultimately have "div_round_up sz region_size = 1" by simp
  then show ?thesis using False assms(1)
    by (simp add: region_size_for_def nearest_def block_sizes size_consts)
qed

lemma region_size_for_small: "sz \<le> S256 \<Longrightarrow> region_size_for sz = nearest sz"
  by (simp add: region_size_for_def block_sizes)

lemma pages_of_regions:
  "p \<in> pages_of (t * region_size) (n * region_size) \<longleftrightarrow> t \<le> p div 512 \<and> p div 512 < t + n"
proof -
  have e: "t * 2097152 div 4096 = 512 * t" "n * 2097152 div 4096 = 512 * n" by simp_all
  have "p div 512 < t + n \<longleftrightarrow> p < 512 * t + 512 * n"
    using div_less_iff_less_mult [of 512 p "t + n"] by (simp add: algebra_simps)
  moreover have "t \<le> p div 512 \<longleftrightarrow> 512 * t \<le> p"
    using less_eq_div_iff_mult_less_eq [of 512 t p] by (simp add: mult.commute)
  ultimately show ?thesis by (simp only: pages_of_def size_consts e atLeastLessThan_iff)
qed

lemma claim_large:
  assumes wf: "region_wf k" and sz: "S256 < sz" "sz + region_size \<le> 2 ^ 64"
    and run: "free_run k nr t" and nr: "nr = div_round_up sz region_size"
  shows "claimed k sz (t * region_size) (mark_span k (t * region_size) ((t + nr - 1) * region_size))"
proof -
  let ?k = "mark_span k (t * region_size) ((t + nr - 1) * region_size)"
  have nr0: "0 < nr" unfolding nr using sz(1) by (intro div_round_up_pos) simp_all
  have le: "t + nr \<le> num_regions_of k" using run by (simp add: free_run_def)
  have pg: "p \<in> pages_of (t * region_size) (region_size_for sz) \<longleftrightarrow> t \<le> p div 512 \<and> p div 512 < t + nr"
    for p unfolding region_size_for_large [OF sz] nr by (rule pages_of_regions)
  have lt: "p div 512 < num_regions_of k \<longleftrightarrow> p < 512 * num_regions_of k" for p
    by (simp add: div_less_iff_less_mult)
  have free: "region_free k q" if "t \<le> q" "q < t + nr" for q
  proof -
    obtain i where "q = t + i" using \<open>t \<le> q\<close> le_Suc_ex by blast
    then show ?thesis using that(2) run by (simp add: free_run_def)
  qed
  show ?thesis
  proof (rule claimed_by_status)
    fix p assume p: "p < 512 * num_regions_of k"
    then show "get_status ?k (p div 512 * region_size) AND page_block p \<noteq> 0 \<longleftrightarrow>
      get_status k (p div 512 * region_size) AND page_block p \<noteq> 0
      \<or> p \<in> pages_of (t * region_size) (region_size_for sz)"
      using mark_span_status [OF wf le nr0, of "p div 512"] lt pg by auto
  qed (use wf pg lt le free sz(1) in \<open>auto simp: mark_span_def valid_block_def\<close>)
qed

lemma claim_valid:
  assumes "r < 2 ^ 41" "sz \<le> S256"
  shows "valid_block (block_offset (r * region_size) (claim_idx b (nearest sz))) sz"
proof -
  note off = block_offset_eq [OF assms(1), unfolded size_consts block_sizes]
  show ?thesis using assms(2)
    by (rule nearest_cases)
       (use assms(2) in \<open>simp_all add: valid_block_def claim_idx_def block_sizes off size_consts\<close>)
qed

lemma claim_small:
  assumes wf: "region_wf k" and sz: "sz \<le> S256" and t: "t < num_regions_of k"
    and hf: "has_free_size (get_status k (t * region_size)) (nearest sz)"
    and i: "i = claim_idx (get_status k (t * region_size)) (nearest sz)"
  shows "claimed k sz (block_offset (t * region_size) i)
    (put_status (t * region_size) (set_used (get_status k (t * region_size)) i) k)"
proof -
  have t41: "t < 2 ^ 41" using wf_regions [OF wf t] .
  have free: "get_status k (t * region_size) AND i = 0" "i \<in> set block_idxs"
    using claim_idx_free [OF hf sz] by (simp_all add: i)
  have pg: "p \<in> pages_of (block_offset (t * region_size) i) (region_size_for sz)
      \<longleftrightarrow> p div 512 = t \<and> page_block p = i" for p
    using claim_extent [of p t sz "get_status k (t * region_size)", OF _ t41 sz]
      claim_in_region [OF t41 sz, of p "get_status k (t * region_size)"]
    by (auto simp: i region_size_for_small [OF sz])
  have lt: "p div 512 < num_regions_of k \<longleftrightarrow> p < 512 * num_regions_of k" for p
    by (simp add: div_less_iff_less_mult)
  have "valid_block (block_offset (t * region_size) i) sz"
    unfolding i using sz by (rule claim_valid [OF t41])
  then show ?thesis
  proof (rule claimed_by_status [rotated 2])
    fix p assume p: "p < 512 * num_regions_of k"
    then show "get_status (put_status (t * region_size) (set_used (get_status k (t * region_size)) i) k)
        (p div 512 * region_size) AND page_block p \<noteq> 0 \<longleftrightarrow>
      get_status k (p div 512 * region_size) AND page_block p \<noteq> 0
      \<or> p \<in> pages_of (block_offset (t * region_size) i) (region_size_for sz)"
      using get_put_status [OF wf t, of "p div 512"] lt [of p] pg [of p] set_used_bit [OF free(2)]
      by auto
  qed (use wf pg lt t free in auto)
qed

subsection \<open>The whole search\<close>

definition start_region :: "'a region_mgr_scheme \<Rightarrow> nat" where
  "start_region k = up_to_nearest (watermark k) region_size div region_size"

definition no_space :: "'a region_mgr_scheme \<Rightarrow> nat \<Rightarrow> nat \<Rightarrow> bool" where
  "no_space k sz s \<longleftrightarrow>
     (if sz > S256 then \<forall>t\<ge>s. \<not> free_run k (div_round_up sz region_size) t
      else \<forall>t\<ge>s. t < num_regions_of k \<longrightarrow>
        \<not> has_free_size (get_status k (t * region_size)) (nearest sz))"

lemma region_dvd_2_64: "region_size dvd 2 ^ 64"
  by (simp add: size_consts)

lemma scan_start: "up_to_nearest n region_size = up_to_nearest n region_size div region_size * region_size"
proof -
  have "region_size dvd u64_mul region_size m" for m
    unfolding u64_mul_def by (simp only: dvd_mod_iff [OF region_dvd_2_64] dvd_triv_left)
  then have "region_size dvd up_to_nearest n region_size"
    by (auto simp: up_to_nearest_def)
  then show ?thesis by simp
qed

lemma start_region_lt: "region_wf k \<Longrightarrow> start_region k < 2 ^ 41"
  by (simp add: region_wf_def start_region_def size_consts less_mult_imp_div_less)

fun pass_post :: "'a region_mgr_scheme \<Rightarrow> nat \<Rightarrow> (nat \<times> 'a region_mgr_scheme) option option \<Rightarrow> bool" where
  "pass_post k sz None = False"
| "pass_post k sz (Some None) = no_space k sz (start_region k)"
| "pass_post k sz (Some (Some (a, k'))) = claimed k sz a k'"

lemma search_pass_spec:
  assumes wf: "region_wf k" and sz: "sz + region_size \<le> 2 ^ 64"
  shows "pass_post k sz (search_pass k sz)"
proof -
  let ?s = "start_region k" and ?nr = "div_round_up sz region_size"
  have start: "up_to_nearest (watermark k) region_size = ?s * region_size"
    unfolding start_region_def by (rule scan_start)
  have lt: "?s < 2 ^ 41" using wf by (rule start_region_lt)
  show ?thesis
  proof (cases "sz > S256")
    case True
    have "0 < ?nr" using True by (intro div_round_up_pos) simp_all
    then have "large_post k ?nr ?s (large_scan (scan_fuel k) k ?nr ?nr (?s * region_size) (?s * region_size))"
      by (intro large_scan_spec [OF wf lt]) (simp_all add: scan_fuel_def)
    then show ?thesis
      using True claim_large [OF wf True sz]
      by (auto simp: search_pass_def start no_space_def Let_def
          elim!: large_post.elims split: option.splits)
  next
    case False
    have "case small_scan (scan_fuel k) k (nearest sz) (?s * region_size) of
        None \<Rightarrow> False
      | Some None \<Rightarrow> \<forall>t\<ge>?s. t < num_regions_of k \<longrightarrow>
          \<not> has_free_size (get_status k (t * region_size)) (nearest sz)
      | Some (Some a) \<Rightarrow> \<exists>t\<ge>?s. a = t * region_size \<and> t < num_regions_of k
          \<and> has_free_size (get_status k (t * region_size)) (nearest sz)"
      by (intro small_scan_spec [OF wf lt]) (simp add: scan_fuel_def)
    then show ?thesis
      using False claim_small [OF wf]
      by (auto simp: search_pass_def start no_space_def Let_def claim_region_def
          split: option.splits)
  qed
qed

lemma reset_wf: "region_wf k \<Longrightarrow> region_wf (k\<lparr>watermark := reset_point k\<rparr>)"
proof -
  assume wf: "region_wf k"
  have r: "reset_point k = kernel_heap_begin k + num_status_bytes k"
    using wf by (simp add: reset_point_def region_wf_def u64_add_id size_consts)
  have "reset_point k + region_size \<le> 2 ^ 62" using wf by (simp add: r region_wf_def)
  then have "up_to_nearest (reset_point k) region_size < 2 ^ 62"
    using up_to_nearest_bounds(2) [of region_size "reset_point k"] by simp
  then show ?thesis using wf by (simp add: region_wf_def)
qed

lemma set_watermark [simp]:
  "used_pages (k\<lparr>watermark := w\<rparr>) = used_pages k"
  "get_status (k\<lparr>watermark := w\<rparr>) a = get_status k a"
  "low_reserved (k\<lparr>watermark := w\<rparr>) = low_reserved k"
  "reset_point (k\<lparr>watermark := w\<rparr>) = reset_point k"
  "no_space (k\<lparr>watermark := w\<rparr>) sz s = no_space k sz s"
  by (simp_all add: used_pages_def page_used_def get_status_def low_reserved_def reset_point_def
      no_space_def free_run_def)

lemma block_pages_pos:
  assumes "sz + region_size \<le> 2 ^ 64"
  shows "page_size \<le> region_size_for sz"
proof (cases "sz > S512")
  case True
  have "sz \<le> up_to_nearest sz region_size" using assms by (intro up_to_nearest_bounds) simp_all
  then show ?thesis using True by (simp add: region_size_for_def block_sizes size_consts)
next
  case False
  then show ?thesis by (simp add: region_size_for_def nearest_def block_sizes size_consts)
qed

lemma claimed_nonzero:
  assumes "claimed k sz a k'" "low_reserved k" "sz + region_size \<le> 2 ^ 64"
  shows "a \<noteq> 0"
proof
  assume "a = 0"
  then have "0 \<in> pages_of a (region_size_for sz)"
    using div_le_mono [OF block_pages_pos [OF assms(3)], of page_size] by (simp add: pages_of_def)
  then show False using assms(1,2) by (auto simp: claimed_def low_reserved_def)
qed

text \<open>The outcome of a complete search.  Failure means that nothing at or above the restart point fits.\<close>

definition region_inv :: "'a region_mgr_scheme \<Rightarrow> bool" where
  "region_inv k \<longleftrightarrow> region_wf k \<and> low_reserved k"

definition search_post ::
  "'a region_mgr_scheme \<Rightarrow> nat \<Rightarrow> nat \<Rightarrow> 'a region_mgr_scheme \<Rightarrow> bool" where
  "search_post k sz a k' \<longleftrightarrow>
     region_inv k' \<and> num_status_bytes k' = num_status_bytes k
     \<and> kernel_heap_begin k' = kernel_heap_begin k \<and> region_mgr.more k' = region_mgr.more k
     \<and> (if a = 0 then status_bytes k' = status_bytes k
          \<and> no_space k sz (up_to_nearest (reset_point k) region_size div region_size)
        else valid_block a sz \<and> pages_of a (region_size_for sz) \<inter> used_pages k = {}
          \<and> pages_of a (region_size_for sz) \<subseteq> {..<512 * num_regions_of k}
          \<and> used_pages k' = used_pages k \<union> pages_of a (region_size_for sz))"

lemma search_post_claimed:
  assumes "claimed k sz a k'" "region_inv k" "sz + region_size \<le> 2 ^ 64"
  shows "search_post k sz a k'"
  using claimed_nonzero [OF assms(1) _ assms(3)] assms(1,2)
  by (auto simp: search_post_def claimed_def region_inv_def low_reserved_def)

lemma search_post_fail:
  assumes inv: "region_inv k" and ns: "no_space k sz (start_region k)"
    and le: "\<not> watermark k > reset_point k"
  shows "search_post k sz 0 k"
proof -
  have wf: "region_wf k" using inv by (simp add: region_inv_def)
  have r: "reset_point k + region_size \<le> 2 ^ 62"
    using wf by (simp add: reset_point_def region_wf_def u64_add_id size_consts)
  have "watermark k \<le> up_to_nearest (reset_point k) region_size"
    using le up_to_nearest_bounds(1) [of region_size "reset_point k"] r by simp
  moreover have "region_size dvd up_to_nearest (reset_point k) region_size"
    using r by (intro up_to_nearest_dvd) simp_all
  ultimately have "up_to_nearest (watermark k) region_size \<le> up_to_nearest (reset_point k) region_size"
    using le r by (intro up_to_nearest_le) simp_all
  then have "start_region k \<le> up_to_nearest (reset_point k) region_size div region_size"
    unfolding start_region_def by (rule div_le_mono)
  then have "no_space k sz (up_to_nearest (reset_point k) region_size div region_size)"
    using ns by (auto simp: no_space_def split: if_splits)
  then show ?thesis using inv by (simp add: search_post_def)
qed

lemma find_and_claim_spec:
  assumes "region_inv k" "sz + region_size \<le> 2 ^ 64"
  shows "\<exists>a k'. find_and_claim k sz = Some (a, k') \<and> search_post k sz a k'"
  using assms(2,1)
proof (induction k sz rule: find_and_claim.induct)
  case (1 k sz)
  let ?k = "k\<lparr>watermark := reset_point k\<rparr>"
  have wf: "region_wf k" using "1.prems"(2) by (simp add: region_inv_def)
  have "pass_post k sz (search_pass k sz)" using wf "1.prems"(1) by (rule search_pass_spec)
  then consider (hit) a k' where "search_pass k sz = Some (Some (a, k'))" "claimed k sz a k'"
    | (miss) "search_pass k sz = Some None" "no_space k sz (start_region k)"
    by (elim pass_post.elims) auto
  then show ?case
  proof cases
    case hit
    then show ?thesis using search_post_claimed [OF hit(2) "1.prems"(2,1)]
      by (simp add: find_and_claim.simps [of k sz])
  next
    case miss
    show ?thesis
    proof (cases "watermark k > reset_point k")
      case True
      have "region_inv ?k" using "1.prems"(2) reset_wf [OF wf] by (simp add: region_inv_def)
      then obtain a k' where r: "find_and_claim ?k sz = Some (a, k')" "search_post ?k sz a k'"
        using "1.IH" [OF miss(1) refl True] "1.prems"(1) by blast
      then have "search_post k sz a k'" by (simp add: search_post_def cong: if_cong)
      then show ?thesis using r(1) miss(1) True by (simp add: find_and_claim.simps [of k sz])
    next
      case False
      then show ?thesis using search_post_fail [OF "1.prems"(2) miss(2)] miss(1)
        by (simp add: find_and_claim.simps [of k sz])
    qed
  qed
qed

subsection \<open>Releasing a block\<close>

lemma set_free_bit:
  assumes "i \<in> set block_idxs" "j \<in> set block_idxs"
  shows "(set_free b i AND j = 0) = (b AND j = 0 \<or> i = j)"
proof (cases "i = j")
  case True
  then show ?thesis by (auto simp: set_free_def bit_eq_iff bit_simps)
next
  case False
  then have "i AND j = 0" using block_idxs_and [OF assms] by simp
  then have "NOT i AND j = j" by (auto simp: bit_eq_iff bit_simps)
  then show ?thesis using False by (simp add: set_free_def and.assoc)
qed

definition release_idx :: "nat \<Rightarrow> nat \<Rightarrow> u8" where
  "release_idx sz start = claim_idx (if start mod region_size = 0 then 0 else 0xFF) (nearest sz)"

lemma release_region_small:
  assumes "sz \<le> S256"
  shows "release_region k sz start
     = put_status start (set_free (get_status k start) (release_idx sz start)) k"
  using assms
  by (rule nearest_cases)
     (use assms in \<open>simp_all add: release_region_def release_idx_def claim_idx_def has_free_def
       I7_def block_sizes Let_def\<close>)

lemma release_idx_mem [simp]: "release_idx sz start \<in> set block_idxs"
  by (simp add: release_idx_def claim_idx_def block_idxs_def)

lemma block_start_eq:
  assumes "valid_block a sz" "sz \<le> S256" "a div region_size = r" "r < 2 ^ 41"
  shows "block_offset (r * region_size) (release_idx sz a) = a"
proof -
  note off = block_offset_eq [OF assms(4), unfolded size_consts block_sizes]
  have a: "a = r * 2097152 + a mod 2097152"
    using assms(3) div_mult_mod_eq [of a region_size] by (simp add: size_consts)
  show ?thesis using assms(2)
    by (rule nearest_cases)
       (use assms(1,2) a in \<open>auto simp: valid_block_def release_idx_def claim_idx_def block_sizes
          size_consts off has_free_def I7_def [THEN arg_cong [where f = "\<lambda>x. 0xFF AND x"]]\<close>)
qed

lemma status_of_addr: "get_status k a = get_status k (a div region_size * region_size)"
  "put_status a v k = put_status (a div region_size * region_size) v k"
proof -
  have "gb_of a = gb_of (a div region_size * region_size)"
    by (simp add: gb_of_def size_consts div_mult2_eq [symmetric])
  moreover have "sb_of a = sb_of (a div region_size * region_size)" by (simp add: sb_of_def)
  ultimately show "get_status k a = get_status k (a div region_size * region_size)"
    "put_status a v k = put_status (a div region_size * region_size) v k"
    by (simp_all add: get_status_def put_status_def)
qed

lemma used_by_status:
  assumes "region_wf k" "region_wf k'" "num_status_bytes k' = num_status_bytes k"
    and "\<And>p. p < 512 * num_regions_of k \<Longrightarrow>
      get_status k' (p div 512 * region_size) AND page_block p \<noteq> 0 \<longleftrightarrow>
      get_status k (p div 512 * region_size) AND page_block p \<noteq> 0 \<and> p \<notin> P"
  shows "used_pages k' = used_pages k - P"
  using assms(3,4) by (auto simp: used_pages_def page_used_eq [OF assms(1)] page_used_eq [OF assms(2)])

lemma release_wf [simp]: "region_wf (release_region k sz a) = region_wf k"
  "num_status_bytes (release_region k sz a) = num_status_bytes k"
  "kernel_heap_begin (release_region k sz a) = kernel_heap_begin k"
  "watermark (release_region k sz a) = watermark k"
  "region_mgr.more (release_region k sz a) = region_mgr.more k"
  by (simp_all add: release_region_def Let_def)

lemma release_small:
  assumes wf: "region_wf k" and v: "valid_block a sz" and sz: "sz \<le> S256"
    and r: "a div region_size = r" "r < num_regions_of k"
  shows "used_pages (release_region k sz a) = used_pages k - pages_of a (nearest sz)"
proof (rule used_by_status)
  let ?i = "release_idx sz a"
  have r41: "r < 2 ^ 41" using wf_regions [OF wf r(2)] .
  have pg: "p \<in> pages_of a (nearest sz) \<longleftrightarrow> p div 512 = r \<and> page_block p = ?i" for p
    using claim_extent [of p r sz, OF _ r41 sz] claim_in_region [OF r41 sz, of p]
      block_start_eq [OF v sz r(1) r41]
    unfolding release_idx_def by metis
  fix p assume "p < 512 * num_regions_of k"
  then have "p div 512 < num_regions_of k" by (simp add: div_less_iff_less_mult)
  then show "get_status (release_region k sz a) (p div 512 * region_size) AND page_block p \<noteq> 0 \<longleftrightarrow>
      get_status k (p div 512 * region_size) AND page_block p \<noteq> 0 \<and> p \<notin> pages_of a (nearest sz)"
    using get_put_status [OF wf r(2)] set_free_bit [of ?i "page_block p"]
    by (auto simp: release_region_small [OF sz] status_of_addr(1) [of _ a] status_of_addr(2) [of a] r(1) pg)
qed (simp_all add: wf)

lemma release_large:
  assumes wf: "region_wf k" and sz: "S256 < sz" "sz + region_size \<le> 2 ^ 64"
    and t: "t + div_round_up sz region_size \<le> num_regions_of k"
  shows "used_pages (release_region k sz (t * region_size))
    = used_pages k - pages_of (t * region_size) (region_size_for sz)"
proof (rule used_by_status)
  let ?n = "div_round_up sz region_size"
  have "u64_add (t * region_size) (i * region_size) = (t + i) * region_size" if "i < ?n" for i
  proof -
    have "t + i < 2 ^ 41" using that t wf_regions [OF wf, of "t + i"] by simp
    then show ?thesis by (simp add: u64_add_def size_consts)
  qed
  then have "release_region k sz (t * region_size)
    = fold (\<lambda>i. free_all ((t + i) * region_size)) [0..<?n] k"
    using sz(1) by (auto simp: release_region_def Let_def intro: fold_cong)
  then have st: "get_status (release_region k sz (t * region_size)) (q * region_size)
      = (if t \<le> q \<and> q < t + ?n then 0 else get_status k (q * region_size))"
    if "q < num_regions_of k" for q
    using fold_put_status [of free_all "\<lambda>b. set_free b I_ALL" k t ?n q] wf t that
    by (simp add: free_all_def)
  fix p assume "p < 512 * num_regions_of k"
  then have "p div 512 < num_regions_of k" by (simp add: div_less_iff_less_mult)
  then show "get_status (release_region k sz (t * region_size)) (p div 512 * region_size)
        AND page_block p \<noteq> 0 \<longleftrightarrow>
      get_status k (p div 512 * region_size) AND page_block p \<noteq> 0
      \<and> p \<notin> pages_of (t * region_size) (region_size_for sz)"
    using st pages_of_regions [of p t ?n] by (simp add: region_size_for_large [OF sz])
qed (simp_all add: wf)

lemma release_used:
  assumes wf: "region_wf k" and v: "valid_block a sz" and sz: "sz + region_size \<le> 2 ^ 64"
    and sub: "pages_of a (region_size_for sz) \<subseteq> {..<512 * num_regions_of k}"
  shows "used_pages (release_region k sz a) = used_pages k - pages_of a (region_size_for sz)"
proof (cases "sz > S256")
  case True
  define t where "t = a div region_size"
  have a: "a = t * region_size" using v True by (auto simp: t_def valid_block_def)
  let ?n = "div_round_up sz region_size"
  have n: "0 < ?n" using True by (intro div_round_up_pos) simp_all
  have "p div 512 < num_regions_of k" if "t \<le> p div 512" "p div 512 < t + ?n" for p
    using sub that pages_of_regions [of p t ?n]
    by (auto simp: a region_size_for_large [OF True sz] div_less_iff_less_mult)
  from this [of "512 * (t + ?n - 1)"] n have "t + ?n - 1 < num_regions_of k" by simp
  then have "t + ?n \<le> num_regions_of k" using n by linarith
  then show ?thesis using release_large [OF wf True sz] by (simp add: a)
next
  case False
  then have sz': "sz \<le> S256" by simp
  have "page_size \<le> nearest sz" using block_pages_pos [OF sz] by (simp add: region_size_for_small [OF sz'])
  then have "a div page_size \<in> pages_of a (region_size_for sz)"
    using div_le_mono [of page_size "nearest sz" page_size]
    by (simp add: pages_of_def region_size_for_small [OF sz'])
  then have "a div page_size < 512 * num_regions_of k" using sub by blast
  then have "a div page_size div 512 < num_regions_of k" by (simp add: div_less_iff_less_mult)
  moreover have "a div page_size div 512 = a div region_size"
    by (simp add: size_consts div_mult2_eq [symmetric])
  ultimately show ?thesis
    using release_small [OF wf v sz' refl] by (simp add: region_size_for_small [OF sz'])
qed

subsection \<open>The interface of stage 1\<close>

text \<open>
  What the later stages rely on: a claim hands out unused pages and marks exactly them, a release gives
  exactly them back.  From these laws alone every interleaving of claims and releases keeps the live
  blocks pairwise disjoint and accounts for every used page.
\<close>

locale region_provider =
  fixes inv :: "'s \<Rightarrow> bool" and used :: "'s \<Rightarrow> nat set"
    and claim :: "'s \<Rightarrow> nat \<Rightarrow> (nat \<times> 's) option" and release :: "'s \<Rightarrow> nat \<Rightarrow> nat \<Rightarrow> 's"
    and extent :: "nat \<Rightarrow> nat \<Rightarrow> nat set" and ok :: "nat \<Rightarrow> bool"
    and fits :: "'s \<Rightarrow> nat \<Rightarrow> nat \<Rightarrow> bool"
  assumes claim_total: "inv s \<Longrightarrow> ok sz \<Longrightarrow> \<exists>a s'. claim s sz = Some (a, s')"
    and claim_law: "inv s \<Longrightarrow> ok sz \<Longrightarrow> claim s sz = Some (a, s') \<Longrightarrow>
      inv s' \<and> (if a = 0 then used s' = used s
        else fits s' a sz \<and> extent a sz \<inter> used s = {} \<and> used s' = used s \<union> extent a sz)"
    and claim_fits: "inv s \<Longrightarrow> ok sz \<Longrightarrow> claim s sz = Some (a, s') \<Longrightarrow> fits s b tz \<Longrightarrow> fits s' b tz"
    and release_law: "inv s \<Longrightarrow> ok sz \<Longrightarrow> fits s a sz \<Longrightarrow>
      inv (release s sz a) \<and> used (release s sz a) = used s - extent a sz"
    and release_fits: "fits s b tz \<Longrightarrow> fits (release s sz a) b tz"
    and extent_nonempty: "ok sz \<Longrightarrow> extent a sz \<noteq> {}"
begin

lemma claim_release:
  assumes "inv s" "ok sz" "claim s sz = Some (a, s')" "a \<noteq> 0"
  shows "used (release s' sz a) = used s"
  using claim_law [OF assms(1-3)] release_law [of s' sz a] assms(2,4) by auto

definition live :: "nat set \<Rightarrow> 's \<Rightarrow> (nat \<times> nat) set \<Rightarrow> bool" where
  "live base s L \<longleftrightarrow> inv s \<and> (\<forall>(a, sz)\<in>L. ok sz \<and> fits s a sz \<and> extent a sz \<inter> base = {})
     \<and> pairwise (\<lambda>(a, sz) (b, tz). extent a sz \<inter> extent b tz = {}) L
     \<and> used s = base \<union> (\<Union>(a, sz)\<in>L. extent a sz)"

lemma live_claim:
  assumes L: "live base s L" and c: "ok sz" "claim s sz = Some (a, s')" "a \<noteq> 0"
  shows "live base s' (insert (a, sz) L)"
proof -
  have i: "inv s" using L by (simp add: live_def)
  note law = claim_law [OF i c(1,2)] and keep = claim_fits [OF i c(1,2)]
  have new: "extent a sz \<inter> extent b tz = {}" if "(b, tz) \<in> L" for b tz
    using that law c(3) L by (auto simp: live_def)
  have "pairwise (\<lambda>(a, sz) (b, tz). extent a sz \<inter> extent b tz = {}) (insert (a, sz) L)"
    using L new unfolding live_def by (auto simp: pairwise_insert Int_commute)
  then show ?thesis using L law keep c(1,3) unfolding live_def by auto
qed

lemma live_fail:
  assumes "live base s L" "ok sz" "claim s sz = Some (0, s')"
  shows "live base s' L"
  using assms claim_law [of s sz 0 s'] claim_fits [of s sz 0 s'] by (auto simp: live_def)

lemma live_release:
  assumes L: "live base s L" and m: "(a, sz) \<in> L"
  shows "live base (release s sz a) (L - {(a, sz)})"
proof -
  have i: "inv s" "ok sz" "fits s a sz" using L m by (auto simp: live_def)
  have off: "extent a sz \<inter> extent b tz = {}" if "(b, tz) \<in> L - {(a, sz)}" for b tz
    using pairwiseD [of _ L "(a, sz)" "(b, tz)"] L m that by (auto simp: live_def)
  have base: "extent a sz \<inter> base = {}" using L m by (auto simp: live_def)
  have "(\<Union>(b, tz)\<in>L. extent b tz) = extent a sz \<union> (\<Union>(b, tz)\<in>L - {(a, sz)}. extent b tz)"
    using m by auto
  moreover have "extent a sz \<inter> (\<Union>(b, tz)\<in>L - {(a, sz)}. extent b tz) = {}" using off by auto
  moreover have "used s = base \<union> (\<Union>(b, tz)\<in>L. extent b tz)" using L by (simp add: live_def)
  ultimately have "used s - extent a sz = base \<union> (\<Union>(b, tz)\<in>L - {(a, sz)}. extent b tz)"
    using base by auto
  then show ?thesis
    using L release_law [OF i] release_fits unfolding live_def
    by (auto intro: pairwise_subset)
qed

end

definition request_ok :: "nat \<Rightarrow> bool" where
  "request_ok sz \<longleftrightarrow> sz + region_size \<le> 2 ^ 64"

definition block_fits :: "'a region_mgr_scheme \<Rightarrow> nat \<Rightarrow> nat \<Rightarrow> bool" where
  "block_fits k a sz \<longleftrightarrow> a \<noteq> 0 \<and> valid_block a sz
     \<and> pages_of a (region_size_for sz) \<subseteq> {..<512 * num_regions_of k}"

definition block_extent :: "nat \<Rightarrow> nat \<Rightarrow> nat set" where
  "block_extent a sz = pages_of a (region_size_for sz)"

lemma valid_block_page:
  assumes "valid_block a sz" "a \<noteq> 0"
  shows "page_size \<le> a"
proof (cases "a div region_size = 0")
  case True
  then have "a mod region_size = a" by (simp add: div_eq_0_iff)
  then show ?thesis using assms by (auto simp: valid_block_def nearest_def block_sizes size_consts split: if_splits)
next
  case False
  then have "region_size \<le> a" by (simp add: div_eq_0_iff)
  then show ?thesis by (simp add: size_consts)
qed

lemma release_low_reserved:
  assumes "region_inv k" "block_fits k a sz" "request_ok sz"
  shows "region_inv (release_region k sz a)"
proof -
  have "page_size \<le> a" using assms(2) by (intro valid_block_page) (auto simp: block_fits_def)
  then have "0 < a div page_size" by (simp add: div_greater_zero_iff)
  then have "0 \<notin> pages_of a (region_size_for sz)" by (simp add: pages_of_def)
  then show ?thesis using assms release_used [of k a sz]
    by (auto simp: region_inv_def low_reserved_def block_fits_def request_ok_def)
qed

interpretation rp: region_provider region_inv used_pages find_and_claim release_region block_extent
  request_ok block_fits
proof unfold_locales
  fix s :: "'a region_mgr_scheme" and sz a b tz s'
  show "\<exists>a s'. find_and_claim s sz = Some (a, s')" if "region_inv s" "request_ok sz"
    using find_and_claim_spec [OF that(1), of sz] that(2) unfolding request_ok_def by blast
  show "region_inv s' \<and> (if a = 0 then used_pages s' = used_pages s
        else block_fits s' a sz \<and> block_extent a sz \<inter> used_pages s = {}
          \<and> used_pages s' = used_pages s \<union> block_extent a sz)"
    if "region_inv s" "request_ok sz" "find_and_claim s sz = Some (a, s')"
    using find_and_claim_spec [OF that(1), of sz] that(2,3)
    by (auto simp: request_ok_def search_post_def block_fits_def block_extent_def used_pages_def
        page_used_def get_status_def)
  show "block_fits s' b tz"
    if "region_inv s" "request_ok sz" "find_and_claim s sz = Some (a, s')" "block_fits s b tz"
    using find_and_claim_spec [OF that(1), of sz] that(2-4)
    by (auto simp: request_ok_def search_post_def block_fits_def)
  show "region_inv (release_region s sz a)
      \<and> used_pages (release_region s sz a) = used_pages s - block_extent a sz"
    if "region_inv s" "request_ok sz" "block_fits s a sz"
    using release_low_reserved [OF that(1,3,2)] release_used [of s a sz] that
    by (auto simp: request_ok_def block_fits_def block_extent_def region_inv_def)
  show "block_fits (release_region s sz a) b tz" if "block_fits s b tz"
    using that by (simp add: block_fits_def)
  show "block_extent a sz \<noteq> {}" if "request_ok sz"
    using div_le_mono [OF block_pages_pos, of sz page_size] that
    by (simp add: block_extent_def pages_of_def request_ok_def)
qed

lemma valid_block_aligned:
  assumes "valid_block a sz" "sz + region_size \<le> 2 ^ 64"
  shows "a mod min (region_size_for sz) region_size = 0"
proof (cases "sz > S256")
  case True
  have "0 < div_round_up sz region_size" using True by (intro div_round_up_pos) simp_all
  then have "region_size \<le> region_size_for sz" using region_size_for_large [OF True assms(2)] by simp
  then show ?thesis using assms(1) True by (simp add: valid_block_def min_absorb2)
next
  case False
  then have sz: "sz \<le> S256" by simp
  have d: "nearest sz dvd region_size" "nearest sz \<le> region_size"
    using sz by (rule nearest_cases; simp add: block_sizes size_consts)+
  have "nearest sz dvd a mod region_size"
    using assms(1) False by (auto simp: valid_block_def)
  then have "nearest sz dvd a" using d(1) by (simp add: dvd_mod_iff)
  then show ?thesis using d(2) by (simp add: region_size_for_small [OF sz] min_absorb1)
qed

subsection \<open>Interleavings of claims and releases\<close>

text \<open>
  Any sequence of calls the kernel makes on stage 1: successful and failed claims, releases of live
  blocks, and the watermark updates of the callers.
\<close>

inductive region_trace ::
  "'a region_mgr_scheme \<Rightarrow> 'a region_mgr_scheme \<Rightarrow> (nat \<times> nat) set \<Rightarrow> bool"
  for k0 :: "'a region_mgr_scheme" where
  start: "region_trace k0 k0 {}"
| claim: "region_trace k0 k L \<Longrightarrow> request_ok sz \<Longrightarrow> find_and_claim k sz = Some (a, k') \<Longrightarrow> a \<noteq> 0
    \<Longrightarrow> region_trace k0 k' (insert (a, sz) L)"
| fail: "region_trace k0 k L \<Longrightarrow> request_ok sz \<Longrightarrow> find_and_claim k sz = Some (0, k')
    \<Longrightarrow> region_trace k0 k' L"
| release: "region_trace k0 k L \<Longrightarrow> (a, sz) \<in> L
    \<Longrightarrow> region_trace k0 (release_region k sz a) (L - {(a, sz)})"
| move: "region_trace k0 k L \<Longrightarrow> up_to_nearest w region_size < 2 ^ 62
    \<Longrightarrow> region_trace k0 (k\<lparr>watermark := w\<rparr>) L"

lemma live_move:
  "rp.live base k L \<Longrightarrow> up_to_nearest w region_size < 2 ^ 62 \<Longrightarrow> rp.live base (k\<lparr>watermark := w\<rparr>) L"
  by (auto simp: rp.live_def region_inv_def region_wf_def block_fits_def)

lemma region_trace_live_state:
  "region_trace k0 k L \<Longrightarrow> region_inv k0 \<Longrightarrow> rp.live (used_pages k0) k L"
proof (induction rule: region_trace.induct)
  case start
  then show ?case by (simp add: rp.live_def)
qed (auto intro: rp.live_claim rp.live_fail rp.live_release live_move)

text \<open>
  C1. Memory safety of stage 1: along every interleaving of claims, failed claims, releases and
  watermark moves the live blocks are pairwise disjoint, none touches a page that was reserved at the
  start, and the pages marked used are exactly the reserved ones and those of the live blocks.
\<close>

theorem region_trace_safe:
  assumes "region_inv k0" "region_trace k0 k L"
  shows "pairwise (\<lambda>(a, sz) (b, tz). block_extent a sz \<inter> block_extent b tz = {}) L
    \<and> (\<forall>(a, sz)\<in>L. block_extent a sz \<inter> used_pages k0 = {})
    \<and> used_pages k = used_pages k0 \<union> (\<Union>(a, sz)\<in>L. block_extent a sz)"
  using region_trace_live_state [OF assms(2,1)] by (auto simp: rp.live_def)

text \<open>A one-gigabyte machine whose first two regions are reserved.\<close>

definition tiny_mgr :: region_mgr where
  "tiny_mgr = \<lparr>status_bytes = [0xFF # 0xFF # replicate 510 0], num_status_bytes = 1,
     kernel_heap_begin = 4190208, watermark = 4190208\<rparr>"

lemma small_scan_numeral [simp]:
  "small_scan (numeral n) k bs a =
     (if gb_of a < num_status_bytes k then
        (if has_free_size (get_status k a) bs then Some (Some a)
         else small_scan (pred_numeral n) k bs (u64_add a region_size))
      else Some None)"
  by (simp add: numeral_eq_Suc)

lemmas search_eval = find_and_claim.simps search_pass_def scan_fuel_def claim_region_def Let_def
  up_to_nearest_def div_round_up_def u64_add_def u64_mul_def gb_of_def sb_of_def get_status_def
  put_status_def nearest_def block_sizes size_consts has_free_size_def has_free_def bs2bi_def
  claim_idx_def block_offset_def ramp_shift_def block_pos reset_point_def

lemma tiny_mgr_inv: "region_inv tiny_mgr"
proof -
  have "up_to_nearest 4190208 region_size = 4194304"
    by (simp add: up_to_nearest_def div_round_up_def u64_mul_def size_consts)
  moreover have "list_all (\<lambda>g. length g = 512) (status_bytes tiny_mgr)"
    by (simp add: tiny_mgr_def)
  moreover have "page_used tiny_mgr 0"
    by (simp add: page_used_def get_status_def tiny_mgr_def gb_of_def sb_of_def)
  ultimately show ?thesis
    by (simp add: region_inv_def region_wf_def tiny_mgr_def low_reserved_def used_pages_def size_consts)
qed

theorem region_trace_safe_witness:
  "\<exists>k. find_and_claim tiny_mgr 20000 = Some (4227072, k)
    \<and> used_pages k = used_pages tiny_mgr \<union> (\<Union>(a, sz)\<in>{(4227072, 20000)}. block_extent a sz)"
proof -
  have f: "fst (the (find_and_claim tiny_mgr 20000)) = 4227072"
    "find_and_claim tiny_mgr 20000 \<noteq> None"
    by (simp_all add: tiny_mgr_def search_eval)
  then obtain k where k: "find_and_claim tiny_mgr 20000 = Some (4227072, k)" by auto
  have "region_trace tiny_mgr k {(4227072, 20000)}"
    by (rule region_trace.claim [OF region_trace.start _ k]) (simp_all add: request_ok_def size_consts)
  from region_trace_safe [OF tiny_mgr_inv this] k show ?thesis by blast
qed





end
