(* ===== verification/Page_Tables.thy ===== *)
theory Page_Tables
  imports Region_Alloc
begin

text \<open>
  The paging state of \<open>kernel_memory_mgr\<close> and the operations that only read or clear page tables:
  the table walk, address translation, unmapping, the switch between a user frame and the kernel's
  tables that \<open>__lock\<close> and \<open>__unlock\<close> perform, and the two stage-1 entry points built on them.
  Page tables are a typed store: \<open>ptables h t i\<close> is entry \<open>i\<close> of the table at physical address \<open>t\<close>.
  The spinlocks themselves are not state of the model: the entry points run with interrupts off on one
  processor.
\<close>

subsection \<open>State\<close>

record block_descriptor =
  physical_start :: addr
  virtual_start :: addr
  bd_size :: nat
  bd_align :: nat
  bd_write :: bool
  bd_execute :: bool

record uframe_tag =
  pml4 :: addr
  uf_base :: addr
  uf_extent :: addr
  mapped_max :: addr
  sysres_wm :: addr
  sysres_extent :: addr
  dynamic_extent :: addr
  page_table_blocks :: "addr list"
  usr_blocks :: "block_descriptor list"
  shared_blocks :: "addr list"

definition sysres_base :: addr where
  "sysres_base = 0xFFFF800000000000"

definition new_uframe :: "addr \<Rightarrow> addr \<Rightarrow> addr \<Rightarrow> uframe_tag" where
  "new_uframe cr3v st_base st_extent = \<lparr>pml4 = cr3v, uf_base = st_base, uf_extent = st_extent,
     mapped_max = st_extent, sysres_wm = sysres_base, sysres_extent = sysres_base,
     dynamic_extent = 0, page_table_blocks = [], usr_blocks = [], shared_blocks = []\<rparr>"

record paging_mgr = region_mgr +
  ptables :: "addr \<Rightarrow> nat \<Rightarrow> pt_entry"
  cr3 :: addr
  kernel_cr3 :: addr
  suspended_cr3 :: addr
  active_frame :: addr
  frames :: "addr \<Rightarrow> uframe_tag"

text \<open>\<open>enter_frame\<close> and \<open>exit_frame\<close>; a frame pointer of 0 is the null pointer.\<close>

definition enter_frame :: "addr \<Rightarrow> 'a paging_mgr_scheme \<Rightarrow> 'a paging_mgr_scheme" where
  "enter_frame ft h = h\<lparr>active_frame := ft\<rparr>"

definition exit_frame :: "'a paging_mgr_scheme \<Rightarrow> 'a paging_mgr_scheme" where
  "exit_frame h = h\<lparr>active_frame := 0\<rparr>"

text \<open>The table root an operation on the active frame works on, with the fallback the caller names.\<close>

definition active_pml4 :: "'a paging_mgr_scheme \<Rightarrow> addr \<Rightarrow> addr" where
  "active_pml4 h fallback = (if active_frame h \<noteq> 0 then pml4 (frames h (active_frame h)) else fallback)"

definition suspend_frame :: "'a paging_mgr_scheme \<Rightarrow> 'a paging_mgr_scheme" where
  "suspend_frame h =
     (if cr3 h = kernel_cr3 h then h else h\<lparr>suspended_cr3 := cr3 h, cr3 := kernel_cr3 h\<rparr>)"

definition resume_frame :: "'a paging_mgr_scheme \<Rightarrow> 'a paging_mgr_scheme" where
  "resume_frame h =
     (if suspended_cr3 h = 0 then h else h\<lparr>cr3 := suspended_cr3 h, suspended_cr3 := 0\<rparr>)"

definition kmm_lock :: "'a paging_mgr_scheme \<Rightarrow> 'a paging_mgr_scheme" where
  "kmm_lock h = suspend_frame h"

definition kmm_unlock :: "'a paging_mgr_scheme \<Rightarrow> 'a paging_mgr_scheme" where
  "kmm_unlock h = resume_frame h"

subsection \<open>The table walk and translation\<close>

definition pte_target :: "pt_entry \<Rightarrow> addr" where
  "pte_target e = physical_address e * 2 ^ 12"

definition find_table :: "'a paging_mgr_scheme \<Rightarrow> addr \<Rightarrow> addr \<Rightarrow> addr" where
  "find_table h of_page pm =
     (let e4 = ptables h pm (pml4_idx of_page) in
      if present e4 then
        (let e3 = ptables h (pte_target e4) (pdp_idx of_page) in
         if present e3 then
           (let e2 = ptables h (pte_target e3) (pd_idx of_page) in
            if present e2 then pte_target e2 else 0)
         else 0)
      else 0)"

definition frame_translate :: "'a paging_mgr_scheme \<Rightarrow> addr \<Rightarrow> addr" where
  "frame_translate h a =
     (let pt = find_table h a (active_pml4 h (kernel_cr3 h)); e = ptables h pt (page_idx a) in
      if pt \<noteq> 0 \<and> present e \<and> physical_address e \<noteq> 0 then pte_target e + addr_offset a else 0)"

definition translate_vaddr :: "'a paging_mgr_scheme \<Rightarrow> addr \<Rightarrow> addr" where
  "translate_vaddr h a =
     (let pt = find_table h a (cr3 h) in
      if pt \<noteq> 0 then pte_target (ptables h pt (page_idx a)) + addr_offset a else 0)"

definition uframe_translate :: "'a paging_mgr_scheme \<Rightarrow> addr \<Rightarrow> addr \<Rightarrow> addr \<times> 'a paging_mgr_scheme" where
  "uframe_translate h ft a =
     (let h1 = enter_frame ft h; result = frame_translate h1 a in (result, exit_frame h1))"

subsection \<open>Writing entries\<close>

definition put_pte :: "addr \<Rightarrow> nat \<Rightarrow> pt_entry \<Rightarrow> 'a paging_mgr_scheme \<Rightarrow> 'a paging_mgr_scheme" where
  "put_pte t i e h = h\<lparr>ptables := (ptables h)(t := (ptables h t)(i := e))\<rparr>"

fun unmap_loop ::
  "nat \<Rightarrow> addr \<Rightarrow> addr \<Rightarrow> addr \<Rightarrow> 'a paging_mgr_scheme \<Rightarrow> 'a paging_mgr_scheme" where
  "unmap_loop 0 cur pt pm h = h"
| "unmap_loop (Suc n) cur pt pm h =
     (let pt' = (if pt = 0 \<or> page_idx cur = 0 then find_table h cur pm else pt);
          h' = (if pt' \<noteq> 0 \<and> \<not> global (ptables h pt' (page_idx cur))
                then put_pte pt' (page_idx cur) zero_entry h else h)
      in unmap_loop n (addr_plus cur page_size) pt' pm h')"

definition unmap_pages :: "'a paging_mgr_scheme \<Rightarrow> addr \<Rightarrow> nat \<Rightarrow> addr \<Rightarrow> 'a paging_mgr_scheme" where
  "unmap_pages h start pages pm =
     (if start \<noteq> 0 \<and> pages \<noteq> 0 then unmap_loop pages start 0 pm h else h)"

subsection \<open>Stage-1 entry points\<close>

text \<open>The address handed out is one block tag (64 bytes) below the claimed block.\<close>

definition allocate_kernel_block ::
  "'a paging_mgr_scheme \<Rightarrow> nat \<Rightarrow> (addr \<times> 'a paging_mgr_scheme) option" where
  "allocate_kernel_block h sz =
     (case find_and_claim (kmm_lock h) sz of
        None \<Rightarrow> None
      | Some (a, h') \<Rightarrow>
          (let result = u64_sub a 64
           in Some (result, kmm_unlock (h'\<lparr>watermark := max result (watermark h')\<rparr>))))"

definition deallocate_block ::
  "'a paging_mgr_scheme \<Rightarrow> addr \<Rightarrow> nat \<Rightarrow> bool \<Rightarrow> 'a paging_mgr_scheme" where
  "deallocate_block h base sz should_unmap =
     (let base' = page_aligned (addr_plus base 64); phys = frame_translate h base';
          pm = active_pml4 h 0 in
      if phys = 0 then h
      else
        (let h1 = release_region (kmm_lock h) sz phys;
             h2 = (if should_unmap \<and> active_frame h1 \<noteq> 0
                   then unmap_pages h1 base' (div_round_up sz page_size) pm else h1)
         in kmm_unlock (h2\<lparr>watermark := min phys (watermark h2)\<rparr>)))"

subsection \<open>Locking and exhaustion\<close>

lemma kmm_lock_region [simp]:
  "region_inv (kmm_lock h) = region_inv h" "num_status_bytes (kmm_lock h) = num_status_bytes h"
  by (simp_all add: kmm_lock_def suspend_frame_def region_inv_def region_wf_def low_reserved_def
      used_pages_def page_used_def get_status_def)


definition tiny_paging :: paging_mgr where
  "tiny_paging = \<lparr>status_bytes = status_bytes tiny_mgr, num_status_bytes = 1,
     kernel_heap_begin = 4190208, watermark = 4190208, ptables = (\<lambda>_ _. zero_entry), cr3 = 0x1000,
     kernel_cr3 = 0x1000, suspended_cr3 = 0, active_frame = 0, frames = (\<lambda>_. new_uframe 0 0 0)\<rparr>"

lemma tiny_paging_inv: "region_inv tiny_paging"
  using tiny_mgr_inv
  by (simp add: region_inv_def region_wf_def tiny_paging_def tiny_mgr_def low_reserved_def
      used_pages_def page_used_def get_status_def)


text \<open>
  The switch to the kernel page tables is not reentrant: when a user frame is already suspended, as
  the interrupt entry points arrange, one lock/unlock pair of the memory manager puts the user's tables
  back.  Without a suspended frame the pair leaves the table root unchanged.
\<close>

theorem kmm_lock_unlock_root:
  assumes "cr3 h \<noteq> 0"
  shows "cr3 (kmm_unlock (kmm_lock h)) =
    (if cr3 h = kernel_cr3 h \<and> suspended_cr3 h \<noteq> 0 then suspended_cr3 h else cr3 h)"
  using assms by (simp add: kmm_lock_def kmm_unlock_def suspend_frame_def resume_frame_def)

theorem kmm_lock_unlock_root_witness:
  "cr3 (kmm_unlock (kmm_lock (tiny_paging\<lparr>suspended_cr3 := 0x7000\<rparr>))) = 0x7000"
  using kmm_lock_unlock_root [of "tiny_paging\<lparr>suspended_cr3 := 0x7000\<rparr>"]
  by (simp add: tiny_paging_def)

end
