(* ===== verification/Block_Tags.thy ===== *)
theory Block_Tags
  imports Page_Tables
begin

text \<open>
  Stage 2 of the kernel allocator: the tag allocator \<open>kframe_tag\<close> (\<open>kernel/mm/kernel_mm.cpp\<close> 566--759
  and \<open>common/include/kernel/kernel_mm.hpp\<close> 54--126).  Block tags live in a store indexed by address;
  \<open>left_split\<close>/\<open>right_split\<close> chain the neighbours of a split region and \<open>previous\<close>/\<open>next\<close> the free
  blocks of one bin.  An address without a tag reads as zeroed memory.  Loops along those pointers
  carry fuel.  The contents of allocated memory are a byte store of their own.
\<close>

subsection \<open>Tags\<close>

definition block_magic :: nat where
  "block_magic = 0xB1600FBA615F"

definition bt_offset :: nat where
  "bt_offset = 64"

definition min_block_size :: nat where
  "min_block_size = 256"

definition block_index_range :: nat where
  "block_index_range = 24"

definition max_block_index :: nat where
  "max_block_index = block_index_range - 1"

definition max_block_size :: nat where
  "max_block_size = 2 ^ max_block_index"

definition region_cap :: nat where
  "region_cap = 5"

record block_tag =
  magic :: nat
  block_size :: nat
  held_size :: nat
  left_split :: addr
  right_split :: addr
  previous_tag :: addr
  next_tag :: addr
  tag_index :: int
  align_bytes :: nat

definition zero_tag :: block_tag where
  "zero_tag = \<lparr>magic = 0, block_size = 0, held_size = 0, left_split = 0, right_split = 0,
     previous_tag = 0, next_tag = 0, tag_index = 0, align_bytes = 0\<rparr>"

definition new_tag :: "nat \<Rightarrow> nat \<Rightarrow> int \<Rightarrow> addr \<Rightarrow> addr \<Rightarrow> nat \<Rightarrow> block_tag" where
  "new_tag sz held idx lft rgt algn = \<lparr>magic = block_magic, block_size = sz, held_size = held,
     left_split = lft, right_split = rgt, previous_tag = 0, next_tag = 0, tag_index = idx,
     align_bytes = algn\<rparr>"

definition allocated_size :: "block_tag \<Rightarrow> nat" where
  "allocated_size t = u64_sub (block_size t) bt_offset"

definition available_size :: "block_tag \<Rightarrow> nat" where
  "available_size t = u64_sub (allocated_size t) (u64_add (held_size t) (align_bytes t))"

definition actual_start :: "addr \<Rightarrow> block_tag \<Rightarrow> addr" where
  "actual_start p t = addr_plus p (bt_offset + align_bytes t)"

definition is_free :: "block_tag \<Rightarrow> bool" where
  "is_free t = (tag_index t \<ge> 0 \<and> held_size t = 0)"

definition is_split :: "block_tag \<Rightarrow> bool" where
  "is_split t = (left_split t \<noteq> 0 \<or> right_split t \<noteq> 0)"

definition calculate_block_index :: "nat \<Rightarrow> nat" where
  "calculate_block_index sz =
     (if sz < min_block_size then 0 else if sz > max_block_size then max_block_index
      else (64 - clzl sz) - 8)"

definition add_align_size :: "addr \<Rightarrow> nat \<Rightarrow> nat" where
  "add_align_size tag align =
     (if align > 1
      then u64_sub (up_to_nearest (addr_plus tag bt_offset) align) (addr_plus tag bt_offset)
      else 0) mod 2 ^ 32"

subsection \<open>State\<close>

record heap_mgr = paging_mgr +
  tags :: "addr \<Rightarrow> block_tag option"
  complete_regions :: "nat list"
  available_blocks :: "addr list"
  remaining_memory :: nat
  total_memory :: nat
  bytes :: "addr \<Rightarrow> u8"

definition tag_at :: "'a heap_mgr_scheme \<Rightarrow> addr \<Rightarrow> block_tag" where
  "tag_at h p = (case tags h p of Some t \<Rightarrow> t | None \<Rightarrow> zero_tag)"

definition put_tag :: "addr \<Rightarrow> block_tag \<Rightarrow> 'a heap_mgr_scheme \<Rightarrow> 'a heap_mgr_scheme" where
  "put_tag p t h = h\<lparr>tags := (tags h)(p := Some t)\<rparr>"

definition upd_tag ::
  "addr \<Rightarrow> (block_tag \<Rightarrow> block_tag) \<Rightarrow> 'a heap_mgr_scheme \<Rightarrow> 'a heap_mgr_scheme" where
  "upd_tag p f h = put_tag p (f (tag_at h p)) h"

text \<open>
  The bin heads.  A tag outside every bin has index $-1$, and the code then reads the eight bytes in
  front of \<open>available_blocks\<close>, which are the last four 16-bit counters of \<open>complete_regions\<close>.
\<close>

definition bin_head :: "'a heap_mgr_scheme \<Rightarrow> int \<Rightarrow> addr" where
  "bin_head h i =
     (if i = -1 then complete_regions h ! 20 + 2 ^ 16 * complete_regions h ! 21
        + 2 ^ 32 * complete_regions h ! 22 + 2 ^ 48 * complete_regions h ! 23
      else available_blocks h ! nat i)"

definition set_bin_head :: "int \<Rightarrow> addr \<Rightarrow> 'a heap_mgr_scheme \<Rightarrow> 'a heap_mgr_scheme" where
  "set_bin_head i p h =
     (if i = -1 then h\<lparr>complete_regions := (complete_regions h)[20 := p mod 2 ^ 16,
         21 := p div 2 ^ 16 mod 2 ^ 16, 22 := p div 2 ^ 32 mod 2 ^ 16, 23 := p div 2 ^ 48 mod 2 ^ 16]\<rparr>
      else h\<lparr>available_blocks := (available_blocks h)[nat i := p]\<rparr>)"

definition bump_complete :: "nat \<Rightarrow> 'a heap_mgr_scheme \<Rightarrow> 'a heap_mgr_scheme" where
  "bump_complete i h = h\<lparr>complete_regions :=
     (complete_regions h)[i := (complete_regions h ! i + 1) mod 2 ^ 16]\<rparr>"

definition drop_complete :: "nat \<Rightarrow> 'a heap_mgr_scheme \<Rightarrow> 'a heap_mgr_scheme" where
  "drop_complete i h = h\<lparr>complete_regions :=
     (complete_regions h)[i := (complete_regions h ! i + (2 ^ 16 - 1)) mod 2 ^ 16]\<rparr>"

subsection \<open>Bins\<close>

definition insert_block :: "addr \<Rightarrow> int \<Rightarrow> 'a heap_mgr_scheme \<Rightarrow> 'a heap_mgr_scheme" where
  "insert_block blk idx h =
     (let i = (if idx < 0 then int (calculate_block_index (block_size (tag_at h blk))) else idx);
          h1 = upd_tag blk (\<lambda>t. t\<lparr>tag_index := i\<rparr>) h in
      if previous_tag (tag_at h1 blk) \<noteq> 0 \<or> next_tag (tag_at h1 blk) \<noteq> 0 then h1
      else
        (let hd0 = bin_head h1 i;
             h2 = (if hd0 \<noteq> 0 \<and> blk \<noteq> hd0
                   then upd_tag blk (\<lambda>t. t\<lparr>next_tag := hd0\<rparr>)
                          (upd_tag hd0 (\<lambda>t. t\<lparr>previous_tag := blk\<rparr>) h1)
                   else h1)
         in set_bin_head i blk h2))"

definition remove_block :: "addr \<Rightarrow> 'a heap_mgr_scheme \<Rightarrow> 'a heap_mgr_scheme" where
  "remove_block blk h =
     (let t = tag_at h blk;
          h1 = (if bin_head h (tag_index t) = blk then set_bin_head (tag_index t) (next_tag t) h
                else if previous_tag t \<noteq> 0
                then upd_tag (previous_tag t) (\<lambda>p. p\<lparr>next_tag := next_tag t\<rparr>) h else h);
          t1 = tag_at h1 blk;
          h2 = (if next_tag t1 \<noteq> 0
                then upd_tag (next_tag t1) (\<lambda>n. n\<lparr>previous_tag := previous_tag t1\<rparr>) h1 else h1)
      in upd_tag blk (\<lambda>t. t\<lparr>next_tag := 0, previous_tag := 0, tag_index := -1\<rparr>) h2)"

subsection \<open>Splitting and melting\<close>

definition split_tag :: "addr \<Rightarrow> 'a heap_mgr_scheme \<Rightarrow> addr \<times> 'a heap_mgr_scheme" where
  "split_tag p h =
     (let t = tag_at h p;
          q = addr_plus (actual_start p t) (held_size t);
          nt = new_tag (available_size t) 0 (-1) p (right_split t) 0;
          h1 = put_tag q nt h;
          h2 = (if right_split nt \<noteq> 0
                then upd_tag (right_split nt) (\<lambda>r. r\<lparr>left_split := q\<rparr>) h1 else h1);
          h3 = upd_tag p (\<lambda>t. t\<lparr>right_split := q, block_size := u64_sub (block_size t) (block_size nt)\<rparr>) h2
      in (q, h3))"

definition melt_left :: "addr \<Rightarrow> 'a heap_mgr_scheme \<Rightarrow> addr \<times> 'a heap_mgr_scheme" where
  "melt_left tag h =
     (let t = tag_at h tag; left = left_split t;
          h1 = upd_tag left (\<lambda>l. l\<lparr>block_size := u64_add (block_size l) (block_size t),
                 right_split := right_split t\<rparr>) h;
          h2 = (if right_split t \<noteq> 0
                then upd_tag (right_split t) (\<lambda>r. r\<lparr>left_split := left\<rparr>) h1 else h1)
      in (left, remove_block tag h2))"

definition melt_right :: "addr \<Rightarrow> 'a heap_mgr_scheme \<Rightarrow> addr \<times> 'a heap_mgr_scheme" where
  "melt_right tag h =
     (let right = right_split (tag_at h tag);
          h1 = remove_block right h; r = tag_at h1 right;
          h2 = upd_tag tag (\<lambda>t. t\<lparr>block_size := u64_add (block_size t) (block_size r),
                 right_split := right_split r\<rparr>) h1;
          h3 = (if right_split r \<noteq> 0
                then upd_tag (right_split r) (\<lambda>x. x\<lparr>left_split := tag\<rparr>) h2 else h2)
      in (tag, h3))"

subsection \<open>Allocating\<close>

definition create_tag ::
  "nat \<Rightarrow> nat \<Rightarrow> 'a heap_mgr_scheme \<Rightarrow> (addr \<times> 'a heap_mgr_scheme) option" where
  "create_tag sz align h =
     (let actual_size = u64_add (max (u64_add sz bt_offset) align) align in
      case allocate_kernel_block h actual_size of
        None \<Rightarrow> None
      | Some (allocated, h1) \<Rightarrow>
          (if allocated = 0 then Some (0, h1)
           else Some (allocated, put_tag allocated
             (new_tag (region_size_for actual_size) sz (-1) 0 0 (add_align_size allocated align)) h1)))"

text \<open>The repairs \<open>get_for_allocation\<close> makes on a tag it visits.\<close>

definition repair_tag :: "addr \<Rightarrow> block_tag \<Rightarrow> block_tag" where
  "repair_tag p t =
     (let t1 = (if next_tag t = p then t\<lparr>next_tag := 0\<rparr> else t);
          t2 = (if previous_tag t1 = p then t1\<lparr>previous_tag := 0\<rparr> else t1)
      in t2\<lparr>magic := block_magic\<rparr>)"

text \<open>The walk along a bin; \<open>None\<close> is exhausted fuel and address 0 means that no block of the bin fits.\<close>

fun scan_bin ::
  "nat \<Rightarrow> nat \<Rightarrow> nat \<Rightarrow> nat \<Rightarrow> addr \<Rightarrow> 'a heap_mgr_scheme \<Rightarrow> (addr \<times> 'a heap_mgr_scheme) option" where
  "scan_bin 0 idx sz align tag h = None"
| "scan_bin (Suc f) idx sz align tag h =
     (if tag = 0 then Some (0, h)
      else
        (let h1 = upd_tag tag (repair_tag tag) h;
             align_add = add_align_size tag align in
         if available_size (tag_at h1 tag) \<ge> u64_add sz align_add then
           (let h2 = upd_tag tag (\<lambda>t. t\<lparr>held_size := sz, align_bytes := align_add\<rparr>) (remove_block tag h1);
                t = tag_at h2 tag
            in Some (tag, if left_split t = 0 \<and> right_split t = 0 then drop_complete idx h2 else h2))
         else scan_bin f idx sz align (next_tag (tag_at h1 tag)) h1))"

definition get_for_allocation ::
  "nat \<Rightarrow> nat \<Rightarrow> nat \<Rightarrow> 'a heap_mgr_scheme \<Rightarrow> (addr \<times> 'a heap_mgr_scheme) option" where
  "get_for_allocation f sz0 align h =
     (let sz = max sz0 16; idx = calculate_block_index sz in
      case scan_bin f idx sz align (bin_head h (int idx)) h of
        None \<Rightarrow> None
      | Some (found, h1) \<Rightarrow>
          (case (if found = 0 then create_tag sz align h1 else Some (found, h1)) of
             None \<Rightarrow> None
           | Some (tag, h2) \<Rightarrow>
               (if tag = 0 then Some (0, h2)
                else
                  (let h3 = (if available_size (tag_at h2 tag) \<ge> min_block_size + bt_offset
                             then (case split_tag tag h2 of (q, h') \<Rightarrow> insert_block q (-1) h')
                             else h2)
                   in Some (tag, h3\<lparr>remaining_memory :=
                        u64_sub (remaining_memory h3) (block_size (tag_at h3 tag))\<rparr>)))))"

definition allocate ::
  "nat \<Rightarrow> nat \<Rightarrow> nat \<Rightarrow> 'a heap_mgr_scheme \<Rightarrow> (addr \<times> 'a heap_mgr_scheme) option" where
  "allocate f sz align h =
     (if sz = 0 then Some (0, h)
      else case get_for_allocation f sz align h of
        None \<Rightarrow> None
      | Some (tag, h1) \<Rightarrow> Some (if tag = 0 then 0 else actual_start tag (tag_at h1 tag), h1))"

subsection \<open>Releasing\<close>

fun melt_left_loop ::
  "nat \<Rightarrow> addr \<Rightarrow> 'a heap_mgr_scheme \<Rightarrow> (addr \<times> 'a heap_mgr_scheme) option" where
  "melt_left_loop 0 tag h = None"
| "melt_left_loop (Suc f) tag h =
     (let l = left_split (tag_at h tag) in
      if l \<noteq> 0 \<and> is_free (tag_at h l) then (case melt_left tag h of (tag', h') \<Rightarrow> melt_left_loop f tag' h')
      else Some (tag, h))"

fun melt_right_loop ::
  "nat \<Rightarrow> addr \<Rightarrow> 'a heap_mgr_scheme \<Rightarrow> (addr \<times> 'a heap_mgr_scheme) option" where
  "melt_right_loop 0 tag h = None"
| "melt_right_loop (Suc f) tag h =
     (let r = right_split (tag_at h tag) in
      if r \<noteq> 0 \<and> is_free (tag_at h r) then (case melt_right tag h of (tag', h') \<Rightarrow> melt_right_loop f tag' h')
      else Some (tag, h))"

definition release_block :: "nat \<Rightarrow> addr \<Rightarrow> 'a heap_mgr_scheme \<Rightarrow> 'a heap_mgr_scheme option" where
  "release_block f tag h =
     (if is_free (tag_at h tag) then Some h
      else
        (let h1 = upd_tag tag (\<lambda>t. t\<lparr>held_size := 0, align_bytes := 0\<rparr>) h;
             h2 = h1\<lparr>remaining_memory := u64_add (remaining_memory h1) (block_size (tag_at h1 tag))\<rparr> in
         case melt_left_loop f tag h2 of
           None \<Rightarrow> None
         | Some (tag1, h3) \<Rightarrow>
             (case melt_right_loop f tag1 h3 of
                None \<Rightarrow> None
              | Some (tag2, h4) \<Rightarrow>
                  (let t = tag_at h4 tag2; idx = calculate_block_index (allocated_size t) in
                   if is_split t \<or> complete_regions h4 ! idx < region_cap
                   then Some (insert_block tag2 (int idx)
                          (if is_split t then h4 else bump_complete idx h4))
                   else Some (deallocate_block h4 tag2 (block_size t) False)))))"

fun find_tag_loop :: "'a heap_mgr_scheme \<Rightarrow> nat \<Rightarrow> nat \<Rightarrow> addr \<Rightarrow> addr" where
  "find_tag_loop h align i tag =
     (if tag \<noteq> 0 \<and> magic (tag_at h tag) \<noteq> block_magic \<and> (align = 0 \<or> i < align)
      then find_tag_loop h align (Suc i) (tag - 1) else tag)"

declare find_tag_loop.simps [simp del]

definition find_tag :: "'a heap_mgr_scheme \<Rightarrow> addr \<Rightarrow> nat \<Rightarrow> addr" where
  "find_tag h ptr align =
     (if ptr = 0 then 0
      else
        (let tag = find_tag_loop h align 0 (u64_sub ptr bt_offset);
             tag' = (if tag \<noteq> 0 \<and> magic (tag_at h tag) \<noteq> block_magic then page_aligned ptr else tag)
         in if tag' \<noteq> 0 \<and> magic (tag_at h tag') = block_magic then tag' else 0))"

definition deallocate :: "nat \<Rightarrow> addr \<Rightarrow> nat \<Rightarrow> 'a heap_mgr_scheme \<Rightarrow> 'a heap_mgr_scheme option" where
  "deallocate f ptr align h =
     (if ptr = 0 then Some h
      else (let tag = find_tag h ptr align in if tag = 0 then Some h else release_block f tag h))"

subsection \<open>Reallocation and arrays\<close>

definition copy_bytes :: "addr \<Rightarrow> addr \<Rightarrow> nat \<Rightarrow> 'a heap_mgr_scheme \<Rightarrow> 'a heap_mgr_scheme" where
  "copy_bytes dest src n h = h\<lparr>bytes := (\<lambda>a. if dest \<le> a \<and> a < dest + n then bytes h (src + (a - dest))
     else bytes h a)\<rparr>"

definition zero_bytes :: "addr \<Rightarrow> nat \<Rightarrow> 'a heap_mgr_scheme \<Rightarrow> 'a heap_mgr_scheme" where
  "zero_bytes dest n h = h\<lparr>bytes := (\<lambda>a. if dest \<le> a \<and> a < dest + n then 0 else bytes h a)\<rparr>"

definition reallocate ::
  "nat \<Rightarrow> addr \<Rightarrow> nat \<Rightarrow> nat \<Rightarrow> 'a heap_mgr_scheme \<Rightarrow> (addr \<times> 'a heap_mgr_scheme) option" where
  "reallocate f ptr sz align h =
     (let tag = find_tag h ptr align; t = tag_at h tag in
      if tag = 0 then allocate f sz align h
      else if sz = 0 then map_option (Pair 0) (deallocate f ptr align h)
      else if allocated_size t \<ge> u64_add sz (add_align_size tag align)
      then (let h1 = upd_tag tag (\<lambda>t. t\<lparr>align_bytes := add_align_size tag align, held_size := sz\<rparr>) h
            in Some (actual_start tag (tag_at h1 tag), h1))
      else case allocate f sz align h of
        None \<Rightarrow> None
      | Some (result, h1) \<Rightarrow>
          (let held = held_size (tag_at h1 tag);
               h2 = (if result \<noteq> 0 then copy_bytes result ptr (if held > sz then sz else held) h1 else h1)
           in map_option (Pair result) (deallocate f ptr align h2)))"

definition array_allocate ::
  "nat \<Rightarrow> nat \<Rightarrow> nat \<Rightarrow> 'a heap_mgr_scheme \<Rightarrow> (addr \<times> 'a heap_mgr_scheme) option" where
  "array_allocate f num sz h =
     (case allocate f (u64_mul num sz) sz h of
        None \<Rightarrow> None
      | Some (result, h1) \<Rightarrow>
          Some (result, if result \<noteq> 0 then zero_bytes result (u64_mul num sz) h1 else h1))"

subsection \<open>Bin indices\<close>

lemma bit_len_0 [simp]: "bit_len 0 = 0"
  by (simp add: bit_len.simps)

lemma bit_len_bounds:
  "0 < n \<Longrightarrow> 0 < bit_len n \<and> 2 ^ (bit_len n - 1) \<le> n \<and> n < 2 ^ bit_len n"
proof (induction n rule: bit_len.induct)
  case (1 n)
  have e: "bit_len n = Suc (bit_len (n div 2))" using "1.prems" by (simp add: bit_len.simps [of n])
  show ?case
  proof (cases "n div 2 = 0")
    case True
    then have "n = 1" using "1.prems" by (simp add: div_eq_0_iff)
    then show ?thesis by (simp add: bit_len.simps [of "Suc 0"])
  next
    case False
    then have IH: "2 ^ (bit_len (n div 2) - 1) \<le> n div 2" "n div 2 < 2 ^ bit_len (n div 2)"
      "0 < bit_len (n div 2)" using "1.IH" "1.prems" by auto
    have "2 * 2 ^ (bit_len (n div 2) - 1) = (2 :: nat) ^ bit_len (n div 2)"
      using IH(3) by (simp add: power_eq_if)
    then show ?thesis using IH by (auto simp: e) linarith+
  qed
qed

lemma bit_len_le: "n < 2 ^ k \<Longrightarrow> bit_len n \<le> k"
proof (cases "n = 0")
  case False
  assume "n < 2 ^ k"
  moreover have "2 ^ (bit_len n - 1) \<le> n" "0 < bit_len n" using bit_len_bounds [of n] False by auto
  ultimately have "2 ^ (bit_len n - 1) < (2 :: nat) ^ k" by (meson le_less_trans)
  then have "bit_len n - 1 < k" by (simp only: power_strict_increasing_iff)
  then show ?thesis using \<open>0 < bit_len n\<close> by simp
qed simp

lemmas tag_consts = block_magic_def bt_offset_def min_block_size_def block_index_range_def
  max_block_index_def max_block_size_def region_cap_def

lemma block_index_mid:
  assumes "min_block_size \<le> sz" "sz \<le> max_block_size"
  shows "calculate_block_index sz = bit_len sz - 8" and "9 \<le> bit_len sz" and "bit_len sz \<le> 24"
proof -
  have b: "0 < sz" "sz < 2 ^ 24" "256 \<le> sz" using assms by (simp_all add: tag_consts)
  show l: "bit_len sz \<le> 24" using b(2) by (rule bit_len_le)
  have "(2 :: nat) ^ 8 < 2 ^ bit_len sz" using bit_len_bounds [OF b(1)] b(3) by simp
  then show "9 \<le> bit_len sz" by (subst (asm) power_strict_increasing_iff) auto
  show "calculate_block_index sz = bit_len sz - 8"
    using assms l by (simp add: calculate_block_index_def clzl_def)
qed

lemma block_index_lt [simp]: "calculate_block_index sz < block_index_range"
proof (cases "min_block_size \<le> sz \<and> sz \<le> max_block_size")
  case True
  then show ?thesis using block_index_mid [of sz] by (simp add: tag_consts)
next
  case False
  then show ?thesis by (auto simp: calculate_block_index_def tag_consts)
qed

subsection \<open>Store lemmas\<close>

lemma tag_at_put [simp]: "tag_at (put_tag p t h) q = (if q = p then t else tag_at h q)"
  by (simp add: tag_at_def put_tag_def)

lemma tag_at_upd [simp]: "tag_at (upd_tag p f h) q = (if q = p then f (tag_at h p) else tag_at h q)"
  by (simp add: upd_tag_def)

lemma put_tag_fields [simp]:
  "available_blocks (put_tag p t h) = available_blocks h"
  "complete_regions (put_tag p t h) = complete_regions h"
  "remaining_memory (put_tag p t h) = remaining_memory h"
  "bytes (put_tag p t h) = bytes h"
  "bin_head (put_tag p t h) i = bin_head h i"
  by (simp_all add: put_tag_def bin_head_def)

lemma upd_tag_fields [simp]:
  "available_blocks (upd_tag p f h) = available_blocks h"
  "complete_regions (upd_tag p f h) = complete_regions h"
  "remaining_memory (upd_tag p f h) = remaining_memory h"
  "bytes (upd_tag p f h) = bytes h"
  "bin_head (upd_tag p f h) i = bin_head h i"
  by (simp_all add: upd_tag_def)

lemma set_bin_head_tags [simp]: "tag_at (set_bin_head i p h) = tag_at h"
  by (rule ext) (simp add: set_bin_head_def tag_at_def)

definition bins_sized :: "'a heap_mgr_scheme \<Rightarrow> bool" where
  "bins_sized h \<longleftrightarrow> length (available_blocks h) = 24 \<and> length (complete_regions h) = 24"

lemma bin_head_set [simp]:
  "bins_sized h \<Longrightarrow> i < 24 \<Longrightarrow>
     bin_head (set_bin_head (int i) p h) (int j) = (if j = i then p else bin_head h (int j))"
  by (auto simp: bins_sized_def bin_head_def set_bin_head_def)

lemma bins_sized_preserved [simp]:
  "bins_sized (put_tag p t h) = bins_sized h" "bins_sized (upd_tag p f h) = bins_sized h"
  "bins_sized (set_bin_head i p h) = bins_sized h"
  by (simp_all add: bins_sized_def set_bin_head_def)

lemma complete_fields [simp]:
  "tag_at (drop_complete i h) = tag_at h" "tag_at (bump_complete i h) = tag_at h"
  "bin_head (drop_complete i h) (int j) = bin_head h (int j)"
  "bin_head (bump_complete i h) (int j) = bin_head h (int j)"
  "bins_sized (drop_complete i h) = bins_sized h" "bins_sized (bump_complete i h) = bins_sized h"
  "remaining_memory (drop_complete i h) = remaining_memory h"
  "remaining_memory (bump_complete i h) = remaining_memory h"
  by (auto simp: drop_complete_def bump_complete_def tag_at_def bin_head_def bins_sized_def fun_eq_iff)

lemma remaining_fields [simp]:
  "tag_at (h\<lparr>remaining_memory := v\<rparr>) = tag_at h"
  "bin_head (h\<lparr>remaining_memory := v\<rparr>) i = bin_head h i"
  "bins_sized (h\<lparr>remaining_memory := v\<rparr>) = bins_sized h"
  by (auto simp: tag_at_def bin_head_def bins_sized_def fun_eq_iff)

subsection \<open>Free bins as lists\<close>

text \<open>A segment of a bin: the blocks \<open>xs\<close> from \<open>p\<close> up to \<open>e\<close>, doubly linked and carrying the bin's
  index.\<close>

fun dlseg :: "(addr \<Rightarrow> block_tag) \<Rightarrow> nat \<Rightarrow> addr \<Rightarrow> addr list \<Rightarrow> addr \<Rightarrow> addr \<Rightarrow> bool" where
  "dlseg g i prv [] p e = (p = e)"
| "dlseg g i prv (x # xs) p e =
     (p = x \<and> x \<noteq> 0 \<and> previous_tag (g x) = prv \<and> tag_index (g x) = int i
      \<and> dlseg g i x xs (next_tag (g x)) e)"

lemma dlseg_append:
  "dlseg g i prv (xs @ ys) p e =
     (\<exists>q. dlseg g i prv xs p q \<and> dlseg g i (last (prv # xs)) ys q e)"
  by (induction xs arbitrary: prv p) auto

lemma dlseg_cong:
  assumes "\<And>x. x \<in> set xs \<Longrightarrow> previous_tag (g x) = previous_tag (g' x)
      \<and> next_tag (g x) = next_tag (g' x) \<and> tag_index (g x) = tag_index (g' x)"
  shows "dlseg g i prv xs p e = dlseg g' i prv xs p e"
  using assms by (induction xs arbitrary: prv p) auto

text \<open>The bins hold the lists \<open>bs 0\<close>, \<open>\<dots>\<close>, \<open>bs 23\<close>, pairwise disjoint.\<close>

definition bins_repr :: "'a heap_mgr_scheme \<Rightarrow> (nat \<Rightarrow> addr list) \<Rightarrow> bool" where
  "bins_repr h bs \<longleftrightarrow> bins_sized h
     \<and> (\<forall>i<24. dlseg (tag_at h) i 0 (bs i) (bin_head h (int i)) 0 \<and> distinct (bs i))
     \<and> (\<forall>i<24. \<forall>j<24. i \<noteq> j \<longrightarrow> set (bs i) \<inter> set (bs j) = {})"

lemma bins_repr_keep:
  assumes "bins_repr h bs" "bins_sized h'"
    and "\<And>j x. j < 24 \<Longrightarrow> x \<in> set (bs j) \<Longrightarrow> previous_tag (tag_at h' x) = previous_tag (tag_at h x)
      \<and> next_tag (tag_at h' x) = next_tag (tag_at h x) \<and> tag_index (tag_at h' x) = tag_index (tag_at h x)"
    and "\<And>j. j < 24 \<Longrightarrow> bin_head h' (int j) = bin_head h (int j)"
  shows "bins_repr h' bs"
proof -
  have "dlseg (tag_at h') j 0 (bs j) (bin_head h (int j)) 0 = dlseg (tag_at h) j 0 (bs j) (bin_head h (int j)) 0"
    if "j < 24" for j using that assms(3) by (intro dlseg_cong) auto
  then show ?thesis using assms(1,2,4) by (simp add: bins_repr_def)
qed

lemma insert_block_fresh:
  assumes R: "bins_repr h bs" and i: "i < 24" and x: "x \<noteq> 0" "\<And>j. j < 24 \<Longrightarrow> x \<notin> set (bs j)"
    and links: "previous_tag (tag_at h x) = 0" "next_tag (tag_at h x) = 0"
  shows "bins_repr (insert_block x (int i) h) (bs(i := x # bs i))"
proof -
  let ?hd = "bin_head h (int i)"
  let ?h1 = "upd_tag x (\<lambda>t. t\<lparr>tag_index := int i\<rparr>) h"
  define h2 where "h2 = (if ?hd \<noteq> 0 then upd_tag x (\<lambda>t. t\<lparr>next_tag := ?hd\<rparr>)
      (upd_tag ?hd (\<lambda>t. t\<lparr>previous_tag := x\<rparr>) ?h1) else ?h1)"
  have sz: "bins_sized h" and seg: "\<And>j. j < 24 \<Longrightarrow> dlseg (tag_at h) j 0 (bs j) (bin_head h (int j)) 0"
    using R by (auto simp: bins_repr_def)
  have hd: "?hd = (case bs i of [] \<Rightarrow> 0 | y # ys \<Rightarrow> y)"
    using seg [OF i] by (cases "bs i") auto
  have "x \<noteq> ?hd" using x(1) x(2) [OF i] by (auto simp: hd split: list.splits)
  then have e: "insert_block x (int i) h = set_bin_head (int i) x h2"
    using links by (simp add: insert_block_def Let_def h2_def)
  have h2: "bins_sized h2" "bin_head h2 j = bin_head h j" for j using sz by (simp_all add: h2_def)
  have own: "dlseg (tag_at h2) i 0 (x # bs i) x 0"
  proof (cases "bs i")
    case Nil
    then show ?thesis using hd x(1) links by (simp add: h2_def)
  next
    case (Cons y ys)
    have "dlseg (tag_at h2) i y ys (next_tag (tag_at h y)) 0 = dlseg (tag_at h) i y ys (next_tag (tag_at h y)) 0"
      using R i x(2) [OF i] Cons hd by (intro dlseg_cong) (auto simp: bins_repr_def h2_def)
    then show ?thesis using seg [OF i] Cons hd x links \<open>x \<noteq> ?hd\<close> by (auto simp: h2_def)
  qed
  have other: "dlseg (tag_at h2) j 0 (bs j) (bin_head h (int j)) 0" if "j < 24" "j \<noteq> i" for j
  proof -
    have "?hd \<notin> set (bs j)" if "?hd \<noteq> 0"
      using R \<open>j < 24\<close> \<open>j \<noteq> i\<close> i that hd by (auto simp: bins_repr_def split: list.splits)
    then have "dlseg (tag_at h2) j 0 (bs j) (bin_head h (int j)) 0
        = dlseg (tag_at h) j 0 (bs j) (bin_head h (int j)) 0"
      using x(2) [OF that(1)] by (intro dlseg_cong) (auto simp: h2_def)
    then show ?thesis using seg [OF that(1)] by simp
  qed
  show ?thesis using R own other x(2) i h2
    by (auto simp: bins_repr_def e simp del: dlseg.simps)
qed

text \<open>Unlinking from a segment: the neighbours are joined, the rest of the segment is untouched.\<close>

lemma dlseg_unlink:
  assumes seg: "dlseg g i prv (ys @ x # zs) p 0" and d: "distinct (ys @ x # zs)"
    and g': "\<And>y. y \<notin> {x, previous_tag (g x), next_tag (g x)} \<Longrightarrow> g' y = g y"
    and prev: "ys \<noteq> [] \<Longrightarrow> g' (previous_tag (g x)) = (g (previous_tag (g x)))\<lparr>next_tag := next_tag (g x)\<rparr>"
    and nxt: "next_tag (g x) \<noteq> 0 \<Longrightarrow>
      g' (next_tag (g x)) = (g (next_tag (g x)))\<lparr>previous_tag := previous_tag (g x)\<rparr>"
    and out: "prv \<notin> set (ys @ x # zs)"
  shows "dlseg g' i prv (ys @ zs) (if ys = [] then next_tag (g x) else p) 0"
proof -
  obtain q where s1: "dlseg g i prv ys p q" and s2: "q = x" "x \<noteq> 0"
      "previous_tag (g x) = last (prv # ys)" "tag_index (g x) = int i" "dlseg g i x zs (next_tag (g x)) 0"
    using seg by (auto simp: dlseg_append)
  have nz: "next_tag (g x) = (case zs of [] \<Rightarrow> 0 | z # _ \<Rightarrow> z)"
    using s2(5) by (cases zs) auto
  have tail: "dlseg g' i (last (prv # ys)) zs (next_tag (g x)) 0"
  proof (cases zs)
    case Nil then show ?thesis using nz by simp
  next
    case (Cons z zs')
    have zin: "z \<noteq> 0" "next_tag (g x) = z" using s2(5) Cons by auto
    have "last (prv # ys) \<notin> set zs" using d out by (cases ys rule: rev_cases) auto
    then have "g' y = g y" if "y \<in> set zs'" for y
      using d Cons nz s2(3) that by (intro g') auto
    then have "dlseg g' i z zs' (next_tag (g z)) 0 = dlseg g i z zs' (next_tag (g z)) 0"
      by (intro dlseg_cong) simp
    then show ?thesis using s2(5) Cons zin nxt s2(3) by auto
  qed
  show ?thesis
  proof (cases ys rule: rev_cases)
    case Nil then show ?thesis using tail by simp
  next
    case (snoc ys' w)
    have w: "previous_tag (g x) = w" using s2(3) snoc by simp
    have s1': "dlseg g i prv ys' p w" "w \<noteq> 0" "previous_tag (g w) = last (prv # ys')"
      "tag_index (g w) = int i" "next_tag (g w) = x"
      using s1 s2(1) snoc by (auto simp: dlseg_append)
    have "next_tag (g x) \<notin> set ys' \<or> next_tag (g x) = 0" using d snoc nz by (auto split: list.splits)
    moreover have "0 \<notin> set ys'" using s1'(1) by (induction ys' arbitrary: prv p) auto
    ultimately have "g' y = g y" if "y \<in> set ys'" for y
      using d snoc w that by (intro g') auto
    then have "dlseg g' i prv ys' p w = dlseg g i prv ys' p w"
      by (intro dlseg_cong) simp
    moreover have "g' w = (g w)\<lparr>next_tag := next_tag (g x)\<rparr>" using prev snoc w by simp
    ultimately show ?thesis using s1' tail snoc by (simp add: dlseg_append)
  qed
qed

lemma dlseg_head: "dlseg g i prv xs p 0 \<Longrightarrow> p = (case xs of [] \<Rightarrow> 0 | y # _ \<Rightarrow> y)"
  by (cases xs) auto

lemma dlseg_nonzero: "dlseg g i prv xs p e \<Longrightarrow> 0 \<notin> set xs"
  by (induction xs arbitrary: prv p) auto

lemma remove_block_shape:
  assumes R: "bins_repr h bs" and i: "i < 24" and x: "bs i = ys @ x # zs"
  defines "t \<equiv> tag_at h x"
  shows "x \<noteq> 0" "tag_index t = int i" "previous_tag t = last (0 # ys)"
    "next_tag t = (case zs of [] \<Rightarrow> 0 | z # _ \<Rightarrow> z)" "bin_head h (int i) = hd (ys @ [x])"
    "distinct (ys @ x # zs)" "0 \<notin> set (ys @ x # zs)"
proof -
  have "dlseg (tag_at h) i 0 (bs i) (bin_head h (int i)) 0 \<and> distinct (bs i)"
    using R i by (simp add: bins_repr_def)
  then have seg: "dlseg (tag_at h) i 0 (ys @ x # zs) (bin_head h (int i)) 0"
    and d: "distinct (ys @ x # zs)" by (simp_all only: x)
  then obtain q where s1: "dlseg (tag_at h) i 0 ys (bin_head h (int i)) q" and s2: "q = x" "x \<noteq> 0"
      "previous_tag t = last (0 # ys)" "tag_index t = int i" "dlseg (tag_at h) i x zs (next_tag t) 0"
    by (auto simp: dlseg_append t_def)
  show "x \<noteq> 0" "tag_index t = int i" "previous_tag t = last (0 # ys)" using s2 by auto
  show "next_tag t = (case zs of [] \<Rightarrow> 0 | z # _ \<Rightarrow> z)" using dlseg_head [OF s2(5)] .
  show "bin_head h (int i) = hd (ys @ [x])" using s1 s2(1) by (cases ys) auto
  show "distinct (ys @ x # zs)" "0 \<notin> set (ys @ x # zs)" using d dlseg_nonzero [OF seg] by auto
qed

text \<open>The effect of \<open>remove_block\<close> on every tag, for a block of bin \<open>i\<close>.\<close>

lemma remove_block_tags:
  assumes R: "bins_repr h bs" and i: "i < 24" and x: "bs i = ys @ x # zs"
  shows "tag_at (remove_block x h) y =
     (if y = x then (tag_at h x)\<lparr>next_tag := 0, previous_tag := 0, tag_index := -1\<rparr>
      else if ys \<noteq> [] \<and> y = last ys then (tag_at h y)\<lparr>next_tag := next_tag (tag_at h x)\<rparr>
      else if zs \<noteq> [] \<and> y = hd zs then (tag_at h y)\<lparr>previous_tag := previous_tag (tag_at h x)\<rparr>
      else tag_at h y)"
    and "bin_head (remove_block x h) (int j) =
      (if j = i \<and> ys = [] then next_tag (tag_at h x) else bin_head h (int j))"
    and "bins_sized (remove_block x h)"
proof -
  note sh = remove_block_shape [OF R i x]
  have sz: "bins_sized h" using R by (simp add: bins_repr_def)
  have "hd (ys @ [x]) = x \<longleftrightarrow> ys = []" using sh(6) by (cases ys) auto
  then have head: "bin_head h (int i) = x \<longleftrightarrow> ys = []" by (simp only: sh(5))
  let ?P = "\<lambda>h'. (\<forall>y. tag_at h' y =
     (if y = x then (tag_at h x)\<lparr>next_tag := 0, previous_tag := 0, tag_index := -1\<rparr>
      else if ys \<noteq> [] \<and> y = last ys then (tag_at h y)\<lparr>next_tag := next_tag (tag_at h x)\<rparr>
      else if zs \<noteq> [] \<and> y = hd zs then (tag_at h y)\<lparr>previous_tag := previous_tag (tag_at h x)\<rparr>
      else tag_at h y))
    \<and> (\<forall>j. bin_head h' (int j) = (if j = i \<and> ys = [] then next_tag (tag_at h x) else bin_head h (int j)))
    \<and> bins_sized h'"
  have "?P (remove_block x h)"
  proof (cases ys rule: rev_cases)
    case Nil
    show ?thesis
    proof (cases zs)
      case Nil': Nil
      have "remove_block x h = upd_tag x (\<lambda>t. t\<lparr>next_tag := 0, previous_tag := 0, tag_index := -1\<rparr>)
          (set_bin_head (int i) 0 h)"
        using sh(2,4) head Nil Nil' by (simp add: remove_block_def)
      then show ?thesis using sh(4) Nil Nil' sz i by simp
    next
      case (Cons z zs')
      have z: "z \<noteq> 0" "z \<noteq> x" "next_tag (tag_at h x) = z" "previous_tag (tag_at h x) = 0"
        using sh(3,4,6,7) Nil Cons by auto
      have "remove_block x h = upd_tag x (\<lambda>t. t\<lparr>next_tag := 0, previous_tag := 0, tag_index := -1\<rparr>)
          (upd_tag z (\<lambda>n. n\<lparr>previous_tag := 0\<rparr>) (set_bin_head (int i) z h))"
        using sh(2) head Nil z by (simp add: remove_block_def)
      then show ?thesis using z Nil Cons sz i by simp
    qed
  next
    case (snoc ys' w)
    then have w: "w \<noteq> 0" "w \<noteq> x" "previous_tag (tag_at h x) = w" using sh(3,6,7) by auto
    show ?thesis
    proof (cases zs)
      case Nil
      have "remove_block x h = upd_tag x (\<lambda>t. t\<lparr>next_tag := 0, previous_tag := 0, tag_index := -1\<rparr>)
          (upd_tag w (\<lambda>p. p\<lparr>next_tag := 0\<rparr>) h)"
        using sh(2,4) head snoc w Nil by (simp add: remove_block_def)
      then show ?thesis using sh(4) snoc sz w Nil by simp
    next
      case (Cons z zs')
      then have z: "z \<noteq> 0" "z \<noteq> x" "z \<noteq> w" "next_tag (tag_at h x) = z" using sh(4,6,7) snoc by auto
      have "remove_block x h = upd_tag x (\<lambda>t. t\<lparr>next_tag := 0, previous_tag := 0, tag_index := -1\<rparr>)
          (upd_tag z (\<lambda>n. n\<lparr>previous_tag := w\<rparr>) (upd_tag w (\<lambda>p. p\<lparr>next_tag := z\<rparr>) h))"
        using sh(2) head snoc w z by (simp add: remove_block_def)
      then show ?thesis using z snoc sz w Cons by simp
    qed
  qed
  then show "tag_at (remove_block x h) y =
     (if y = x then (tag_at h x)\<lparr>next_tag := 0, previous_tag := 0, tag_index := -1\<rparr>
      else if ys \<noteq> [] \<and> y = last ys then (tag_at h y)\<lparr>next_tag := next_tag (tag_at h x)\<rparr>
      else if zs \<noteq> [] \<and> y = hd zs then (tag_at h y)\<lparr>previous_tag := previous_tag (tag_at h x)\<rparr>
      else tag_at h y)"
    "bin_head (remove_block x h) (int j) =
      (if j = i \<and> ys = [] then next_tag (tag_at h x) else bin_head h (int j))"
    "bins_sized (remove_block x h)" by blast+
qed

lemma remove_block_member:
  assumes R: "bins_repr h bs" and i: "i < 24" and x: "x \<in> set (bs i)"
  shows "bins_repr (remove_block x h) (bs(i := remove1 x (bs i)))"
proof -
  obtain ys zs where bi: "bs i = ys @ x # zs" using x split_list by metis
  note sh = remove_block_shape [OF R i bi] and T = remove_block_tags [OF R i bi]
  let ?h = "remove_block x h"
  have r1: "remove1 x (bs i) = ys @ zs" using sh(6) by (simp add: bi remove1_append)
  have seg: "\<And>j. j < 24 \<Longrightarrow> dlseg (tag_at h) j 0 (bs j) (bin_head h (int j)) 0"
    using R by (simp add: bins_repr_def)
  have pv: "ys \<noteq> [] \<Longrightarrow> previous_tag (tag_at h x) = last ys"
    and nx: "zs \<noteq> [] \<Longrightarrow> next_tag (tag_at h x) = hd zs" "zs = [] \<Longrightarrow> next_tag (tag_at h x) = 0"
    using sh(3,4) by (auto split: list.splits)
  have ne: "ys \<noteq> [] \<Longrightarrow> last ys \<noteq> x" "zs \<noteq> [] \<Longrightarrow> hd zs \<noteq> x" "ys \<noteq> [] \<Longrightarrow> zs \<noteq> [] \<Longrightarrow> hd zs \<noteq> last ys"
    using sh(6) hd_in_set [of zs] last_in_set [of ys] by (auto simp: disjoint_iff simp del: hd_in_set last_in_set)
  have inI: "ys \<noteq> [] \<Longrightarrow> last ys \<in> set (bs i)" "zs \<noteq> [] \<Longrightarrow> hd zs \<in> set (bs i)" by (auto simp: bi)
  have own: "dlseg (tag_at ?h) i 0 (ys @ zs) (bin_head ?h (int i)) 0"
  proof -
    have "dlseg (tag_at ?h) i 0 (ys @ zs) (if ys = [] then next_tag (tag_at h x) else bin_head h (int i)) 0"
    proof (rule dlseg_unlink [of "tag_at h"])
      show "dlseg (tag_at h) i 0 (ys @ x # zs) (bin_head h (int i)) 0" using seg [OF i] by (simp only: bi)
      show "tag_at ?h y = tag_at h y" if "y \<notin> {x, previous_tag (tag_at h x), next_tag (tag_at h x)}" for y
      proof -
        have "\<not> (ys \<noteq> [] \<and> y = last ys)" "\<not> (zs \<noteq> [] \<and> y = hd zs)" "y \<noteq> x" using that pv nx by auto
        then show ?thesis by (simp only: T(1) if_False simp_thms)
      qed
      show "tag_at ?h (previous_tag (tag_at h x))
        = (tag_at h (previous_tag (tag_at h x)))\<lparr>next_tag := next_tag (tag_at h x)\<rparr>" if "ys \<noteq> []"
        using pv [OF that] that ne(1) [OF that] by (simp only: T(1) if_False if_True simp_thms)
      show "tag_at ?h (next_tag (tag_at h x))
        = (tag_at h (next_tag (tag_at h x)))\<lparr>previous_tag := previous_tag (tag_at h x)\<rparr>"
        if "next_tag (tag_at h x) \<noteq> 0"
      proof -
        have zs: "zs \<noteq> []" using nx(2) that by blast
        then have "\<not> (ys \<noteq> [] \<and> hd zs = last ys)" "hd zs \<noteq> x" using ne by auto
        then show ?thesis using nx(1) [OF zs] zs by (simp only: T(1) if_False if_True simp_thms)
      qed
    qed (use sh(6,7) in auto)
    then show ?thesis by (simp add: T(2))
  qed
  have other: "dlseg (tag_at ?h) j 0 (bs j) (bin_head ?h (int j)) 0" if "j < 24" "j \<noteq> i" for j
  proof -
    have "set (bs i) \<inter> set (bs j) = {}" using R i that by (simp add: bins_repr_def)
    then have "tag_at ?h y = tag_at h y" if "y \<in> set (bs j)" for y
    proof -
      have "\<not> (ys \<noteq> [] \<and> y = last ys)" "\<not> (zs \<noteq> [] \<and> y = hd zs)" "y \<noteq> x"
        using \<open>set (bs i) \<inter> set (bs j) = {}\<close> that inI x by auto
      then show ?thesis by (simp only: T(1) if_False simp_thms)
    qed
    then have "dlseg (tag_at ?h) j 0 (bs j) (bin_head h (int j)) 0
        = dlseg (tag_at h) j 0 (bs j) (bin_head h (int j)) 0" by (intro dlseg_cong) simp
    then show ?thesis using seg that by (simp add: T(2))
  qed
  have disj: "set ((bs(i := ys @ zs)) a) \<inter> set ((bs(i := ys @ zs)) b) = {}"
    if "a < 24" "b < 24" "a \<noteq> b" for a b
  proof -
    have "set (bs a) \<inter> set (bs b) = {}" using R that by (simp add: bins_repr_def)
    moreover have "set ((bs(i := ys @ zs)) c) \<subseteq> set (bs c)" for c by (auto simp: bi)
    ultimately show ?thesis by blast
  qed
  have "distinct (bs j)" if "j < 24" for j using R that by (simp add: bins_repr_def)
  then show ?thesis using own other sh(6) T(3) disj unfolding bins_repr_def r1
    by (simp del: dlseg.simps)
qed

text \<open>\<open>remove_block\<close> and \<open>insert_block\<close> touch list links and indices only.\<close>

definition same_body :: "block_tag \<Rightarrow> block_tag \<Rightarrow> bool" where
  "same_body t u \<longleftrightarrow> magic t = magic u \<and> block_size t = block_size u \<and> held_size t = held_size u
     \<and> left_split t = left_split u \<and> right_split t = right_split u \<and> align_bytes t = align_bytes u"

definition same_bodies :: "'a heap_mgr_scheme \<Rightarrow> 'a heap_mgr_scheme \<Rightarrow> bool" where
  "same_bodies h h' \<longleftrightarrow> (\<forall>y. same_body (tag_at h' y) (tag_at h y))"

lemma same_body_refl [simp]: "same_body t t"
  by (simp add: same_body_def)

lemma same_bodies_refl [simp]: "same_bodies h h"
  by (simp add: same_bodies_def)

lemma same_body_trans: "same_body t u \<Longrightarrow> same_body u v \<Longrightarrow> same_body t v"
  by (simp add: same_body_def)

lemma same_bodies_upd:
  "same_bodies h h' \<Longrightarrow> (\<And>t. same_body (f t) t) \<Longrightarrow> same_bodies h (upd_tag p f h')"
  by (simp add: same_bodies_def) (blast intro: same_body_trans)

lemma same_bodies_bin: "same_bodies h h' \<Longrightarrow> same_bodies h (set_bin_head i p h')"
  by (simp add: same_bodies_def)

lemma remove_block_body: "same_bodies h (remove_block x h)"
  unfolding remove_block_def Let_def
  by (intro same_bodies_upd) (auto simp: same_body_def intro!: same_bodies_upd same_bodies_bin)

lemma insert_block_body: "same_bodies h (insert_block x i h)"
  unfolding insert_block_def Let_def
  by (auto simp: same_body_def intro!: same_bodies_upd same_bodies_bin)

end
