(* ===== verification/Block_Chain.thy ===== *)
theory Block_Chain
  imports Block_Tags
begin

text \<open>
  Stage 2, continued: the neighbour chains of split regions, the allocation guarantees, and the bin
  interface.  A split region is a chain of tags that tiles it; \<open>split\<close>, \<open>melt_left\<close> and
  \<open>melt_right\<close> keep it one.
\<close>

subsection \<open>Split regions as chains\<close>

text \<open>
  The tags \<open>ps\<close> tile the memory from \<open>s\<close> up to \<open>e\<close>: each block ends where its right neighbour
  starts, and the neighbour pointers agree in both directions; \<open>l\<close> and \<open>r\<close> are the outer pointers.
\<close>

fun pseg :: "(addr \<Rightarrow> block_tag) \<Rightarrow> addr \<Rightarrow> addr \<Rightarrow> addr list \<Rightarrow> addr \<Rightarrow> addr \<Rightarrow> bool" where
  "pseg g l s [] r e = (s = e)"
| "pseg g l s (p # ps) r e =
     (p = s \<and> p \<noteq> 0 \<and> 0 < block_size (g p) \<and> left_split (g p) = l
      \<and> right_split (g p) = (if ps = [] then r else hd ps) \<and> pseg g p (p + block_size (g p)) ps r e)"

definition pchain :: "(addr \<Rightarrow> block_tag) \<Rightarrow> addr list \<Rightarrow> addr \<Rightarrow> bool" where
  "pchain g ps e \<longleftrightarrow> ps \<noteq> [] \<and> pseg g 0 (hd ps) ps 0 e"

lemma pseg_append:
  "pseg g l s (as @ bs) r e \<longleftrightarrow>
     (\<exists>m. pseg g l s as (if bs = [] then r else hd bs) m \<and> pseg g (last (l # as)) m bs r e)"
  by (induction as arbitrary: l s) auto

lemma pseg_le: "pseg g l s ps r e \<Longrightarrow> s \<le> e"
  by (induction ps arbitrary: l s) (auto, force)

lemma pseg_range: "pseg g l s ps r e \<Longrightarrow> x \<in> set ps \<Longrightarrow> s \<le> x \<and> x < e"
proof (induction ps arbitrary: l s)
  case (Cons p ps)
  then show ?case using pseg_le [of g p "p + block_size (g p)" ps r e] by fastforce
qed simp

lemma pseg_cong:
  assumes "\<And>p. p \<in> set ps \<Longrightarrow> left_split (g' p) = left_split (g p) \<and> right_split (g' p) = right_split (g p)
      \<and> block_size (g' p) = block_size (g p)"
  shows "pseg g' l s ps r e = pseg g l s ps r e"
  using assms by (induction ps arbitrary: l s) auto

text \<open>Only the left pointer of the first block of a segment depends on what precedes it.\<close>

lemma pseg_relink:
  assumes "pseg g l s bs r e"
    and "\<And>p. p \<in> set bs \<Longrightarrow> right_split (g' p) = right_split (g p) \<and> block_size (g' p) = block_size (g p)
      \<and> left_split (g' p) = (if p = hd bs then l' else left_split (g p))"
  shows "pseg g' l' s bs r e"
proof (cases bs)
  case Nil then show ?thesis using assms(1) by simp
next
  case (Cons b bs')
  have rest: "pseg g b (b + block_size (g b)) bs' r e" using assms(1) by (auto simp: Cons)
  have "b \<notin> set bs'" using pseg_range [OF rest, of b] assms(1) Cons by auto
  then have "pseg g' b (b + block_size (g b)) bs' r e"
    using rest assms(2) Cons by (subst pseg_cong [of bs' g' g]) (auto simp del: pseg.simps)
  then show ?thesis using assms Cons by auto
qed

lemma pchain_at:
  assumes "pchain g (as @ p # bs) e"
  obtains s where "pseg g 0 s as p p" "s = hd (as @ [p])" "p \<noteq> 0" "0 < block_size (g p)"
    "left_split (g p) = last (0 # as)" "right_split (g p) = (if bs = [] then 0 else hd bs)"
    "pseg g p (p + block_size (g p)) bs 0 e"
proof -
  have hd: "hd (as @ p # bs) = hd (as @ [p])" by (cases as) simp_all
  show thesis using assms that unfolding pchain_def hd pseg_append by auto
qed

lemma pchainI:
  assumes "pseg g 0 s as p p" "s = hd (as @ [p])" "p \<noteq> 0" "0 < block_size (g p)"
    "left_split (g p) = last (0 # as)" "right_split (g p) = (if bs = [] then 0 else hd bs)"
    "pseg g p (p + block_size (g p)) bs 0 e"
  shows "pchain g (as @ p # bs) e"
proof -
  have hd: "hd (as @ p # bs) = hd (as @ [p])" by (cases as) simp_all
  have "pseg g (last (0 # as)) p (p # bs) 0 e" using assms(3-7) by simp
  then show ?thesis using assms(1,2) unfolding pchain_def hd pseg_append by auto
qed

lemma pseg_bodies: "same_bodies h h' \<Longrightarrow> pseg (tag_at h') l s ps r e = pseg (tag_at h) l s ps r e"
  by (intro pseg_cong) (simp add: same_bodies_def same_body_def)

lemma pchain_bodies: "same_bodies h h' \<Longrightarrow> pchain (tag_at h') ps e = pchain (tag_at h) ps e"
  by (simp add: pchain_def pseg_bodies)

definition used_part :: "block_tag \<Rightarrow> nat" where
  "used_part t = bt_offset + align_bytes t + held_size t"

lemma available_size_eq:
  assumes "used_part t \<le> block_size t" "block_size t < 2 ^ 64"
  shows "available_size t = block_size t - used_part t"
proof -
  have "allocated_size t = block_size t - bt_offset"
    using assms by (simp add: allocated_size_def u64_sub_id used_part_def)
  moreover have "u64_add (held_size t) (align_bytes t) = held_size t + align_bytes t"
    using assms by (simp add: u64_add_id used_part_def)
  moreover have "held_size t + align_bytes t \<le> block_size t - bt_offset"
    using assms(1) by (simp add: used_part_def)
  ultimately show ?thesis using assms by (simp add: available_size_def u64_sub_id used_part_def)
qed

definition agrees :: "block_tag \<Rightarrow> block_tag \<Rightarrow> bool" where
  "agrees t u \<longleftrightarrow> left_split t = left_split u \<and> right_split t = right_split u \<and> block_size t = block_size u"

definition relinked :: "(addr \<Rightarrow> block_tag) \<Rightarrow> (addr \<Rightarrow> block_tag) \<Rightarrow> addr list \<Rightarrow> addr \<Rightarrow> bool" where
  "relinked g g' bs l \<longleftrightarrow> (\<forall>x\<in>set bs. right_split (g' x) = right_split (g x)
     \<and> block_size (g' x) = block_size (g x) \<and> left_split (g' x) = (if x = hd bs then l else left_split (g x)))"

lemma pchain_insert:
  assumes C: "pchain g (as @ p # bs) e" and q: "p < q" "q < p + block_size (g p)"
    and p': "left_split (g' p) = left_split (g p)" "right_split (g' p) = q" "block_size (g' p) = q - p"
    and q': "left_split (g' q) = p" "right_split (g' q) = right_split (g p)"
      "block_size (g' q) = p + block_size (g p) - q"
    and as: "\<And>x. x \<in> set as \<Longrightarrow> agrees (g' x) (g x)" and bs: "relinked g g' bs q"
  shows "pchain g' (as @ p # q # bs) e"
proof -
  obtain s where c: "pseg g 0 s as p p" "s = hd (as @ [p])" "p \<noteq> 0" "left_split (g p) = last (0 # as)"
    "right_split (g p) = (if bs = [] then 0 else hd bs)" "pseg g p (p + block_size (g p)) bs 0 e"
    using C by (rule pchain_at)
  have "pseg g' 0 s as p p = pseg g 0 s as p p"
    by (rule pseg_cong) (use as in \<open>simp add: agrees_def\<close>)
  then have "pseg g' 0 s as p p" using c(1) by simp
  moreover have "pseg g' q (p + block_size (g p)) bs 0 e"
    by (rule pseg_relink [OF c(6)]) (use bs in \<open>simp add: relinked_def\<close>)
  moreover have "q + block_size (g' q) = p + block_size (g p)" using q q' by simp
  ultimately show ?thesis using c p' q q' by (intro pchainI) auto
qed

lemma pchain_merge:
  assumes C: "pchain g (as @ p # q # bs) e"
    and p': "left_split (g' p) = left_split (g p)" "right_split (g' p) = right_split (g q)"
      "block_size (g' p) = block_size (g p) + block_size (g q)"
    and as: "\<And>x. x \<in> set as \<Longrightarrow> agrees (g' x) (g x)" and bs: "relinked g g' bs p"
  shows "pchain g' (as @ p # bs) e"
proof -
  obtain s where c: "pseg g 0 s as p p" "s = hd (as @ [p])" "p \<noteq> 0" "0 < block_size (g p)"
    "left_split (g p) = last (0 # as)" "pseg g p (p + block_size (g p)) (q # bs) 0 e"
    using C by (rule pchain_at)
  then have q: "q = p + block_size (g p)" "right_split (g q) = (if bs = [] then 0 else hd bs)"
    "pseg g q (q + block_size (g q)) bs 0 e" by auto
  have "pseg g' 0 s as p p = pseg g 0 s as p p"
    by (rule pseg_cong) (use as in \<open>simp add: agrees_def\<close>)
  then have "pseg g' 0 s as p p" using c(1) by simp
  moreover have "pseg g' p (q + block_size (g q)) bs 0 e"
    by (rule pseg_relink [OF q(3)]) (use bs in \<open>simp add: relinked_def\<close>)
  ultimately show ?thesis using c p' q by (intro pchainI) (auto simp: add.assoc)
qed

text \<open>The order of the blocks of a chain.\<close>

lemma pchain_order:
  assumes "pchain g (as @ p # bs) e"
  shows "x \<in> set as \<Longrightarrow> x < p" "x \<in> set bs \<Longrightarrow> p + block_size (g p) \<le> x" "p + block_size (g p) \<le> e"
    "0 < block_size (g p)" "p \<noteq> 0" "right_split (g p) = (if bs = [] then 0 else hd bs)" "0 \<notin> set bs"
    "left_split (g p) = last (0 # as)" "0 \<notin> set as"
proof -
  obtain s where c: "pseg g 0 s as p p" "s = hd (as @ [p])" "p \<noteq> 0" "0 < block_size (g p)"
    "right_split (g p) = (if bs = [] then 0 else hd bs)" "pseg g p (p + block_size (g p)) bs 0 e"
    "left_split (g p) = last (0 # as)"
    using assms by (rule pchain_at)
  show "x \<in> set as \<Longrightarrow> x < p" using pseg_range [OF c(1)] by auto
  show "x \<in> set bs \<Longrightarrow> p + block_size (g p) \<le> x" using pseg_range [OF c(6)] by auto
  show "p + block_size (g p) \<le> e" using pseg_le [OF c(6)] .
  show "0 \<notin> set bs" using pseg_range [OF c(6), of 0] c(4) by auto
  show "0 \<notin> set as" using c(1) by (auto dest!: split_list simp: pseg_append)
  show "0 < block_size (g p)" "p \<noteq> 0" "right_split (g p) = (if bs = [] then 0 else hd bs)"
    "left_split (g p) = last (0 # as)" using c by simp_all
qed

lemma split_tag_chain:
  assumes C: "pchain (tag_at h) (as @ p # bs) e" and fit: "used_part (tag_at h p) < block_size (tag_at h p)"
    and e: "e < 2 ^ 64"
  shows "fst (split_tag p h) = p + used_part (tag_at h p)"
    and "pchain (tag_at (snd (split_tag p h))) (as @ p # fst (split_tag p h) # bs) e"
    and "tag_at (snd (split_tag p h)) p
      = (tag_at h p)\<lparr>right_split := fst (split_tag p h), block_size := used_part (tag_at h p)\<rparr>"
    and "block_size (tag_at (snd (split_tag p h)) (fst (split_tag p h)))
      = block_size (tag_at h p) - used_part (tag_at h p)"
proof -
  let ?t = "tag_at h p" let ?q = "p + used_part ?t"
  note o = pchain_order [OF C]
  have av: "available_size ?t = block_size ?t - used_part ?t"
    using fit o(3) e by (intro available_size_eq) auto
  have q: "addr_plus (actual_start p ?t) (held_size ?t) = ?q"
    using fit o(3) e by (simp add: addr_plus_def actual_start_def u64_add_id used_part_def)
  have pq: "p < ?q" "?q < p + block_size ?t" using fit by (simp_all add: used_part_def bt_offset_def)
  define nt where "nt = new_tag (block_size ?t - used_part ?t) 0 (-1) p (right_split ?t) 0"
  have nt: "right_split nt = right_split ?t" "left_split nt = p" "block_size nt = block_size ?t - used_part ?t"
    by (simp_all add: nt_def new_tag_def)
  define h2 where "h2 = (if right_split ?t \<noteq> 0
      then upd_tag (right_split ?t) (\<lambda>r. r\<lparr>left_split := ?q\<rparr>) (put_tag ?q nt h) else put_tag ?q nt h)"
  let ?h' = "upd_tag p (\<lambda>t. t\<lparr>right_split := ?q, block_size := u64_sub (block_size t) (block_size nt)\<rparr>) h2"
  have sp: "split_tag p h = (?q, ?h')"
    unfolding split_tag_def Let_def q av nt_def [symmetric] nt(1) h2_def by simp
  have hd: "right_split ?t \<noteq> 0 \<Longrightarrow> bs \<noteq> [] \<and> right_split ?t = hd bs" using o(6) by (auto split: if_splits)
  have far: "bs \<noteq> [] \<Longrightarrow> ?q < hd bs \<and> p < hd bs" using o(2) [of "hd bs"] pq by auto
  have g2: "tag_at h2 p = ?t" "tag_at h2 ?q = nt" using pq hd far by (auto simp: h2_def)
  have bl: "u64_sub (block_size ?t) (block_size nt) = used_part ?t"
    using fit o(3) e by (simp add: nt(3) u64_sub_id)
  show "fst (split_tag p h) = ?q" by (simp add: sp)
  show "block_size (tag_at (snd (split_tag p h)) (fst (split_tag p h))) = block_size ?t - used_part ?t"
    using pq by (simp add: sp g2 nt)
  show "tag_at (snd (split_tag p h)) p = ?t\<lparr>right_split := fst (split_tag p h), block_size := used_part ?t\<rparr>"
    by (simp add: sp g2 bl)
  have "agrees (tag_at ?h' x) (tag_at h x)" if "x \<in> set as" for x
    using o(1) [OF that] pq hd far by (auto simp: h2_def agrees_def)
  moreover have "relinked (tag_at h) (tag_at ?h') bs ?q"
    unfolding relinked_def
  proof
    fix x assume x: "x \<in> set bs"
    have "bs \<noteq> []" using x by auto
    then have ne: "x \<noteq> p" "x \<noteq> ?q" "hd bs \<noteq> p" "hd bs \<noteq> ?q" "bs \<noteq> []"
      using o(2) [OF x] pq far by auto
    have "right_split ?t = hd bs" "hd bs \<noteq> 0" using o(6,7) ne(5) by (simp, metis list.set_sel(1))
    then show "right_split (tag_at ?h' x) = right_split (tag_at h x)
      \<and> block_size (tag_at ?h' x) = block_size (tag_at h x)
      \<and> left_split (tag_at ?h' x) = (if x = hd bs then ?q else left_split (tag_at h x))"
      using ne by (simp add: h2_def)
  qed
  ultimately have "pchain (tag_at ?h') (as @ p # ?q # bs) e"
    by (intro pchain_insert [OF C pq]) (use g2 bl nt pq in \<open>auto simp: used_part_def\<close>)
  then show "pchain (tag_at (snd (split_tag p h))) (as @ p # fst (split_tag p h) # bs) e" by (simp add: sp)
qed

text \<open>Two neighbours merged into the left one, with the right neighbour's successor pointed back at it.\<close>

lemma merge_tags_chain:
  assumes C: "pchain (tag_at h) (as @ p # q # bs) e" and e: "e < 2 ^ 64"
    and h2: "h2 = upd_tag p (\<lambda>t. t\<lparr>block_size := u64_add (block_size t) (block_size (tag_at h q)),
      right_split := right_split (tag_at h q)\<rparr>) h"
    and h3: "h3 = (if right_split (tag_at h q) \<noteq> 0
      then upd_tag (right_split (tag_at h q)) (\<lambda>x. x\<lparr>left_split := p\<rparr>) h2 else h2)"
  shows "pchain (tag_at h3) (as @ p # bs) e"
    and "block_size (tag_at h3 p) = block_size (tag_at h p) + block_size (tag_at h q)"
proof -
  note op = pchain_order [OF C]
  have C': "pchain (tag_at h) ((as @ [p]) @ q # bs) e" using C by simp
  note oq = pchain_order [OF C']
  have q: "q \<noteq> p" "q \<notin> set as" using oq(1) [of q] oq(1) [of p] by auto
  have sum: "u64_add (block_size (tag_at h p)) (block_size (tag_at h q))
      = block_size (tag_at h p) + block_size (tag_at h q)"
    using oq(3) op(2) [of q] e by (intro u64_add_id) simp
  have r: "right_split (tag_at h q) \<noteq> 0 \<Longrightarrow> bs \<noteq> [] \<and> right_split (tag_at h q) = hd bs"
    using oq(6) by (auto split: if_splits)
  have far: "x \<noteq> p \<and> x \<noteq> q \<and> x \<notin> set as" if "x \<in> set bs" for x
    using that oq(2) [of x] oq(4) op(2) [of q] op(1) [of x] op(4) by auto
  have hp: "right_split (tag_at h q) \<noteq> p" using r far [of "hd bs"] op(5) by (cases "right_split (tag_at h q) = 0") auto
  have g3: "tag_at h3 p = (tag_at h p)\<lparr>block_size := block_size (tag_at h p) + block_size (tag_at h q),
      right_split := right_split (tag_at h q)\<rparr>" using hp by (simp add: h3 h2 sum)
  show "block_size (tag_at h3 p) = block_size (tag_at h p) + block_size (tag_at h q)" by (simp add: g3)
  have as: "agrees (tag_at h3 x) (tag_at h x)" if "x \<in> set as" for x
  proof -
    have "x \<noteq> p" using op(1) [OF that] by simp
    moreover have "right_split (tag_at h q) \<noteq> 0 \<Longrightarrow> x \<noteq> right_split (tag_at h q)"
      using r far [of "hd bs"] that by auto
    ultimately show ?thesis by (simp add: h3 h2 agrees_def)
  qed
  have "relinked (tag_at h) (tag_at h3) bs p"
    unfolding relinked_def
  proof
    fix x assume x: "x \<in> set bs"
    then have "bs \<noteq> []" by auto
    then have "right_split (tag_at h q) = hd bs" "hd bs \<noteq> 0"
      using oq(6,7) by (simp, metis list.set_sel(1))
    then show "right_split (tag_at h3 x) = right_split (tag_at h x)
      \<and> block_size (tag_at h3 x) = block_size (tag_at h x)
      \<and> left_split (tag_at h3 x) = (if x = hd bs then p else left_split (tag_at h x))"
      using far [OF x] hp by (simp add: h3 h2)
  qed
  then show "pchain (tag_at h3) (as @ p # bs) e"
    by (intro pchain_merge [OF C]) (use g3 as in auto)
qed

lemma melt_right_chain:
  assumes C: "pchain (tag_at h) (as @ p # q # bs) e" and e: "e < 2 ^ 64"
  shows "fst (melt_right p h) = p" and "pchain (tag_at (snd (melt_right p h))) (as @ p # bs) e"
    and "block_size (tag_at (snd (melt_right p h)) p) = block_size (tag_at h p) + block_size (tag_at h q)"
proof -
  let ?h1 = "remove_block q h"
  have q: "right_split (tag_at h p) = q" using pchain_order(6) [OF C] by simp
  have C1: "pchain (tag_at ?h1) (as @ p # q # bs) e" using C by (simp add: pchain_bodies [OF remove_block_body])
  have b: "block_size (tag_at ?h1 x) = block_size (tag_at h x)" for x
    using remove_block_body [of h q] by (simp add: same_bodies_def same_body_def)
  note m = merge_tags_chain [OF C1 e refl refl]
  show "fst (melt_right p h) = p" by (simp add: melt_right_def Let_def)
  show "pchain (tag_at (snd (melt_right p h))) (as @ p # bs) e"
    using m(1) unfolding melt_right_def Let_def q snd_conv .
  show "block_size (tag_at (snd (melt_right p h)) p) = block_size (tag_at h p) + block_size (tag_at h q)"
    using m(2) unfolding melt_right_def Let_def q snd_conv b .
qed

lemma melt_left_chain:
  assumes C: "pchain (tag_at h) (as @ p # q # bs) e" and e: "e < 2 ^ 64"
  shows "fst (melt_left q h) = p" and "pchain (tag_at (snd (melt_left q h))) (as @ p # bs) e"
    and "block_size (tag_at (snd (melt_left q h)) p) = block_size (tag_at h p) + block_size (tag_at h q)"
proof -
  have C': "pchain (tag_at h) ((as @ [p]) @ q # bs) e" using C by simp
  have p: "left_split (tag_at h q) = p" using pchain_order(8) [OF C'] by simp
  note m = merge_tags_chain [OF C e refl refl]
  have b: "block_size (tag_at (remove_block q g) x) = block_size (tag_at g x)" for g x
    using remove_block_body [of g q] by (simp add: same_bodies_def same_body_def)
  show "fst (melt_left q h) = p" by (simp add: melt_left_def Let_def p)
  show "pchain (tag_at (snd (melt_left q h))) (as @ p # bs) e"
    using m(1) unfolding melt_left_def Let_def p snd_conv pchain_bodies [OF remove_block_body] .
  show "block_size (tag_at (snd (melt_left q h)) p) = block_size (tag_at h p) + block_size (tag_at h q)"
    using m(2) unfolding melt_left_def Let_def p snd_conv b .
qed

subsection \<open>First fit\<close>

text \<open>What \<open>get_for_allocation\<close> does to the block it takes from bin \<open>idx\<close>.\<close>

definition take_block :: "nat \<Rightarrow> nat \<Rightarrow> nat \<Rightarrow> addr \<Rightarrow> 'a heap_mgr_scheme \<Rightarrow> 'a heap_mgr_scheme" where
  "take_block idx sz algn x h =
     (let h2 = upd_tag x (\<lambda>t. t\<lparr>held_size := sz, align_bytes := add_align_size x algn\<rparr>) (remove_block x h)
      in if left_split (tag_at h2 x) = 0 \<and> right_split (tag_at h2 x) = 0 then drop_complete idx h2 else h2)"

definition block_fits_request :: "'a heap_mgr_scheme \<Rightarrow> nat \<Rightarrow> nat \<Rightarrow> addr \<Rightarrow> bool" where
  "block_fits_request h sz algn x \<longleftrightarrow> available_size (tag_at h x) \<ge> u64_add sz (add_align_size x algn)"

text \<open>Every binned block has a tag of its own that is not damaged.\<close>

definition bins_sound :: "'a heap_mgr_scheme \<Rightarrow> (nat \<Rightarrow> addr list) \<Rightarrow> bool" where
  "bins_sound h bs \<longleftrightarrow> bins_repr h bs \<and>
     (\<forall>i<24. \<forall>x\<in>set (bs i). tags h x \<noteq> None \<and> magic (tag_at h x) = block_magic)"

lemma upd_tag_same: "tags h x \<noteq> None \<Longrightarrow> f (tag_at h x) = tag_at h x \<Longrightarrow> upd_tag x f h = h"
  by (auto simp: upd_tag_def put_tag_def tag_at_def fun_upd_idem)

lemma scan_bin_seg:
  assumes "dlseg (tag_at h) i prv xs p 0" "distinct (prv # xs)" "length xs < f"
    and "\<And>x. x \<in> set xs \<Longrightarrow> tags h x \<noteq> None \<and> magic (tag_at h x) = block_magic"
  shows "scan_bin f idx sz algn p h =
    (case find (block_fits_request h sz algn) xs of
       None \<Rightarrow> Some (0, h) | Some x \<Rightarrow> Some (x, take_block idx sz algn x h))"
  using assms
proof (induction xs arbitrary: f prv p)
  case Nil
  then obtain f' where "f = Suc f'" by (cases f) auto
  then show ?case using Nil by simp
next
  case (Cons x xs)
  obtain f' where f: "f = Suc f'" using Cons.prems(3) by (cases f) auto
  have x: "p = x" "x \<noteq> 0" "previous_tag (tag_at h x) = prv" "dlseg (tag_at h) i x xs (next_tag (tag_at h x)) 0"
    using Cons.prems(1) by auto
  have nx: "next_tag (tag_at h x) \<noteq> x"
    using dlseg_head [OF x(4)] Cons.prems(2) x(2) by (auto split: list.splits)
  have "repair_tag x (tag_at h x) = tag_at h x"
    using nx x(3) Cons.prems(2) Cons.prems(4) [of x] by (auto simp: repair_tag_def Let_def)
  then have same: "upd_tag x (repair_tag x) h = h"
    using Cons.prems(4) [of x] by (intro upd_tag_same) auto
  have IH: "scan_bin f' idx sz algn (next_tag (tag_at h x)) h =
    (case find (block_fits_request h sz algn) xs of
       None \<Rightarrow> Some (0, h) | Some x \<Rightarrow> Some (x, take_block idx sz algn x h))"
    using Cons.IH [OF x(4)] Cons.prems f by simp
  show ?case
    by (simp add: f x(1,2) same IH block_fits_request_def [of h sz algn x] take_block_def Let_def)
qed

lemma bins_nonzero: "bins_repr h bs \<Longrightarrow> i < 24 \<Longrightarrow> 0 \<notin> set (bs i)"
  using dlseg_nonzero unfolding bins_repr_def by blast

lemma scan_bin_first_fit:
  assumes B: "bins_sound h bs" and i: "idx < 24" and f: "length (bs idx) < f"
  shows "scan_bin f idx sz algn (bin_head h (int idx)) h =
    (case find (block_fits_request h sz algn) (bs idx) of
       None \<Rightarrow> Some (0, h) | Some x \<Rightarrow> Some (x, take_block idx sz algn x h))"
proof -
  have "dlseg (tag_at h) idx 0 (bs idx) (bin_head h (int idx)) 0" "distinct (bs idx)"
    using B i by (auto simp: bins_sound_def bins_repr_def)
  moreover from this have "0 \<notin> set (bs idx)" by (auto dest: dlseg_nonzero)
  ultimately show ?thesis using B i f by (intro scan_bin_seg) (auto simp: bins_sound_def)
qed

lemma take_block_tag:
  "tag_at (take_block idx sz algn x h) y = (if y = x then (tag_at (remove_block x h) x)
     \<lparr>held_size := sz, align_bytes := add_align_size x algn\<rparr> else tag_at (remove_block x h) y)"
  by (simp add: take_block_def Let_def)

lemma take_block_bins:
  assumes R: "bins_repr h bs" and i: "idx < 24" and x: "x \<in> set (bs idx)"
  shows "bins_repr (take_block idx sz algn x h) (bs(idx := remove1 x (bs idx)))"
proof -
  let ?b = "bs(idx := remove1 x (bs idx))"
  have B: "bins_repr (remove_block x h) ?b" using assms by (rule remove_block_member)
  have "x \<notin> set (?b j)" if "j < 24" for j
    using R i x that by (auto simp: bins_repr_def)
  then show ?thesis
    by (intro bins_repr_keep [OF B])
       (use B in \<open>auto simp: take_block_def Let_def bins_repr_def simp del: fun_upd_apply\<close>)
qed

subsection \<open>What an allocation guarantees\<close>

lemma add_align_size_spec:
  assumes "1 < algn" "algn < 2 ^ 32" "p + bt_offset + algn \<le> 2 ^ 64"
  shows "add_align_size p algn < algn" "(p + bt_offset + add_align_size p algn) mod algn = 0"
proof -
  let ?a = "p + bt_offset"
  have a: "addr_plus p bt_offset = ?a" using assms by (simp add: addr_plus_def u64_add_id)
  have n: "?a \<le> up_to_nearest ?a algn" "up_to_nearest ?a algn < ?a + algn"
    using assms by (auto intro!: up_to_nearest_bounds)
  have "u64_sub (up_to_nearest ?a algn) ?a = up_to_nearest ?a algn - ?a"
    using n assms by (intro u64_sub_id) auto
  then have e: "add_align_size p algn = up_to_nearest ?a algn - ?a"
    using n assms by (simp add: add_align_size_def a)
  show "add_align_size p algn < algn" using n by (simp add: e)
  have "?a + add_align_size p algn = up_to_nearest ?a algn" using n(1) by (simp add: e)
  moreover have "algn dvd up_to_nearest ?a algn" using assms by (intro up_to_nearest_dvd) auto
  ultimately show "(?a + add_align_size p algn) mod algn = 0" by simp
qed

lemma add_align_size_le: "algn < 2 ^ 32 \<Longrightarrow> p + bt_offset + algn \<le> 2 ^ 64 \<Longrightarrow> add_align_size p algn \<le> algn"
  using add_align_size_spec(1) [of algn p] by (cases "1 < algn") (auto simp: add_align_size_def)

text \<open>The state of a block handed out: the request is held, the tag, the alignment gap and the request
  fit into the block, and the start address is aligned.\<close>

definition handed_out :: "nat \<Rightarrow> nat \<Rightarrow> addr \<Rightarrow> block_tag \<Rightarrow> bool" where
  "handed_out sz algn p t \<longleftrightarrow> held_size t = sz \<and> used_part t \<le> block_size t
     \<and> actual_start p t = p + bt_offset + align_bytes t
     \<and> (1 < algn \<longrightarrow> actual_start p t mod algn = 0)"

lemma handed_outI:
  assumes "held_size t = sz" "align_bytes t = add_align_size p algn" "used_part t \<le> block_size t"
    "p + block_size t + 2 ^ 33 \<le> 2 ^ 64" "algn < 2 ^ 32"
  shows "handed_out sz algn p t"
proof -
  have b: "p + bt_offset + algn \<le> 2 ^ 64" "p + (bt_offset + align_bytes t) < 2 ^ 64"
    using assms by (auto simp: used_part_def)
  have "actual_start p t = p + bt_offset + align_bytes t"
    using b(2) by (simp add: actual_start_def addr_plus_def u64_add_id)
  then show ?thesis using assms add_align_size_spec(2) [OF _ assms(5) b(1)] by (simp add: handed_out_def)
qed

lemma split_tag_self:
  assumes "used_part (tag_at h p) < block_size (tag_at h p)" "p + block_size (tag_at h p) < 2 ^ 64"
    "right_split (tag_at h p) \<noteq> p"
  shows "tag_at (snd (split_tag p h)) p = (tag_at h p)\<lparr>right_split := p + used_part (tag_at h p),
    block_size := used_part (tag_at h p)\<rparr>"
proof -
  let ?t = "tag_at h p"
  have av: "available_size ?t = block_size ?t - used_part ?t" using assms by (intro available_size_eq) auto
  have q: "addr_plus (actual_start p ?t) (held_size ?t) = p + used_part ?t"
    using assms by (simp add: addr_plus_def actual_start_def u64_add_id used_part_def)
  have "used_part ?t \<noteq> 0" by (simp add: used_part_def bt_offset_def)
  moreover have "u64_sub (block_size ?t) (block_size ?t - used_part ?t) = used_part ?t"
    using assms by (simp add: u64_sub_id)
  ultimately show ?thesis using assms(3)
    by (simp add: split_tag_def q av Let_def new_tag_def)
qed

definition finish_block :: "addr \<Rightarrow> 'a heap_mgr_scheme \<Rightarrow> 'a heap_mgr_scheme" where
  "finish_block p h = (if available_size (tag_at h p) \<ge> min_block_size + bt_offset
     then (case split_tag p h of (q, h') \<Rightarrow> insert_block q (-1) h') else h)"

lemma finish_block_self:
  assumes u: "used_part (tag_at h p) \<le> block_size (tag_at h p)" and w: "p + block_size (tag_at h p) < 2 ^ 64"
    "right_split (tag_at h p) \<noteq> p"
  shows "held_size (tag_at (finish_block p h) p) = held_size (tag_at h p)"
    "align_bytes (tag_at (finish_block p h) p) = align_bytes (tag_at h p)"
    "used_part (tag_at (finish_block p h) p) \<le> block_size (tag_at (finish_block p h) p)"
proof -
  let ?t = "tag_at h p" and ?h = "snd (split_tag p h)"
  have "held_size (tag_at (finish_block p h) p) = held_size ?t
    \<and> align_bytes (tag_at (finish_block p h) p) = align_bytes ?t
    \<and> used_part (tag_at (finish_block p h) p) \<le> block_size (tag_at (finish_block p h) p)"
  proof (cases "available_size ?t \<ge> min_block_size + bt_offset")
    case True
    have "available_size ?t = block_size ?t - used_part ?t"
      using u w by (intro available_size_eq) auto
    then have "used_part ?t < block_size ?t" using True by (simp add: tag_consts)
    note sp = split_tag_self [OF this w]
    have "same_body (tag_at (insert_block (fst (split_tag p h)) (-1) ?h) p) (tag_at ?h p)"
      using insert_block_body [of ?h] by (simp add: same_bodies_def)
    then show ?thesis using True
      by (simp add: finish_block_def case_prod_unfold sp same_body_def used_part_def)
  next
    case False then show ?thesis using u by (simp add: finish_block_def)
  qed
  then show "held_size (tag_at (finish_block p h) p) = held_size ?t"
    "align_bytes (tag_at (finish_block p h) p) = align_bytes ?t"
    "used_part (tag_at (finish_block p h) p) \<le> block_size (tag_at (finish_block p h) p)" by blast+
qed

lemma finish_block_handed_out:
  assumes H: "handed_out sz algn p (tag_at h p)" and w: "p + block_size (tag_at h p) < 2 ^ 64"
    "right_split (tag_at h p) \<noteq> p"
  shows "handed_out sz algn p (tag_at (finish_block p h) p)"
  using H finish_block_self [OF _ w] by (auto simp: handed_out_def actual_start_def)

lemma get_for_allocation_eq:
  "get_for_allocation f sz0 algn h =
     (case scan_bin f (calculate_block_index (max sz0 16)) (max sz0 16) algn
         (bin_head h (int (calculate_block_index (max sz0 16)))) h of
        None \<Rightarrow> None
      | Some (found, h1) \<Rightarrow>
          (case (if found = 0 then create_tag (max sz0 16) algn h1 else Some (found, h1)) of
             None \<Rightarrow> None
           | Some (tag, h2) \<Rightarrow>
               (if tag = 0 then Some (0, h2)
                else Some (tag, (finish_block tag h2)\<lparr>remaining_memory := u64_sub
                  (remaining_memory (finish_block tag h2)) (block_size (tag_at (finish_block tag h2) tag))\<rparr>))))"
  unfolding get_for_allocation_def Let_def finish_block_def ..

definition free_ok :: "'a heap_mgr_scheme \<Rightarrow> addr \<Rightarrow> bool" where
  "free_ok h x \<longleftrightarrow> held_size (tag_at h x) = 0 \<and> align_bytes (tag_at h x) = 0
     \<and> bt_offset \<le> block_size (tag_at h x) \<and> x + block_size (tag_at h x) + 2 ^ 33 \<le> 2 ^ 64
     \<and> right_split (tag_at h x) \<noteq> x"

lemma take_block_handed_out:
  assumes F: "free_ok h x" and fit: "block_fits_request h sz algn x" and b: "sz < 2 ^ 32" "algn < 2 ^ 32"
  shows "handed_out sz algn x (tag_at (take_block idx sz algn x h) x)"
    and "x + block_size (tag_at (take_block idx sz algn x h) x) < 2 ^ 64"
    and "right_split (tag_at (take_block idx sz algn x h) x) \<noteq> x"
proof -
  let ?t = "tag_at h x" and ?aa = "add_align_size x algn"
  let ?t' = "tag_at (take_block idx sz algn x h) x"
  have body: "same_body (tag_at (remove_block x h) x) ?t"
    using remove_block_body [of h x] by (simp add: same_bodies_def)
  then have t': "held_size ?t' = sz" "align_bytes ?t' = ?aa" "block_size ?t' = block_size ?t"
    "right_split ?t' = right_split ?t" by (simp_all add: take_block_tag same_body_def)
  have aa: "?aa \<le> algn" using F b by (intro add_align_size_le) (auto simp: free_ok_def)
  have "u64_add sz ?aa = sz + ?aa" using aa b by (intro u64_add_id) simp
  moreover have "available_size ?t = block_size ?t - bt_offset"
    using F available_size_eq [of ?t] by (simp add: free_ok_def used_part_def)
  ultimately have "used_part ?t' \<le> block_size ?t'"
    using fit F t' by (auto simp: block_fits_request_def used_part_def free_ok_def)
  then show "handed_out sz algn x ?t'"
    using t' F b by (intro handed_outI) (simp_all add: free_ok_def)
  show "x + block_size ?t' < 2 ^ 64" "right_split ?t' \<noteq> x" using F t' by (auto simp: free_ok_def)
qed

lemma region_size_for_ge:
  assumes "sz + region_size \<le> 2 ^ 64" shows "sz \<le> region_size_for sz"
  using assms up_to_nearest_bounds(1) [of region_size sz] nearest_ge [of sz]
  by (auto simp: region_size_for_def)

definition request_size :: "nat \<Rightarrow> nat \<Rightarrow> nat" where
  "request_size sz algn = max (sz + bt_offset) algn + algn"

lemma create_tag_handed_out:
  assumes R: "region_inv h" and b: "sz < 2 ^ 32" "algn < 2 ^ 32"
    and c: "find_and_claim (kmm_lock h) (request_size sz algn) = Some (a, k)" "a \<noteq> 0"
  shows "\<exists>h'. create_tag sz algn h = Some (a - 64, h') \<and> a - 64 \<noteq> 0
    \<and> handed_out sz algn (a - 64) (tag_at h' (a - 64))
    \<and> a - 64 + block_size (tag_at h' (a - 64)) < 2 ^ 64 \<and> right_split (tag_at h' (a - 64)) = 0"
proof -
  let ?r = "request_size sz algn"
  have r: "u64_add (max (u64_add sz bt_offset) algn) algn = ?r"
    using b by (simp add: request_size_def u64_add_def bt_offset_def max_def)
  have small: "?r < 2 ^ 34" using b by (simp add: request_size_def bt_offset_def)
  then have ok: "?r + region_size \<le> 2 ^ 64" by (simp add: size_consts)
  obtain a' k' where "find_and_claim (kmm_lock h) ?r = Some (a', k')" "search_post (kmm_lock h) ?r a' k'"
    using find_and_claim_spec [of "kmm_lock h" ?r] R ok by auto
  then have post: "search_post (kmm_lock h) ?r a k" using c(1) by simp
  then have v: "valid_block a ?r" and sub: "pages_of a (region_size_for ?r) \<subseteq> {..<512 * num_regions_of (kmm_lock h)}"
    using c(2) by (auto simp: search_post_def)
  have page: "page_size \<le> a" using v c(2) by (rule valid_block_page)
  have "num_status_bytes h < 2 ^ 32" using R by (simp add: region_inv_def region_wf_def)
  then have n: "512 * num_regions_of (kmm_lock h) < 2 ^ 50" by (simp add: kmm_lock_def suspend_frame_def)
  have ge: "?r \<le> region_size_for ?r" using ok by (rule region_size_for_ge)
  have "a div page_size \<in> pages_of a (region_size_for ?r)"
    using div_le_mono [OF block_pages_pos [OF ok], of page_size] by (simp add: pages_of_def)
  then have "a div page_size < 2 ^ 50" using sub n by fastforce
  then have a62: "a < 2 ^ 62" by (simp add: size_consts div_less_iff_less_mult)
  have big: "region_size_for ?r < 2 ^ 35"
    using small up_to_nearest_bounds(2) [of region_size ?r] ok
    by (auto simp: region_size_for_def nearest_def block_sizes size_consts)
  have s: "u64_sub a 64 = a - 64" using page a62 by (simp add: u64_sub_id size_consts)
  let ?h1 = "kmm_unlock (k\<lparr>watermark := max (a - 64) (watermark k)\<rparr>)"
  let ?t = "new_tag (region_size_for ?r) sz (-1) 0 0 (add_align_size (a - 64) algn)"
  have cr: "create_tag sz algn h = Some (a - 64, put_tag (a - 64) ?t ?h1)"
    using page unfolding create_tag_def Let_def r allocate_kernel_block_def c(1)
    by (simp add: s size_consts)
  have aa: "add_align_size (a - 64) algn \<le> algn"
    using b page a62 by (intro add_align_size_le) (auto simp: bt_offset_def)
  then have "used_part ?t \<le> block_size ?t"
    using ge by (simp add: used_part_def new_tag_def request_size_def)
  then have "handed_out sz algn (a - 64) ?t"
    using b big a62 by (intro handed_outI) (auto simp: new_tag_def)
  then show ?thesis using cr big a62 page by (simp add: new_tag_def size_consts)
qed

subsection \<open>Finding the tag of a block\<close>

lemma find_tag_loop_steps:
  assumes "magic (tag_at h p) = block_magic" "algn = 0 \<or> i + d \<le> algn"
    and "\<And>a. p < a \<Longrightarrow> a \<le> p + d \<Longrightarrow> magic (tag_at h a) \<noteq> block_magic"
  shows "find_tag_loop h algn i (p + d) = p"
  using assms(2,3)
proof (induction d arbitrary: i)
  case 0
  then show ?case using assms(1) by (simp add: find_tag_loop.simps)
next
  case (Suc d)
  have "find_tag_loop h algn i (p + Suc d) = find_tag_loop h algn (Suc i) (p + d)"
    using Suc.prems(1) Suc.prems(2) [of "p + Suc d"]
    by (subst find_tag_loop.simps) (auto simp del: find_tag_loop.simps)
  then show ?case using Suc.IH [of "Suc i"] Suc.prems by simp
qed


definition aligned_heap :: heap_mgr where
  "aligned_heap = \<lparr>status_bytes = [], num_status_bytes = 0, kernel_heap_begin = 0, watermark = 0,
     ptables = (\<lambda>_ _. zero_entry), cr3 = 0, kernel_cr3 = 0, suspended_cr3 = 0, active_frame = 0,
     frames = (\<lambda>_. new_uframe 0 0 0),
     tags = [0x2000 \<mapsto> new_tag 0x4000 100 (-1) 0 0 32], complete_regions = replicate 24 0,
     available_blocks = replicate 24 0, remaining_memory = 0, total_memory = 0, bytes = (\<lambda>_. 0)\<rparr>"



text \<open>One free block of 1024 bytes in the bin that a request of 600 bytes searches.\<close>

definition one_free :: heap_mgr where
  "one_free = aligned_heap\<lparr>tags := [0x2000 \<mapsto> (new_tag 0x400 0 2 0 0 0)],
     available_blocks := (replicate 24 0)[2 := 0x2000]\<rparr>"

lemma one_free_bins: "bins_sound one_free ((\<lambda>_. [])(2 := [0x2000]))"
proof -
  have t: "tag_at one_free 0x2000 = new_tag 0x400 0 2 0 0 0" by (simp add: one_free_def tag_at_def)
  have "bins_sized one_free" by (simp add: bins_sized_def one_free_def aligned_heap_def)
  moreover have "bin_head one_free (int i) = (if i = 2 then 0x2000 else 0)" if "i < 24" for i
    using that by (simp add: bin_head_def one_free_def aligned_heap_def nth_list_update)
  moreover have "tags one_free 0x2000 \<noteq> None" by (simp add: one_free_def)
  ultimately show ?thesis by (auto simp: bins_sound_def bins_repr_def t new_tag_def)
qed


text \<open>
  C4. Splitting a block keeps its region tiled by blocks, without gap or overlap, and melting the two
  parts again restores the block.
\<close>

theorem split_melt_tiles:
  assumes "pchain (tag_at h) (as @ p # bs) e" "used_part (tag_at h p) < block_size (tag_at h p)" "e < 2 ^ 64"
    "split_tag p h = (q, h1)" "melt_right p h1 = (p', h2)"
  shows "q = p + used_part (tag_at h p) \<and> pchain (tag_at h1) (as @ p # q # bs) e
    \<and> p' = p \<and> pchain (tag_at h2) (as @ p # bs) e
    \<and> block_size (tag_at h2 p) = block_size (tag_at h p)"
proof -
  note sp = split_tag_chain [OF assms(1-3), unfolded assms(4) fst_conv snd_conv]
  note m = melt_right_chain [OF sp(2) assms(3), unfolded assms(5) fst_conv snd_conv]
  show ?thesis using sp m assms(2) by auto
qed

theorem split_melt_tiles_witness:
  "pchain (tag_at (snd (split_tag 0x2000 aligned_heap))) ([] @ 0x2000 # 0x20C4 # []) 0x6000"
proof -
  have t: "tag_at aligned_heap 0x2000 = new_tag 0x4000 100 (-1) 0 0 32"
    by (simp add: aligned_heap_def tag_at_def)
  have C: "pchain (tag_at aligned_heap) ([] @ 0x2000 # []) 0x6000"
    by (simp add: pchain_def t new_tag_def)
  have u: "used_part (tag_at aligned_heap 0x2000) = 0xC4"
    by (simp add: t used_part_def new_tag_def bt_offset_def)
  obtain q h1 where sp: "split_tag 0x2000 aligned_heap = (q, h1)" by fastforce
  obtain p' h2 where m: "melt_right 0x2000 h1 = (p', h2)" by fastforce
  have "used_part (tag_at aligned_heap 0x2000) < block_size (tag_at aligned_heap 0x2000)"
    by (simp add: u) (simp add: t new_tag_def)
  from split_melt_tiles [OF C this _ sp m] show ?thesis by (auto simp: u sp)
qed

subsection \<open>The bin interface\<close>

text \<open>
  The free bins as an abstract store of disjoint lists: insertion puts a fresh block in front of its bin,
  removal takes a block out of its bin and makes it fresh again.
\<close>

locale free_bins =
  fixes repr :: "'h \<Rightarrow> (nat \<Rightarrow> addr list) \<Rightarrow> bool" and fresh :: "'h \<Rightarrow> addr \<Rightarrow> bool"
    and ins :: "addr \<Rightarrow> int \<Rightarrow> 'h \<Rightarrow> 'h" and del :: "addr \<Rightarrow> 'h \<Rightarrow> 'h"
  assumes ins_law: "repr h bs \<Longrightarrow> i < 24 \<Longrightarrow> fresh h x \<Longrightarrow> (\<And>j. j < 24 \<Longrightarrow> x \<notin> set (bs j))
      \<Longrightarrow> repr (ins x (int i) h) (bs(i := x # bs i))"
    and del_law: "repr h bs \<Longrightarrow> i < 24 \<Longrightarrow> x \<in> set (bs i) \<Longrightarrow> repr (del x h) (bs(i := remove1 x (bs i)))"
    and del_fresh: "repr h bs \<Longrightarrow> i < 24 \<Longrightarrow> x \<in> set (bs i) \<Longrightarrow> fresh (del x h) x"
    and bins_apart: "repr h bs \<Longrightarrow> i < 24 \<Longrightarrow> j < 24 \<Longrightarrow> x \<in> set (bs i) \<Longrightarrow> x \<in> set (bs j) \<Longrightarrow> i = j"
    and bins_distinct: "repr h bs \<Longrightarrow> i < 24 \<Longrightarrow> distinct (bs i)"
begin

lemma ins_del:
  assumes "repr h bs" "i < 24" "fresh h x" "\<And>j. j < 24 \<Longrightarrow> x \<notin> set (bs j)"
  shows "repr (del x (ins x (int i) h)) bs"
  using del_law [OF ins_law [OF assms], of i x] assms(2) by simp

lemma move:
  assumes R: "repr h bs" and i: "i < 24" and x: "x \<in> set (bs i)" and j: "j < 24"
  defines "bs' \<equiv> bs(i := remove1 x (bs i))"
  shows "repr (ins x (int j) (del x h)) (bs'(j := x # bs' j))"
proof (rule ins_law)
  show "repr (del x h) bs'" unfolding bs'_def using R i x by (rule del_law)
  show "fresh (del x h) x" using R i x by (rule del_fresh)
  show "x \<notin> set (bs' k)" if "k < 24" for k
    using bins_apart [OF R i that x] bins_distinct [OF R i] by (auto simp: bs'_def)
qed (rule j)

end

definition unlinked :: "'a heap_mgr_scheme \<Rightarrow> addr \<Rightarrow> bool" where
  "unlinked h x \<longleftrightarrow> x \<noteq> 0 \<and> previous_tag (tag_at h x) = 0 \<and> next_tag (tag_at h x) = 0"

interpretation kb: free_bins bins_repr unlinked insert_block remove_block
proof unfold_locales
  fix h :: "'a heap_mgr_scheme" and bs i j x
  show "bins_repr (insert_block x (int i) h) (bs(i := x # bs i))"
    if "bins_repr h bs" "i < 24" "unlinked h x" "\<And>j. j < 24 \<Longrightarrow> x \<notin> set (bs j)"
    using that by (intro insert_block_fresh) (auto simp: unlinked_def)
  show "bins_repr (remove_block x h) (bs(i := remove1 x (bs i)))"
    if "bins_repr h bs" "i < 24" "x \<in> set (bs i)"
    using that by (rule remove_block_member)
  show "unlinked (remove_block x h) x" if R: "bins_repr h bs" "i < 24" "x \<in> set (bs i)"
  proof -
    obtain ys zs where s: "bs i = ys @ x # zs" using R(3) split_list by metis
    show ?thesis using remove_block_tags(1) [OF R(1,2) s, of x] remove_block_shape(1) [OF R(1,2) s]
      by (simp add: unlinked_def)
  qed
  show "i = j" if "bins_repr h bs" "i < 24" "j < 24" "x \<in> set (bs i)" "x \<in> set (bs j)"
    using that by (auto simp: bins_repr_def)
  show "distinct (bs i)" if "bins_repr h bs" "i < 24" using that by (simp add: bins_repr_def)
qed

text \<open>
  C6. Moving a free block from one bin to another keeps all 24 bins well-formed doubly linked lists:
  the block leaves its old list and heads the new one, and no other list changes.
\<close>

theorem rebin_block:
  assumes "bins_repr h bs" "i < 24" "x \<in> set (bs i)" "j < 24"
  shows "bins_repr (insert_block x (int j) (remove_block x h))
    ((bs(i := remove1 x (bs i)))(j := x # (bs(i := remove1 x (bs i))) j))"
  using kb.move [OF assms] .

theorem rebin_block_witness:
  "bins_repr (insert_block 0x2000 (int 5) (remove_block 0x2000 one_free))
    ((((\<lambda>_. [])(2 := [0x2000]))(2 := remove1 0x2000 [0x2000]))(5 := [0x2000]))"
  using rebin_block [of one_free "(\<lambda>_. [])(2 := [0x2000])" 2 "0x2000" 5] one_free_bins
  by (simp add: bins_sound_def)

subsection \<open>Melting to the left\<close>

text \<open>
  Two neighbouring 512-byte blocks of a split region: the left one is free, in the bin of its size, and
  the right one is in use.
\<close>

definition left_free :: heap_mgr where
  "left_free = aligned_heap\<lparr>tags := [0x2000 \<mapsto> new_tag 0x200 0 1 0 0x2200 0,
     0x2200 \<mapsto> new_tag 0x200 400 (-1) 0x2000 0 0], available_blocks := (replicate 24 0)[1 := 0x2000]\<rparr>"

text \<open>The observations on the heap after releasing the right block.\<close>

lemma left_free_release:
  "map_option (\<lambda>h. (tag_at h 0x2000, bin_head h 1, bin_head h 2, bin_head h (-1),
      length (available_blocks h), length (complete_regions h))) (deallocate 3 0x2240 0 left_free)
    = Some (new_tag 0x400 0 2 0 0 0, 0x2000, 0x2000, 0, 24, 24)"
  by code_simp

lemma bin_of: "calculate_block_index 700 = 2" "calculate_block_index 256 = 1"
  by (simp_all add: calculate_block_index_def clzl_def bit_len.simps tag_consts)

text \<open>Taking an unsplit block that fits and is too small to be split, from the head of the bin searched.\<close>

text \<open>Taking an unsplit block of 1024 bytes from the head of the bin searched.\<close>

lemma scan_head_block:
  assumes sz: "sz < 2 ^ 32" and p: "p \<noteq> 0" and t: "tag_at h p = new_tag 0x400 held j 0 0 0"
    and room: "held + bt_offset + sz \<le> 0x400" and rm: "h1 = remove_block p (upd_tag p (repair_tag p) h)"
  shows "scan_bin (Suc f) i sz 0 p h = Some (p, drop_complete i
      (upd_tag p (\<lambda>t. t\<lparr>held_size := sz, align_bytes := 0\<rparr>) h1))"
    and "tag_at h1 p = new_tag 0x400 held (-1) 0 0 0"
proof -
  let ?t = "new_tag 0x400 held j 0 0 0"
  have rt: "repair_tag p ?t = ?t" using p by (simp add: repair_tag_def new_tag_def)
  show h1: "tag_at h1 p = new_tag 0x400 held (-1) 0 0 0"
    using p t by (simp add: rm remove_block_def repair_tag_def Let_def new_tag_def)
  have aa: "add_align_size p 0 = 0" by (simp add: add_align_size_def)
  have "available_size ?t = 0x400 - used_part ?t"
    using room available_size_eq [of ?t] by (simp add: used_part_def new_tag_def)
  then have fit: "u64_add sz 0 \<le> available_size ?t"
    using room sz by (simp add: used_part_def new_tag_def u64_add_id)
  have b: "left_split (tag_at h1 p) = 0" "right_split (tag_at h1 p) = 0" by (simp_all add: h1 new_tag_def)
  show "scan_bin (Suc f) i sz 0 p h = Some (p, drop_complete i
      (upd_tag p (\<lambda>t. t\<lparr>held_size := sz, align_bytes := 0\<rparr>) h1))"
    using p fit b by (simp add: t rt aa rm [symmetric] Let_def)
qed

lemma allocate_from_head:
  assumes idx: "calculate_block_index sz = i" and sz: "16 \<le> sz" "sz < 2 ^ 32"
    and h: "bin_head h (int i) = p" "p \<noteq> 0" "p < 2 ^ 32"
    and t: "tag_at h p = new_tag 0x400 held j 0 0 0" and room: "held + bt_offset + sz \<le> 0x400"
    and rm: "h1 = remove_block p (upd_tag p (repair_tag p) h)"
    and h2: "h2 = finish_block p (drop_complete i (upd_tag p (\<lambda>t. t\<lparr>held_size := sz, align_bytes := 0\<rparr>) h1))"
  shows "\<exists>v. allocate (Suc f) sz 0 h = Some (p + bt_offset, h2\<lparr>remaining_memory := v\<rparr>)"
proof -
  let ?h1 = "drop_complete i (upd_tag p (\<lambda>t. t\<lparr>held_size := sz, align_bytes := 0\<rparr>) h1)"
  note scan = scan_head_block [OF sz(2) h(2) t room rm]
  have "align_bytes (tag_at h2 p) = align_bytes (tag_at ?h1 p)"
    unfolding h2 using room h by (intro finish_block_self) (simp_all add: scan(2) used_part_def new_tag_def)
  then have al: "align_bytes (tag_at h2 p) = 0" by simp
  have m: "max sz 16 = sz" using sz by simp
  have "get_for_allocation (Suc f) sz 0 h
      = Some (p, h2\<lparr>remaining_memory := u64_sub (remaining_memory h2) (block_size (tag_at h2 p))\<rparr>)"
    unfolding get_for_allocation_eq m idx h(1) scan(1) h2 using h(2) by simp
  then have "allocate (Suc f) sz 0 h = Some (p + bt_offset,
      h2\<lparr>remaining_memory := u64_sub (remaining_memory h2) (block_size (tag_at h2 p))\<rparr>)"
    using h(2,3) sz al by (simp add: allocate_def actual_start_def addr_plus_def u64_add_def bt_offset_def)
  then show ?thesis by blast
qed


end
