(* ===== verification/Paging.thy ===== *)
theory Paging
  imports Block_Chain
begin

text \<open>
  The mapping half of \<open>kernel_memory_mgr\<close>: building page tables, the four routines that fill leaf
  entries, the allocation of page tables from the kernel heap, the user and DMA block operations and
  the start-up code.  The code is recursive through \<open>allocate_pt\<close>: a fresh region that is not yet
  mapped is mapped by the same routines that asked for it.  The routines therefore take the page-table
  source as an argument, and \<open>allocate_pt\<close> ties the knot with a depth; \<open>None\<close> is an exhausted depth or
  bin walk.  The translation caches of the processor are not modelled, so \<open>tlb_flush\<close> and \<open>invlpg\<close>
  have no counterpart.
\<close>

type_synonym 'h pt_source = "'h \<Rightarrow> (addr \<times> 'h) option"

subsection \<open>Building tables\<close>

definition build_new_pt ::
  "'a heap_mgr_scheme pt_source \<Rightarrow> addr \<Rightarrow> nat \<Rightarrow> bool \<Rightarrow> 'a heap_mgr_scheme pt_source" where
  "build_new_pt alloc tbl idx wt h =
     (case alloc h of
        None \<Rightarrow> None
      | Some (result, h1) \<Rightarrow>
          Some (result, if result \<noteq> 0
            then put_pte tbl idx (zero_entry\<lparr>present := True, pte_write := True, user_access := True,
                   write_thru := wt, physical_address := pte_frame result\<rparr>) h1
            else h1))"

text \<open>What \<open>__get_table\<close> does to an upper-level entry it passes through.\<close>

definition touch_pte :: "bool \<Rightarrow> pt_entry \<Rightarrow> pt_entry" where
  "touch_pte wt e = e\<lparr>write_thru := wt, user_access := True\<rparr>"

definition get_table ::
  "'a heap_mgr_scheme pt_source \<Rightarrow> addr \<Rightarrow> bool \<Rightarrow> addr \<Rightarrow> 'a heap_mgr_scheme pt_source" where
  "get_table alloc of_page wt pm h =
     (let i4 = pml4_idx of_page; i3 = pdp_idx of_page; i2 = pd_idx of_page;
          e4 = ptables h pm i4 in
      if present e4 then
        (let h1 = put_pte pm i4 (touch_pte wt e4) h; pdp = pte_target e4; e3 = ptables h1 pdp i3 in
         if present e3 then
           (let h2 = put_pte pdp i3 (touch_pte wt e3) h1; pd = pte_target e3; e2 = ptables h2 pd i2 in
            if present e2 then Some (pte_target e2, put_pte pd i2 (touch_pte wt e2) h2)
            else build_new_pt alloc pd i2 wt h2)
         else
           (case build_new_pt alloc pdp i3 wt h1 of
              None \<Rightarrow> None
            | Some (pd, h2) \<Rightarrow> (if pd \<noteq> 0 then build_new_pt alloc pd i2 wt h2 else Some (0, h2))))
      else
        (case build_new_pt alloc pm i4 wt h of
           None \<Rightarrow> None
         | Some (pdp, h1) \<Rightarrow>
             (if pdp = 0 then Some (0, h1)
              else case build_new_pt alloc pdp i3 wt h1 of
                None \<Rightarrow> None
              | Some (pd, h2) \<Rightarrow> (if pd \<noteq> 0 then build_new_pt alloc pd i2 wt h2 else Some (0, h2)))))"

subsection \<open>Filling leaf entries\<close>

text \<open>
  The page loop the mapping routines share.  \<open>wr i cur e\<close> is the entry that page number \<open>i\<close> at address
  \<open>cur\<close> gets in place of \<open>e\<close>, or \<open>None\<close> where the code skips the page; \<open>rt\<close> is the table root the
  routine passes to \<open>__get_table\<close>.  The flag of the result is False after an early \<open>return nullptr\<close>.
\<close>

fun map_loop ::
  "'a heap_mgr_scheme pt_source \<Rightarrow> bool \<Rightarrow> ('a heap_mgr_scheme \<Rightarrow> addr) \<Rightarrow> (nat \<Rightarrow> addr \<Rightarrow> pt_entry \<Rightarrow> pt_entry option)
   \<Rightarrow> nat \<Rightarrow> nat \<Rightarrow> addr \<Rightarrow> addr \<Rightarrow> 'a heap_mgr_scheme \<Rightarrow> (bool \<times> 'a heap_mgr_scheme) option" where
  "map_loop alloc wt rt wr 0 i cur pt h = Some (True, h)"
| "map_loop alloc wt rt wr (Suc n) i cur pt h =
     (case (if i \<noteq> 0 \<and> page_idx cur = 0 then get_table alloc cur wt (rt h) h else Some (pt, h)) of
        None \<Rightarrow> None
      | Some (pt', h1) \<Rightarrow>
          (if pt' = 0 then Some (False, h1)
           else
             (let h2 = (case wr i cur (ptables h1 pt' (page_idx cur)) of
                          None \<Rightarrow> h1
                        | Some e \<Rightarrow> put_pte pt' (page_idx cur) e h1)
              in map_loop alloc wt rt wr n (Suc i) (addr_plus cur page_size) pt' h2)))"

definition map_pages ::
  "'a heap_mgr_scheme pt_source \<Rightarrow> bool \<Rightarrow> ('a heap_mgr_scheme \<Rightarrow> addr) \<Rightarrow> (nat \<Rightarrow> addr \<Rightarrow> pt_entry \<Rightarrow> pt_entry option)
   \<Rightarrow> addr \<Rightarrow> nat \<Rightarrow> 'a heap_mgr_scheme pt_source" where
  "map_pages alloc wt rt wr start pages h =
     (case get_table alloc start wt (rt h) h of
        None \<Rightarrow> None
      | Some (pt, h1) \<Rightarrow>
          (if pt = 0 then Some (0, h1)
           else case map_loop alloc wt rt wr pages 0 start pt h1 of
             None \<Rightarrow> None
           | Some (ok, h2) \<Rightarrow> Some (if ok then start else 0, h2)))"

definition kernel_pte :: "bool \<Rightarrow> addr \<Rightarrow> pt_entry \<Rightarrow> pt_entry option" where
  "kernel_pte gl cur e =
     (if present e \<and> (global e \<or> physical_address e = cur div 2 ^ 12) then None
      else Some (zero_entry\<lparr>present := True, pte_write := True, global := gl,
             physical_address := pte_frame cur\<rparr>))"

definition map_kernel_pages ::
  "'a heap_mgr_scheme pt_source \<Rightarrow> addr \<Rightarrow> nat \<Rightarrow> bool \<Rightarrow> 'a heap_mgr_scheme pt_source" where
  "map_kernel_pages alloc start pages gl h =
     (if start = 0 then Some (0, h)
      else map_pages alloc False cr3 (\<lambda>i. kernel_pte gl) start pages h)"

definition mmio_pte :: "addr \<Rightarrow> pt_entry" where
  "mmio_pte cur = zero_entry\<lparr>present := True, pte_write := True, write_thru := True, global := True,
     physical_address := pte_frame cur\<rparr>"

definition map_mmio_pages ::
  "'a heap_mgr_scheme pt_source \<Rightarrow> addr \<Rightarrow> nat \<Rightarrow> 'a heap_mgr_scheme pt_source" where
  "map_mmio_pages alloc start pages h =
     (if start = 0 then Some (0, h)
      else map_pages alloc True cr3 (\<lambda>i cur e. Some (mmio_pte cur)) start pages h)"

definition uncached_pte :: "addr \<Rightarrow> pt_entry" where
  "uncached_pte cur = zero_entry\<lparr>present := True, pte_write := True, cache_disable := True,
     global := True, physical_address := pte_frame cur\<rparr>"

definition map_uncached_mmio_pages ::
  "'a heap_mgr_scheme pt_source \<Rightarrow> addr \<Rightarrow> nat \<Rightarrow> 'a heap_mgr_scheme pt_source" where
  "map_uncached_mmio_pages alloc start pages h =
     (if start = 0 then Some (0, h)
      else map_pages alloc True cr3 (\<lambda>i cur e. Some (uncached_pte cur)) start pages h)"

definition user_pte :: "addr \<Rightarrow> bool \<Rightarrow> bool \<Rightarrow> pt_entry" where
  "user_pte phys w x = zero_entry\<lparr>present := True, pte_write := w, user_access := True,
     physical_address := pte_frame phys, execute_disable := \<not> x\<rparr>"

definition map_user_pages ::
  "'a heap_mgr_scheme pt_source \<Rightarrow> addr \<Rightarrow> addr \<Rightarrow> nat \<Rightarrow> addr \<Rightarrow> bool \<Rightarrow> bool \<Rightarrow> 'a heap_mgr_scheme pt_source" where
  "map_user_pages alloc start_vaddr start_paddr pages pm w x h =
     (if start_vaddr \<noteq> 0 \<and> start_paddr \<noteq> 0 \<and> pages \<noteq> 0 \<and> pm \<noteq> 0
      then map_pages alloc False (\<lambda>h. pm)
             (\<lambda>i cur e. Some (user_pte (u64_add start_paddr (i * page_size)) w x)) start_vaddr pages h
      else Some (0, h))"

subsection \<open>Page tables from the kernel heap\<close>

definition pt_bytes :: nat where
  "pt_bytes = 8 * page_table_length"

definition pt_region :: nat where
  "pt_region = region_size_for (up_to_nearest (pt_bytes + bt_offset) page_size * 8)"

definition pt_bin :: nat where
  "pt_bin = calculate_block_index (pt_bytes + bt_offset)"

fun scan_pt_bin :: "nat \<Rightarrow> addr \<Rightarrow> 'a heap_mgr_scheme pt_source" where
  "scan_pt_bin 0 tag h = None"
| "scan_pt_bin (Suc f) tag h =
     (if tag = 0 then Some (0, h)
      else
        (let h1 = upd_tag tag (\<lambda>t. t\<lparr>align_bytes := add_align_size tag page_size\<rparr>) h in
         if available_size (tag_at h1 tag) \<ge> pt_bytes then
           (let h2 = remove_block tag h1; t = tag_at h2 tag;
                h3 = (if left_split t = 0 \<and> right_split t = 0 then drop_complete pt_bin h2 else h2)
            in Some (tag, upd_tag tag (\<lambda>t. t\<lparr>held_size := pt_bytes\<rparr>) h3))
         else
           (let h2 = upd_tag tag (\<lambda>t. t\<lparr>align_bytes := 0\<rparr>) h1
            in scan_pt_bin f (next_tag (tag_at h2 tag)) h2)))"

definition zero_table :: "addr \<Rightarrow> 'a heap_mgr_scheme \<Rightarrow> 'a heap_mgr_scheme" where
  "zero_table t h = (zero_bytes t page_size h)\<lparr>ptables := (ptables h)(t := (\<lambda>i. zero_entry))\<rparr>"

text \<open>
  \<open>push_back\<close> on the active frame's list of page-table blocks; the lock is dropped around it when the
  caller holds it (\<open>lk\<close>), which resumes and suspends the user frame once more.
\<close>

definition record_pt_block :: "bool \<Rightarrow> addr \<Rightarrow> 'a heap_mgr_scheme \<Rightarrow> 'a heap_mgr_scheme" where
  "record_pt_block lk tag h =
     (if active_frame h \<noteq> 0 then
        (let h1 = (if lk then kmm_unlock h else h); fr = active_frame h1;
             h2 = h1\<lparr>frames := (frames h1)(fr := (frames h1 fr)\<lparr>page_table_blocks :=
                    page_table_blocks (frames h1 fr) @ [tag]\<rparr>)\<rparr>
         in if lk then kmm_lock h2 else h2)
      else h)"

definition finish_pt :: "bool \<Rightarrow> addr \<Rightarrow> 'a heap_mgr_scheme \<Rightarrow> addr \<times> 'a heap_mgr_scheme" where
  "finish_pt lk tag h =
     (let result = actual_start tag (tag_at h tag);
          h1 = zero_table result h;
          h2 = (if available_size (tag_at h1 tag) \<ge> min_block_size + bt_offset
                then (case split_tag tag h1 of (q, h') \<Rightarrow> insert_block q (-1) h') else h1)
      in if result = 0 then (0, h2)
         else
           (let h3 = record_pt_block lk tag h2
            in (result, h3\<lparr>remaining_memory := u64_sub (remaining_memory h3) (block_size (tag_at h3 tag))\<rparr>)))"

fun allocate_pt :: "nat \<Rightarrow> nat \<Rightarrow> bool \<Rightarrow> 'a heap_mgr_scheme pt_source" where
  "allocate_pt 0 f lk h = None"
| "allocate_pt (Suc d) f lk h =
     (case scan_pt_bin f (available_blocks h ! pt_bin) h of
        None \<Rightarrow> None
      | Some (tag, h1) \<Rightarrow>
          (if tag \<noteq> 0 then Some (finish_pt lk tag h1)
           else case find_and_claim h1 pt_region of
             None \<Rightarrow> None
           | Some (allocated, h2) \<Rightarrow>
               (if allocated = 0 then Some (0, h2)
                else case (if translate_vaddr h2 allocated = 0
                           then map_option snd (map_kernel_pages (allocate_pt d f lk) allocated
                                  (pt_region div page_size) True h2)
                           else Some h2) of
                  None \<Rightarrow> None
                | Some h3 \<Rightarrow>
                    (let h4 = put_tag allocated ((new_tag pt_region pt_bytes (-1) 0 0 0)
                           \<lparr>align_bytes := add_align_size allocated page_size\<rparr>) h3;
                         h5 = h4\<lparr>watermark := max allocated (watermark h4)\<rparr>
                     in Some (finish_pt lk allocated h5)))))"

subsection \<open>User blocks\<close>

definition aligned_size :: "addr \<Rightarrow> nat \<Rightarrow> nat" where
  "aligned_size start requested = u64_sub (next_page_aligned (addr_plus start requested)) (page_aligned start)"

text \<open>\<open>d\<close> bounds the recursion of \<open>allocate_pt\<close> and \<open>f\<close> every walk along a bin or a chain.\<close>

definition allocate_user_block ::
  "nat \<Rightarrow> nat \<Rightarrow> nat \<Rightarrow> addr \<Rightarrow> nat \<Rightarrow> bool \<Rightarrow> bool \<Rightarrow> 'a heap_mgr_scheme pt_source" where
  "allocate_user_block d f sz start align w x h =
     (let pm = active_pml4 h (cr3 h); rsz = aligned_size start sz in
      case allocate f rsz align h of
        None \<Rightarrow> None
      | Some (result, h1) \<Rightarrow>
          (let start' = (if start = 0 then result else start) in
           if result = 0 then Some (0, h1)
           else case map_user_pages (allocate_pt d f False) (addr_trunc start' (max align page_size)) result
                       (div_round_up rsz page_size) pm w x h1 of
             None \<Rightarrow> None
           | Some (mapped, h2) \<Rightarrow>
               (if mapped \<noteq> 0 then Some (result, h2)
                else map_option (Pair 0) (deallocate f result align h2))))"

definition deallocate_user_block ::
  "nat \<Rightarrow> addr \<Rightarrow> nat \<Rightarrow> nat \<Rightarrow> bool \<Rightarrow> 'a heap_mgr_scheme \<Rightarrow> 'a heap_mgr_scheme option" where
  "deallocate_user_block f base sz align should_unmap h =
     (let pm = active_pml4 h 0; phys = (if pm \<noteq> 0 then frame_translate h base else base) in
      if phys = 0 then Some h
      else map_option (\<lambda>h1. if should_unmap \<and> pm \<noteq> 0
                            then unmap_pages h1 base (div_round_up sz page_size) pm else h1)
             (deallocate f phys align h))"

definition map_descriptor ::
  "nat \<Rightarrow> nat \<Rightarrow> addr \<Rightarrow> block_descriptor \<Rightarrow> 'a heap_mgr_scheme \<Rightarrow> 'a heap_mgr_scheme option" where
  "map_descriptor d f pm blk h = map_option snd
     (map_user_pages (allocate_pt d f True) (virtual_start blk) (physical_start blk)
        (div_round_up (bd_size blk) page_size) pm (bd_write blk) (bd_execute blk) h)"

definition map_to_current_frame ::
  "nat \<Rightarrow> nat \<Rightarrow> block_descriptor \<Rightarrow> 'a heap_mgr_scheme \<Rightarrow> 'a heap_mgr_scheme option" where
  "map_to_current_frame d f blk h =
     map_option kmm_unlock (map_descriptor d f (active_pml4 h (cr3 h)) blk (kmm_lock h))"

fun map_descriptors ::
  "nat \<Rightarrow> nat \<Rightarrow> addr \<Rightarrow> block_descriptor list \<Rightarrow> 'a heap_mgr_scheme \<Rightarrow> 'a heap_mgr_scheme option" where
  "map_descriptors d f pm [] h = Some h"
| "map_descriptors d f pm (blk # blks) h =
     (case map_descriptor d f pm blk h of None \<Rightarrow> None | Some h1 \<Rightarrow> map_descriptors d f pm blks h1)"

definition map_all_to_current_frame ::
  "nat \<Rightarrow> nat \<Rightarrow> block_descriptor list \<Rightarrow> 'a heap_mgr_scheme \<Rightarrow> 'a heap_mgr_scheme option" where
  "map_all_to_current_frame d f blks h =
     map_option kmm_unlock (map_descriptors d f (active_pml4 h (cr3 h)) blks (kmm_lock h))"

subsection \<open>DMA blocks\<close>

definition dma_size :: "nat \<Rightarrow> nat" where
  "dma_size requested = region_size_for requested"

definition allocate_dma :: "nat \<Rightarrow> nat \<Rightarrow> nat \<Rightarrow> bool \<Rightarrow> 'a heap_mgr_scheme pt_source" where
  "allocate_dma d f sz prefetchable h =
     (case find_and_claim (kmm_lock h) sz of
        None \<Rightarrow> None
      | Some (phys, h1) \<Rightarrow>
          (if phys = 0 then Some (0, kmm_unlock h1)
           else
             (let total_sz = div_round_up (region_size_for sz) page_size in
              case (if prefetchable then map_mmio_pages (allocate_pt d f True) phys total_sz h1
                    else map_uncached_mmio_pages (allocate_pt d f True) phys total_sz h1) of
                None \<Rightarrow> None
              | Some (result, h2) \<Rightarrow>
                  Some (result, kmm_unlock (h2\<lparr>watermark := max phys (watermark h2),
                    remaining_memory := u64_sub (remaining_memory h2) (u64_mul total_sz page_size)\<rparr>)))))"

definition map_dma :: "nat \<Rightarrow> nat \<Rightarrow> addr \<Rightarrow> nat \<Rightarrow> bool \<Rightarrow> 'a heap_mgr_scheme pt_source" where
  "map_dma d f a sz prefetchable h =
     (let npage = div_round_up sz page_size; h1 = kmm_lock h in
      case (if prefetchable then map_mmio_pages (allocate_pt d f True) a npage h1
            else map_uncached_mmio_pages (allocate_pt d f True) a npage h1) of
        None \<Rightarrow> None
      | Some (result, h2) \<Rightarrow>
          Some (result, kmm_unlock (if result \<noteq> 0 then mark_used h2 a npage else h2)))"

definition deallocate_dma :: "nat \<Rightarrow> nat \<Rightarrow> addr \<Rightarrow> nat \<Rightarrow> 'a heap_mgr_scheme \<Rightarrow> 'a heap_mgr_scheme option" where
  "deallocate_dma d f a sz h =
     (if a = 0 then Some (kmm_unlock (kmm_lock h))
      else
        (let total_sz = div_round_up (region_size_for sz) page_size in
         case map_kernel_pages (allocate_pt d f True) a total_sz True (kmm_lock h) of
           None \<Rightarrow> None
         | Some (phys, h1) \<Rightarrow>
             (let h2 = release_region h1 sz phys
              in Some (kmm_unlock (h2\<lparr>watermark := min phys (watermark h2),
                   remaining_memory := u64_add (remaining_memory h2) (u64_mul total_sz page_size)\<rparr>)))))"

subsection \<open>Start-up\<close>

text \<open>The addresses the linker script provides.\<close>

record kernel_image =
  img_start :: addr
  img_end :: addr
  img_code :: addr
  img_code_end :: addr
  img_rodata :: addr
  img_rodata_end :: addr
  img_pages :: nat
  sigtramp :: addr

definition is_readonly_page :: "kernel_image \<Rightarrow> addr \<Rightarrow> bool" where
  "is_readonly_page im a \<longleftrightarrow>
     (img_code im \<le> a \<and> a < img_code_end im) \<or> (img_rodata im \<le> a \<and> a < img_rodata_end im)"

fun kernel_flags_loop :: "kernel_image \<Rightarrow> nat \<Rightarrow> addr \<Rightarrow> addr \<Rightarrow> 'a heap_mgr_scheme \<Rightarrow> 'a heap_mgr_scheme" where
  "kernel_flags_loop im 0 a pt h = h"
| "kernel_flags_loop im (Suc n) a pt h =
     (let pt' = (if pt = 0 \<or> page_idx a = 0 then find_table h a (cr3 h) else pt);
          h' = (if pt' \<noteq> 0
                then put_pte pt' (page_idx a) ((ptables h pt' (page_idx a))\<lparr>global := True,
                       pte_write := \<not> is_readonly_page im a, user_access := False\<rparr>) h
                else h)
      in kernel_flags_loop im n (addr_plus a page_size) pt' h')"

text \<open>The loop runs once per page from \<open>__start\<close> while the address is below \<open>max\<close>.\<close>

definition set_kernel_page_flags :: "kernel_image \<Rightarrow> addr \<Rightarrow> 'a heap_mgr_scheme \<Rightarrow> 'a heap_mgr_scheme" where
  "set_kernel_page_flags im mx h =
     kernel_flags_loop im ((mx - img_start im + (page_size - 1)) div page_size) (img_start im) 0 h"

fun copy_kernel_loop ::
  "'a heap_mgr_scheme pt_source \<Rightarrow> kernel_image \<Rightarrow> addr \<Rightarrow> nat \<Rightarrow> nat \<Rightarrow> addr \<Rightarrow> addr \<Rightarrow> addr
   \<Rightarrow> 'a heap_mgr_scheme \<Rightarrow> (bool \<times> 'a heap_mgr_scheme) option" where
  "copy_kernel_loop alloc im target 0 i cur pt utab h = Some (True, h)"
| "copy_kernel_loop alloc im target (Suc n) i cur pt utab h =
     (let p = page_idx cur in
      case (if i \<noteq> 0 \<and> p = 0
            then (case get_table alloc cur True (cr3 h) h of
                    None \<Rightarrow> None
                  | Some (pt', h1) \<Rightarrow>
                      map_option (\<lambda>(utab', h2). (pt', utab', h2)) (get_table alloc cur False target h1))
            else Some (pt, utab, h)) of
        None \<Rightarrow> None
      | Some (pt', utab', h1) \<Rightarrow>
          (if utab' = 0 \<or> pt' = 0 then Some (False, h1)
           else
             (let e = ptables h1 pt' p;
                  e' = (if sigtramp im \<le> cur \<and> cur < sigtramp im + 4096
                        then e\<lparr>user_access := True\<rparr> else e)
              in copy_kernel_loop alloc im target n (Suc i) (addr_plus cur page_size) pt' utab'
                   (put_pte utab' p e' h1))))"

definition copy_kernel_mappings ::
  "'a heap_mgr_scheme pt_source \<Rightarrow> kernel_image \<Rightarrow> addr \<Rightarrow> 'a heap_mgr_scheme pt_source" where
  "copy_kernel_mappings alloc im target h =
     (let start = img_start im in
      case get_table alloc start False (cr3 h) h of
        None \<Rightarrow> None
      | Some (pt, h1) \<Rightarrow>
          (case get_table alloc start False target h1 of
             None \<Rightarrow> None
           | Some (utab, h2) \<Rightarrow>
               (if utab = 0 \<or> pt = 0 then Some (0, h2)
                else case copy_kernel_loop alloc im target (img_pages im) 0 start pt utab h2 of
                  None \<Rightarrow> None
                | Some (ok, h3) \<Rightarrow> Some (if ok then start else 0, h3))))"

datatype memtype = AVAILABLE | RESERVED | ACPI_RECLAIMABLE | NVS | BADRAM | MMIO

record mmap_entry =
  me_addr :: addr
  me_len :: nat
  me_type :: memtype

definition kframe_size :: nat where
  "kframe_size = 256"

text \<open>Where the heap starts: behind the image, the frame tag and the status array, on a page boundary.\<close>

definition status_base :: "kernel_image \<Rightarrow> addr" where
  "status_base im = addr_plus (img_end im) kframe_size"

definition heap_start :: "kernel_image \<Rightarrow> nat \<Rightarrow> addr" where
  "heap_start im total_mem =
     (let ha = addr_plus (status_base im) (u64_mul (div_round_up total_mem gigabyte) 512)
      in if ha = page_aligned ha then addr_plus ha page_size else next_page_aligned ha)"

text \<open>The constructors of the frame tag and of the manager.\<close>

definition fresh_manager :: "kernel_image \<Rightarrow> nat \<Rightarrow> 'a heap_mgr_scheme \<Rightarrow> 'a heap_mgr_scheme" where
  "fresh_manager im total_mem h =
     (let n = div_round_up total_mem gigabyte in
      h\<lparr>status_bytes := replicate n (replicate 512 0), num_status_bytes := n,
        kernel_heap_begin := heap_start im total_mem, watermark := heap_start im total_mem,
        suspended_cr3 := 0, active_frame := 0,
        complete_regions := replicate block_index_range 0,
        available_blocks := replicate block_index_range 0\<rparr>)"

text \<open>Entry lengths count pages; \<open>taken_pages\<close> divides by the pages of a region.\<close>

definition taken_pages :: "mmap_entry \<Rightarrow> nat" where
  "taken_pages e = div_round_up (me_len e) page_table_length"

fun reserve_entries ::
  "nat \<Rightarrow> nat \<Rightarrow> mmap_entry list \<Rightarrow> nat \<Rightarrow> 'a heap_mgr_scheme \<Rightarrow> (nat \<times> 'a heap_mgr_scheme) option" where
  "reserve_entries d f [] tot h = Some (tot, h)"
| "reserve_entries d f (e # es) tot h =
     (if me_type e \<noteq> AVAILABLE then
        (case (if me_type e = MMIO then map_option snd (map_mmio_pages (allocate_pt d f False) (me_addr e) (me_len e) h)
               else Some h) of
           None \<Rightarrow> None
         | Some h1 \<Rightarrow> reserve_entries d f es (u64_sub tot (u64_mul (taken_pages e) page_size))
                        (mark_used h1 (me_addr e) (taken_pages e)))
      else reserve_entries d f es tot h)"

text \<open>The start-up code up to the mapping of the frame buffer, which is its last statement.\<close>

definition init_reserve ::
  "nat \<Rightarrow> nat \<Rightarrow> kernel_image \<Rightarrow> nat \<Rightarrow> mmap_entry list \<Rightarrow> 'a heap_mgr_scheme \<Rightarrow> 'a heap_mgr_scheme option" where
  "init_reserve d f im total_mem entries h =
     (let h1 = fresh_manager im total_mem h; heap = kernel_heap_begin h1 in
      case reserve_entries d f entries total_mem h1 of
        None \<Rightarrow> None
      | Some (tot, h2) \<Rightarrow>
          (let h3 = set_kernel_page_flags im (status_base im) (mark_used h2 0 (div_round_up heap region_size))
           in Some (h3\<lparr>remaining_memory := tot, total_memory := tot, kernel_cr3 := cr3 h3\<rparr>)))"

definition init_instance ::
  "nat \<Rightarrow> nat \<Rightarrow> kernel_image \<Rightarrow> nat \<Rightarrow> mmap_entry list \<Rightarrow> addr \<Rightarrow> nat \<Rightarrow> 'a heap_mgr_scheme \<Rightarrow> 'a heap_mgr_scheme option" where
  "init_instance d f im total_mem entries fb_ptr fb_bytes h =
     (case init_reserve d f im total_mem entries h of
        None \<Rightarrow> None
      | Some h1 \<Rightarrow> map_option snd (map_kernel_pages (allocate_pt d f False) fb_ptr
           (div_round_up fb_bytes page_size) True h1))"

end
