(* ===== verification/Page_Maps.thy ===== *)
theory Page_Maps
  imports Paging
begin

text \<open>
  What the mapping routines establish: once the upper levels of a table tree exist, mapping a range
  makes every page of the range translate to its physical page with the requested rights and leaves
  every other page alone, and unmapping it takes the translations away again.
\<close>

subsection \<open>Table levels\<close>

text \<open>
  A level function: the root has level 4, and a present entry of a table of level 4, 3 or 2 leads one
  level down.  A table of level 1 holds leaf entries only.
\<close>

definition pt_levels :: "(addr \<Rightarrow> nat) \<Rightarrow> 'a paging_mgr_scheme \<Rightarrow> addr \<Rightarrow> bool" where
  "pt_levels lv h pm \<longleftrightarrow> lv pm = 4 \<and>
     (\<forall>t i. 2 \<le> lv t \<and> present (ptables h t i) \<longrightarrow> lv (pte_target (ptables h t i)) = lv t - 1)"

definition same_upper :: "(addr \<Rightarrow> nat) \<Rightarrow> 'a paging_mgr_scheme \<Rightarrow> 'a paging_mgr_scheme \<Rightarrow> bool" where
  "same_upper lv h h' \<longleftrightarrow> (\<forall>t i. 2 \<le> lv t \<longrightarrow>
     present (ptables h' t i) = present (ptables h t i)
     \<and> physical_address (ptables h' t i) = physical_address (ptables h t i))"

text \<open>The part of an address that selects its leaf table.\<close>

definition table_key :: "addr \<Rightarrow> nat" where
  "table_key a = a div 2 ^ 21 mod 2 ^ 27"

text \<open>No leaf table is shared between two parts of the address space.\<close>

definition leaves_distinct :: "'a paging_mgr_scheme \<Rightarrow> addr \<Rightarrow> bool" where
  "leaves_distinct h pm \<longleftrightarrow> (\<forall>a b. find_table h a pm \<noteq> 0 \<and> find_table h a pm = find_table h b pm
     \<longrightarrow> table_key a = table_key b)"

lemma table_key_idx:
  "table_key a = table_key b \<longleftrightarrow> pml4_idx a = pml4_idx b \<and> pdp_idx a = pdp_idx b \<and> pd_idx a = pd_idx b"
proof -
  have k: "table_key c = pd_idx c + 512 * pdp_idx c + 2 ^ 18 * pml4_idx c" for c
  proof -
    define x where "x = c div 2 ^ 21"
    have e: "x mod 2 ^ 27 = x mod 512 + 512 * (x div 512 mod 512) + 2 ^ 18 * (x div 2 ^ 18 mod 512)"
    proof -
      have "x mod (512 * (512 * 512)) = 512 * (x div 512 mod (512 * 512)) + x mod 512"
        by (rule mod_mult2_eq)
      also have "x div 512 mod (512 * 512) = 512 * (x div 512 div 512 mod 512) + x div 512 mod 512"
        by (rule mod_mult2_eq)
      finally show ?thesis by (simp add: div_mult2_eq [symmetric])
    qed
    have "c div 2 ^ 30 = x div 512" "c div 2 ^ 39 = x div 2 ^ 18"
      by (simp_all add: x_def div_mult2_eq [symmetric])
    then show ?thesis
      using e by (simp add: table_key_def pd_idx_def pdp_idx_def pml4_idx_def x_def)
  qed
  show ?thesis
  proof
    assume e: "table_key a = table_key b"
    have digits: "x = x' \<and> y = y' \<and> z = z'"
      if "x + 512 * y + 2 ^ 18 * z = x' + 512 * y' + 2 ^ 18 * z'" "x < 512" "x' < 512" "y < 512" "y' < 512"
      for x y z x' y' z' :: nat
    proof -
      have s: "u = u' \<and> v = v'" if "u + 512 * v = u' + 512 * v'" "u < 512" "u' < 512" for u v u' v' :: nat
        using arg_cong [OF that(1), of "\<lambda>n. n mod 512"] arg_cong [OF that(1), of "\<lambda>n. n div 512"] that(2,3)
        by simp
      have "x + 512 * (y + 512 * z) = x' + 512 * (y' + 512 * z')" using that(1) by simp
      from s [OF this that(2,3)] s [of y z y' z'] show ?thesis using that(4,5) by blast
    qed
    show "pml4_idx a = pml4_idx b \<and> pdp_idx a = pdp_idx b \<and> pd_idx a = pd_idx b"
      using digits [OF e [unfolded k]] by simp
  qed (simp add: k)
qed

lemma find_table_key: "table_key a = table_key b \<Longrightarrow> find_table h a pm = find_table h b pm"
  by (simp only: table_key_idx find_table_def)

lemma same_upper_refl [simp]: "same_upper lv h h"
  by (simp add: same_upper_def)

lemma same_upper_trans: "same_upper lv h h1 \<Longrightarrow> same_upper lv h1 h2 \<Longrightarrow> same_upper lv h h2"
  by (simp add: same_upper_def)

lemma same_upper_levels:
  "pt_levels lv h pm \<Longrightarrow> same_upper lv h h' \<Longrightarrow> pt_levels lv h' pm"
  unfolding pt_levels_def same_upper_def pte_target_def by metis

lemma find_table_upper:
  assumes "pt_levels lv h pm" "same_upper lv h h'"
  shows "find_table h' a pm = find_table h a pm"
proof -
  have l4: "lv pm = 4" using assms(1) by (simp add: pt_levels_def)
  have st: "\<And>t i. 2 \<le> lv t \<Longrightarrow> present (ptables h t i) \<Longrightarrow> lv (pte_target (ptables h t i)) = lv t - 1"
    using assms(1) by (simp add: pt_levels_def)
  have e: "\<And>t i. 2 \<le> lv t \<Longrightarrow> present (ptables h' t i) = present (ptables h t i)
       \<and> pte_target (ptables h' t i) = pte_target (ptables h t i)"
    using assms(2) unfolding same_upper_def pte_target_def by metis
  show ?thesis using st e l4 by (simp add: find_table_def Let_def)
qed

lemma find_table_level:
  assumes "pt_levels lv h pm" "find_table h a pm \<noteq> 0"
  shows "lv (find_table h a pm) = 1"
  using assms by (auto simp: find_table_def pt_levels_def Let_def split: if_splits)

lemma put_leaf_upper:
  "lv t = 1 \<Longrightarrow> same_upper lv h (put_pte t i e h)"
  by (auto simp: same_upper_def put_pte_def)

lemma ptables_put_pte [simp]:
  "ptables (put_pte t i e h) t' j = (if t' = t \<and> j = i then e else ptables h t' j)"
  by (simp add: put_pte_def)

text \<open>Only page tables changed.\<close>

definition pt_frame :: "'a paging_mgr_scheme \<Rightarrow> 'a paging_mgr_scheme \<Rightarrow> bool" where
  "pt_frame h h' \<longleftrightarrow> h' = h\<lparr>ptables := ptables h'\<rparr>"

lemma pt_frame_put [simp]: "pt_frame h (put_pte t i e h)"
  by (simp add: pt_frame_def put_pte_def)

lemma pt_frame_refl [simp]: "pt_frame h h"
  by (simp add: pt_frame_def)

lemma pt_frame_trans: "pt_frame h h1 \<Longrightarrow> pt_frame h1 h2 \<Longrightarrow> pt_frame h h2"
  unfolding pt_frame_def by (metis paging_mgr.surjective paging_mgr.update_convs(1))

lemma pt_frame_fields:
  assumes "pt_frame h h'"
  shows "cr3 h' = cr3 h" "kernel_cr3 h' = kernel_cr3 h" "suspended_cr3 h' = suspended_cr3 h"
    "active_frame h' = active_frame h" "frames h' = frames h"
proof -
  have e: "h' = h\<lparr>ptables := ptables h'\<rparr>" using assms by (simp add: pt_frame_def)
  show "cr3 h' = cr3 h" "kernel_cr3 h' = kernel_cr3 h" "suspended_cr3 h' = suspended_cr3 h"
    "active_frame h' = active_frame h" "frames h' = frames h"
    by (subst e, simp)+
qed

lemma pt_frame_root:
  "pt_frame h h' \<Longrightarrow> active_pml4 h' (kernel_cr3 h') = active_pml4 h (kernel_cr3 h)"
  by (simp only: active_pml4_def pt_frame_fields)

subsection \<open>The walk that builds nothing\<close>

definition leaf_same :: "(addr \<Rightarrow> nat) \<Rightarrow> 'a paging_mgr_scheme \<Rightarrow> 'a paging_mgr_scheme \<Rightarrow> bool" where
  "leaf_same lv h h' \<longleftrightarrow> (\<forall>t. lv t = 1 \<longrightarrow> ptables h' t = ptables h t)"

lemma touch_upper:
  "2 \<le> lv t \<Longrightarrow> e = ptables h t i \<Longrightarrow>
   same_upper lv h (put_pte t i (touch_pte wt e) h) \<and> leaf_same lv h (put_pte t i (touch_pte wt e) h)"
  by (auto simp: same_upper_def leaf_same_def touch_pte_def put_pte_def)

lemma leaf_same_trans: "leaf_same lv h h1 \<Longrightarrow> leaf_same lv h1 h2 \<Longrightarrow> leaf_same lv h h2"
  by (simp add: leaf_same_def)

lemma get_table_present:
  assumes lev: "pt_levels lv h pm" and ft: "find_table h a pm \<noteq> 0"
  obtains h1 where "get_table alloc a wt pm h = Some (find_table h a pm, h1)"
    "same_upper lv h h1" "leaf_same lv h h1" "pt_frame h h1"
proof -
  define e4 where "e4 = ptables h pm (pml4_idx a)"
  define h1 where "h1 = put_pte pm (pml4_idx a) (touch_pte wt e4) h"
  define e3 where "e3 = ptables h1 (pte_target e4) (pdp_idx a)"
  define h2 where "h2 = put_pte (pte_target e4) (pdp_idx a) (touch_pte wt e3) h1"
  define e2 where "e2 = ptables h2 (pte_target e3) (pd_idx a)"
  define h3 where "h3 = put_pte (pte_target e3) (pd_idx a) (touch_pte wt e2) h2"
  have l4: "lv pm = 4" and st: "\<And>t i. 2 \<le> lv t \<Longrightarrow> present (ptables h t i) \<Longrightarrow>
       lv (pte_target (ptables h t i)) = lv t - 1"
    using lev by (simp_all add: pt_levels_def)
  have p4: "present e4" using ft by (auto simp: find_table_def Let_def e4_def split: if_splits)
  have l3: "lv (pte_target e4) = 3" using st [of pm] l4 p4 by (simp add: e4_def)
  have u1: "same_upper lv h h1 \<and> leaf_same lv h h1"
    unfolding h1_def by (rule touch_upper) (simp_all add: l4 e4_def)
  have e3: "e3 = ptables h (pte_target e4) (pdp_idx a)"
    using l3 l4 by (auto simp: e3_def h1_def)
  have p3: "present e3" using ft p4 by (auto simp: find_table_def Let_def e4_def e3 split: if_splits)
  have l2: "lv (pte_target e3) = 2" using st [of "pte_target e4"] l3 p3 by (simp add: e3)
  have u2: "same_upper lv h1 h2 \<and> leaf_same lv h1 h2"
    unfolding h2_def by (rule touch_upper) (simp_all add: l3 e3_def)
  have e2: "e2 = ptables h (pte_target e3) (pd_idx a)"
    using l2 l3 l4 by (auto simp: e2_def h2_def h1_def)
  have p2: "present e2" using ft p4 p3 by (auto simp: find_table_def Let_def e4_def e3 e2 split: if_splits)
  have u3: "same_upper lv h2 h3 \<and> leaf_same lv h2 h3"
    unfolding h3_def by (rule touch_upper) (simp_all add: l2 e2_def)
  have ftv: "find_table h a pm = pte_target e2"
    using p4 p3 p2 by (simp add: find_table_def Let_def e4_def [symmetric] e3 [symmetric] e2 [symmetric])
  have "get_table alloc a wt pm h = Some (find_table h a pm, h3)"
    using p4 p3 p2 by (simp add: get_table_def Let_def ftv e4_def [symmetric] h1_def [symmetric]
      e3_def [symmetric] h2_def [symmetric] e2_def [symmetric] h3_def)
  moreover have "same_upper lv h h3" "leaf_same lv h h3"
    using u1 u2 u3 same_upper_trans leaf_same_trans by blast+
  moreover have "pt_frame h h3"
    using pt_frame_trans pt_frame_put unfolding h1_def h2_def h3_def by metis
  ultimately show thesis by (rule that)
qed

subsection \<open>Walking along the pages\<close>

text \<open>Address and table of the \<open>j\<close>-th page behind \<open>a\<close>.\<close>

definition page_at :: "addr \<Rightarrow> nat \<Rightarrow> addr" where
  "page_at a j = a + j * page_size"

lemma page_at_0 [simp]: "page_at a 0 = a"
  by (simp add: page_at_def)

lemma page_at_Suc: "page_at a (Suc j) = page_at (a + page_size) j"
  by (simp add: page_at_def)

lemma next_same_table:
  assumes "page_idx (a + page_size) \<noteq> 0"
  shows "table_key (a + page_size) = table_key a"
proof -
  define x where "x = a div 4096"
  have d: "(a + 4096) div 4096 = x + 1" by (simp add: x_def)
  have k: "c div 2 ^ 21 = c div 4096 div 512" for c :: nat by (simp add: div_mult2_eq [symmetric])
  have "(x + 1) mod 512 \<noteq> 0" using assms d by (simp add: page_idx_def size_consts)
  then have "(x + 1) div 512 = x div 512" by (simp add: div_Suc)
  then show ?thesis
    unfolding table_key_def size_consts k d by (simp add: x_def)
qed

lemma slot_page:
  assumes "table_key a = table_key b" "page_idx a = page_idx b"
  shows "a div page_size mod 2 ^ 36 = b div page_size mod 2 ^ 36"
proof -
  have e: "c div page_size mod 2 ^ 36 = 512 * table_key c + page_idx c" for c
  proof -
    have "c div 4096 mod (512 * 2 ^ 27) = 512 * (c div 4096 div 512 mod 2 ^ 27) + c div 4096 mod 512"
      by (rule mod_mult2_eq)
    then show ?thesis by (simp add: size_consts table_key_def page_idx_def div_mult2_eq [symmetric])
  qed
  show ?thesis unfolding e using assms by simp
qed

lemma slots_differ:
  assumes d: "leaves_distinct h pm" and n: "n \<le> 2 ^ 36" and j: "0 < j" "j < n"
    and ft: "find_table h a pm \<noteq> 0"
  shows "\<not> (find_table h a pm = find_table h (page_at a j) pm \<and> page_idx a = page_idx (page_at a j))"
proof
  assume "find_table h a pm = find_table h (page_at a j) pm \<and> page_idx a = page_idx (page_at a j)"
  then have "a div page_size mod 2 ^ 36 = page_at a j div page_size mod 2 ^ 36"
    using d ft slot_page unfolding leaves_distinct_def by blast
  moreover have "page_at a j div page_size = a div page_size + j" by (simp add: page_at_def)
  ultimately have "(a div page_size + j) mod 2 ^ 36 = a div page_size mod 2 ^ 36" by simp
  then have "2 ^ 36 dvd a div page_size + j - a div page_size" by (metis le_add1 mod_eq_dvd_iff_nat)
  then have "2 ^ 36 \<le> j" using j by (simp add: dvd_imp_le)
  then show False using j n by simp
qed

subsection \<open>Mapping a range\<close>

text \<open>Every page of a range has its leaf table, and the range neither wraps nor meets itself.\<close>

definition range_ready :: "'a paging_mgr_scheme \<Rightarrow> addr \<Rightarrow> addr \<Rightarrow> nat \<Rightarrow> bool" where
  "range_ready h pm a n \<longleftrightarrow> leaves_distinct h pm \<and> n \<le> 2 ^ 36 \<and> page_at a n < 2 ^ 64
     \<and> (\<forall>j<n. find_table h (page_at a j) pm \<noteq> 0)"

abbreviation leaf_entry :: "'a paging_mgr_scheme \<Rightarrow> addr \<Rightarrow> addr \<Rightarrow> pt_entry" where
  "leaf_entry h pm a \<equiv> ptables h (find_table h a pm) (page_idx a)"

text \<open>The slots a range does not use.\<close>

definition other_slot :: "'a paging_mgr_scheme \<Rightarrow> addr \<Rightarrow> addr \<Rightarrow> nat \<Rightarrow> addr \<Rightarrow> nat \<Rightarrow> bool" where
  "other_slot h pm a n t k \<longleftrightarrow> (\<forall>j<n. \<not> (t = find_table h (page_at a j) pm \<and> k = page_idx (page_at a j)))"

lemma range_ready_upper:
  assumes "pt_levels lv h pm" "same_upper lv h h'"
  shows "range_ready h' pm a n = range_ready h pm a n"
  by (simp add: range_ready_def leaves_distinct_def find_table_upper [OF assms])

lemma range_ready_Suc:
  "range_ready h pm a (Suc n) \<Longrightarrow> range_ready h pm (a + page_size) n"
  by (auto simp: range_ready_def page_at_Suc [symmetric])

lemma map_loop_user:
  assumes "pt_levels lv h pm" "range_ready h pm a n"
    and "n = 0 \<or> i \<noteq> 0 \<and> page_idx a = 0 \<or> pt = find_table h a pm"
  shows "\<exists>h'. map_loop alloc wt (\<lambda>h. pm) (\<lambda>i c e. Some (w i c)) n i a pt h = Some (True, h')
     \<and> same_upper lv h h' \<and> pt_frame h h'
     \<and> (\<forall>j<n. leaf_entry h' pm (page_at a j) = w (i + j) (page_at a j))
     \<and> (\<forall>t k. lv t = 1 \<and> other_slot h pm a n t k \<longrightarrow> ptables h' t k = ptables h t k)"
  using assms
proof (induction n arbitrary: i a pt h)
  case 0
  then show ?case by simp
next
  case (Suc n)
  note lev = Suc.prems(1) and rdy = Suc.prems(2)
  let ?T = "find_table h a pm"
  have ft: "?T \<noteq> 0" using rdy unfolding range_ready_def by (metis page_at_0 zero_less_Suc)
  have lt: "a + page_size < 2 ^ 64"
    using rdy by (simp add: range_ready_def page_at_def algebra_simps)
  obtain h1 where h1: "(if i \<noteq> 0 \<and> page_idx a = 0 then get_table alloc a wt pm h else Some (pt, h)) = Some (?T, h1)"
    "same_upper lv h h1" "leaf_same lv h h1" "pt_frame h h1"
  proof (cases "i \<noteq> 0 \<and> page_idx a = 0")
    case True
    show thesis
      by (rule get_table_present [OF lev ft, of alloc wt]) (rule that, simp_all add: True)
  next
    case False
    then have "pt = ?T" using Suc.prems(3) by auto
    then show thesis using False by (intro that [of h]) (auto simp: leaf_same_def)
  qed
  let ?h2 = "put_pte ?T (page_idx a) (w i a) h1"
  have lT: "lv ?T = 1" by (rule find_table_level [OF lev ft])
  have u2: "same_upper lv h ?h2"
    using h1(2) put_leaf_upper [of lv ?T, OF lT] same_upper_trans by blast
  have lev2: "pt_levels lv ?h2 pm" by (rule same_upper_levels [OF lev u2])
  have rdy2: "range_ready ?h2 pm (a + page_size) n"
    using range_ready_Suc [OF rdy] range_ready_upper [OF lev u2] by blast
  have tab: "n = 0 \<or> Suc i \<noteq> 0 \<and> page_idx (a + page_size) = 0 \<or> ?T = find_table ?h2 (a + page_size) pm"
    unfolding find_table_upper [OF lev u2]
    using find_table_key [OF next_same_table [of a, symmetric], of h pm] by blast
  from Suc.IH [OF lev2 rdy2 tab] obtain h' where
    run: "map_loop alloc wt (\<lambda>h. pm) (\<lambda>i c e. Some (w i c)) n (Suc i) (a + page_size) ?T ?h2 = Some (True, h')"
    and up: "same_upper lv ?h2 h'" and fr: "pt_frame ?h2 h'"
    and ent: "\<And>j. j < n \<Longrightarrow> leaf_entry h' pm (page_at (a + page_size) j) = w (Suc i + j) (page_at (a + page_size) j)"
    and oth: "\<And>t k. lv t = 1 \<Longrightarrow> other_slot ?h2 pm (a + page_size) n t k \<Longrightarrow> ptables h' t k = ptables ?h2 t k"
    by blast
  have ftu: "find_table h' c pm = find_table h c pm" "find_table ?h2 c pm = find_table h c pm" for c
    using find_table_upper [OF lev2 up] find_table_upper [OF lev u2] by simp_all
  have nslot: "other_slot ?h2 pm (a + page_size) n ?T (page_idx a)"
    unfolding other_slot_def ftu page_at_Suc [symmetric]
    using slots_differ [of h pm "Suc n" _ a] rdy ft unfolding range_ready_def by blast
  have "leaf_entry h' pm (page_at a j) = w (i + j) (page_at a j)" if "j < Suc n" for j
  proof (cases j)
    case 0
    then show ?thesis using oth [OF lT nslot] by (simp add: ftu)
  next
    case (Suc j')
    then show ?thesis using ent [of j'] that by (simp add: page_at_Suc)
  qed
  moreover have "ptables h' t k = ptables h t k" if "lv t = 1" "other_slot h pm a (Suc n) t k" for t k
  proof -
    have "other_slot ?h2 pm (a + page_size) n t k"
      using that(2) unfolding other_slot_def ftu by (auto simp: page_at_Suc [symmetric])
    moreover have "\<not> (t = ?T \<and> k = page_idx a)"
      using that(2) unfolding other_slot_def by (metis page_at_0 zero_less_Suc)
    ultimately show ?thesis using oth [OF that(1)] h1(3) that(1) by (auto simp: leaf_same_def)
  qed
  moreover have "pt_frame h h'" using h1(4) fr pt_frame_put pt_frame_trans by blast
  moreover have "same_upper lv h h'" by (rule same_upper_trans [OF u2 up])
  moreover have "map_loop alloc wt (\<lambda>h. pm) (\<lambda>i c e. Some (w i c)) (Suc n) i a pt h = Some (True, h')"
    using h1(1) ft run lt by (simp add: addr_plus_def u64_add_id)
  ultimately show ?case by blast
qed

lemma unmap_loop_range:
  assumes "pt_levels lv h pm" "range_ready h pm a n"
    and "n = 0 \<or> pt = 0 \<or> page_idx a = 0 \<or> pt = find_table h a pm"
    and "\<forall>j<n. \<not> global (leaf_entry h pm (page_at a j))"
  shows "same_upper lv h (unmap_loop n a pt pm h) \<and> pt_frame h (unmap_loop n a pt pm h)
     \<and> (\<forall>j<n. leaf_entry (unmap_loop n a pt pm h) pm (page_at a j) = zero_entry)
     \<and> (\<forall>t k. lv t = 1 \<and> other_slot h pm a n t k \<longrightarrow> ptables (unmap_loop n a pt pm h) t k = ptables h t k)"
  using assms
proof (induction n arbitrary: a pt h)
  case 0
  then show ?case by simp
next
  case (Suc n)
  note lev = Suc.prems(1) and rdy = Suc.prems(2) and gl = Suc.prems(4)
  let ?T = "find_table h a pm" and ?h1 = "put_pte (find_table h a pm) (page_idx a) zero_entry h"
  have ft: "?T \<noteq> 0" using rdy unfolding range_ready_def by (metis page_at_0 zero_less_Suc)
  have lt: "a + page_size < 2 ^ 64"
    using rdy by (simp add: range_ready_def page_at_def algebra_simps)
  have lT: "lv ?T = 1" by (rule find_table_level [OF lev ft])
  have u1: "same_upper lv h ?h1" by (rule put_leaf_upper [of lv, OF lT])
  have lev1: "pt_levels lv ?h1 pm" by (rule same_upper_levels [OF lev u1])
  have rdy1: "range_ready ?h1 pm (a + page_size) n"
    using range_ready_Suc [OF rdy] range_ready_upper [OF lev u1] by blast
  have tab: "n = 0 \<or> ?T = 0 \<or> page_idx (a + page_size) = 0 \<or> ?T = find_table ?h1 (a + page_size) pm"
    unfolding find_table_upper [OF lev u1]
    using find_table_key [OF next_same_table [of a, symmetric], of h pm] by blast
  have nslot: "\<not> (find_table h (page_at (a + page_size) j) pm = ?T \<and> page_idx (page_at (a + page_size) j) = page_idx a)"
    if "j < n" for j
    using slots_differ [of h pm "Suc n" "Suc j" a] rdy ft that unfolding range_ready_def page_at_Suc by auto
  have gl1: "\<forall>j<n. \<not> global (leaf_entry ?h1 pm (page_at (a + page_size) j))"
  proof (intro allI impI)
    fix j assume j: "j < n"
    have "\<not> global (leaf_entry h pm (page_at (a + page_size) j))"
      using gl [rule_format, of "Suc j"] j by (simp add: page_at_Suc)
    then show "\<not> global (leaf_entry ?h1 pm (page_at (a + page_size) j))"
      using nslot [OF j] by (auto simp: find_table_upper [OF lev u1])
  qed
  let ?r = "unmap_loop n (a + page_size) ?T pm ?h1"
  have "(if pt = 0 \<or> page_idx a = 0 then ?T else pt) = ?T" using Suc.prems(3) by auto
  moreover have "\<not> global (leaf_entry h pm a)" using gl [rule_format, of 0] by simp
  ultimately have run: "unmap_loop (Suc n) a pt pm h = ?r"
    using ft lt by (simp add: Let_def addr_plus_def u64_add_id)
  note ih = Suc.IH [OF lev1 rdy1 tab gl1]
  have up: "same_upper lv ?h1 ?r" using ih by blast
  have ftu: "find_table ?r c pm = find_table h c pm" "find_table ?h1 c pm = find_table h c pm" for c
    using find_table_upper [OF lev1 up] find_table_upper [OF lev u1] by simp_all
  have oth: "ptables ?r t k = ptables ?h1 t k" if "lv t = 1" "other_slot ?h1 pm (a + page_size) n t k" for t k
    using ih that by blast
  have "leaf_entry ?r pm (page_at a j) = zero_entry" if "j < Suc n" for j
  proof (cases j)
    case 0
    have "other_slot ?h1 pm (a + page_size) n ?T (page_idx a)"
      unfolding other_slot_def ftu using nslot by metis
    then show ?thesis using oth [OF lT] 0 by (simp add: ftu)
  next
    case (Suc j')
    then show ?thesis using ih that by (simp add: page_at_Suc)
  qed
  moreover have "ptables ?r t k = ptables h t k" if "lv t = 1" "other_slot h pm a (Suc n) t k" for t k
  proof -
    have "other_slot ?h1 pm (a + page_size) n t k"
      using that(2) unfolding other_slot_def ftu by (auto simp: page_at_Suc [symmetric])
    moreover have "\<not> (t = ?T \<and> k = page_idx a)"
      using that(2) unfolding other_slot_def by (metis page_at_0 zero_less_Suc)
    ultimately show ?thesis using oth [OF that(1)] by auto
  qed
  moreover have "pt_frame h ?r" using ih pt_frame_put pt_frame_trans by blast
  moreover have "same_upper lv h ?r" by (rule same_upper_trans [OF u1 up])
  ultimately show ?case unfolding run by blast
qed

subsection \<open>Translation\<close>

lemma in_page:
  assumes "a mod page_size = 0" "b < page_size"
  shows "page_idx (a + b) = page_idx a" "table_key (a + b) = table_key a" "addr_offset (a + b) = b"
proof -
  obtain q where q: "a = 4096 * q" using assms(1) by (auto simp: size_consts)
  have d: "(a + b) div 4096 = q" using assms(2) by (simp add: q size_consts)
  show "page_idx (a + b) = page_idx a" using d by (simp add: page_idx_def q)
  have k: "c div 2 ^ 21 = c div 4096 div 512" for c :: nat by (simp add: div_mult2_eq [symmetric])
  show "table_key (a + b) = table_key a" unfolding table_key_def k d by (simp add: q)
  show "addr_offset (a + b) = b" using assms(2) by (simp add: addr_offset_def q size_consts)
qed

lemma frame_translate_page:
  assumes "a mod page_size = 0" "b < page_size" "active_pml4 h (kernel_cr3 h) = pm"
  shows "frame_translate h (a + b) =
     (if find_table h a pm \<noteq> 0 \<and> present (leaf_entry h pm a) \<and> physical_address (leaf_entry h pm a) \<noteq> 0
      then pte_target (leaf_entry h pm a) + b else 0)"
  unfolding frame_translate_def Let_def assms(3) in_page [OF assms(1,2)]
    find_table_key [OF in_page(2) [OF assms(1,2)]] by simp

lemma frame_translate_other:
  assumes lev: "pt_levels lv h pm" and up: "same_upper lv h h'" and fr: "pt_frame h h'"
    and pm: "active_pml4 h (kernel_cr3 h) = pm" and d: "leaves_distinct h pm"
    and oth: "\<And>t k. lv t = 1 \<Longrightarrow> other_slot h pm a n t k \<Longrightarrow> ptables h' t k = ptables h t k"
    and b: "\<forall>j<n. b div page_size mod 2 ^ 36 \<noteq> page_at a j div page_size mod 2 ^ 36"
  shows "frame_translate h' b = frame_translate h b"
proof -
  have ftu: "find_table h' b pm = find_table h b pm" by (rule find_table_upper [OF lev up])
  have pm': "active_pml4 h' (kernel_cr3 h') = pm"
    using pm by (simp add: pt_frame_root [OF fr])
  show ?thesis
  proof (cases "find_table h b pm = 0")
    case True
    then show ?thesis by (simp add: frame_translate_def Let_def pm pm' ftu)
  next
    case False
    have "other_slot h pm a n (find_table h b pm) (page_idx b)"
      using d slot_page False b unfolding other_slot_def leaves_distinct_def by metis
    from oth [OF find_table_level [OF lev False] this]
    show ?thesis by (simp add: frame_translate_def Let_def pm pm' ftu)
  qed
qed

lemma map_user_pages_range:
  assumes "pt_levels lv h pm" "range_ready h pm v n" "v \<noteq> 0" "p \<noteq> 0" "n \<noteq> 0" "pm \<noteq> 0"
  shows "\<exists>h'. map_user_pages alloc v p n pm w x h = Some (v, h')
     \<and> same_upper lv h h' \<and> pt_frame h h'
     \<and> (\<forall>j<n. leaf_entry h' pm (page_at v j) = user_pte (u64_add p (j * page_size)) w x)
     \<and> (\<forall>t k. lv t = 1 \<and> other_slot h pm v n t k \<longrightarrow> ptables h' t k = ptables h t k)"
proof -
  have ft: "find_table h v pm \<noteq> 0" using assms(2,5) unfolding range_ready_def by (metis neq0_conv page_at_0)
  obtain h1 where h1: "get_table alloc v False pm h = Some (find_table h v pm, h1)"
    "same_upper lv h h1" "leaf_same lv h h1" "pt_frame h h1"
    by (rule get_table_present [OF assms(1) ft])
  have ftu: "find_table h1 c pm = find_table h c pm" for c by (rule find_table_upper [OF assms(1) h1(2)])
  have "n = 0 \<or> 0 \<noteq> 0 \<and> page_idx v = 0 \<or> find_table h v pm = find_table h1 v pm"
    by (simp add: ftu)
  from map_loop_user [OF same_upper_levels [OF assms(1) h1(2)]
      range_ready_upper [OF assms(1) h1(2), THEN iffD2, OF assms(2)] this,
      of alloc False "\<lambda>i c. user_pte (u64_add p (i * page_size)) w x"]
  obtain h' where run: "map_loop alloc False (\<lambda>h. pm) (\<lambda>i c e. Some (user_pte (u64_add p (i * page_size)) w x))
        n 0 v (find_table h v pm) h1 = Some (True, h')"
    and up: "same_upper lv h1 h'" and fr: "pt_frame h1 h'"
    and ent: "\<And>j. j < n \<Longrightarrow> leaf_entry h' pm (page_at v j) = user_pte (u64_add p (j * page_size)) w x"
    and oth: "\<And>t k. lv t = 1 \<Longrightarrow> other_slot h1 pm v n t k \<Longrightarrow> ptables h' t k = ptables h1 t k"
    by auto
  have "map_user_pages alloc v p n pm w x h = Some (v, h')"
    using assms(3-6) h1(1) ft run by (simp add: map_user_pages_def map_pages_def)
  moreover have "ptables h' t k = ptables h t k" if "lv t = 1" "other_slot h pm v n t k" for t k
    using oth [OF that(1)] that h1(3) by (simp add: other_slot_def ftu leaf_same_def)
  ultimately show ?thesis
    using ent same_upper_trans [OF h1(2) up] pt_frame_trans [OF h1(4) fr] by blast
qed

lemma page_at_aligned: "v mod page_size = 0 \<Longrightarrow> page_at v j mod page_size = 0"
  by (simp add: page_at_def)

lemma user_pte_target:
  assumes "p mod page_size = 0" "p < 2 ^ 48" "p \<noteq> 0"
  shows "present (user_pte p w x)" "pte_target (user_pte p w x) = p" "physical_address (user_pte p w x) \<noteq> 0"
proof -
  obtain q where q: "p = 4096 * q" using assms(1) by (auto simp: size_consts)
  have "q < 2 ^ 36" "q \<noteq> 0" using assms(2,3) by (simp_all add: q)
  then show "present (user_pte p w x)" "pte_target (user_pte p w x) = p" "physical_address (user_pte p w x) \<noteq> 0"
    by (simp_all add: user_pte_def pte_target_def pte_frame_def q)
qed

text \<open>A table tree with one leaf table, for addresses below two megabytes.\<close>

definition link_entry :: "addr \<Rightarrow> pt_entry" where
  "link_entry t = zero_entry\<lparr>present := True, physical_address := t div 2 ^ 12\<rparr>"

definition small_tree :: heap_mgr where
  "small_tree = aligned_heap\<lparr>ptables := (\<lambda>t i. if i \<noteq> 0 then zero_entry
       else if t = 0x1000 then link_entry 0x2000 else if t = 0x2000 then link_entry 0x3000
       else if t = 0x3000 then link_entry 0x4000 else zero_entry),
     cr3 := 0x1000, kernel_cr3 := 0x1000, active_frame := 0\<rparr>"

definition small_level :: "addr \<Rightarrow> nat" where
  "small_level t = (if t = 0x1000 then 4 else if t = 0x2000 then 3 else if t = 0x3000 then 2
     else if t = 0x4000 then 1 else 0)"

lemma small_tree_find:
  "find_table small_tree a 0x1000 = (if table_key a = 0 then 0x4000 else 0)"
proof -
  have z: "table_key a = 0 \<longleftrightarrow> pml4_idx a = 0 \<and> pdp_idx a = 0 \<and> pd_idx a = 0"
    using table_key_idx [of a 0] by (simp add: table_key_def pml4_idx_def pdp_idx_def pd_idx_def)
  show ?thesis unfolding z find_table_def
    by (simp add: small_tree_def link_entry_def zero_entry_def pte_target_def Let_def)
qed

lemma small_tree_levels: "pt_levels small_level small_tree 0x1000"
  by (auto simp: pt_levels_def small_tree_def small_level_def link_entry_def zero_entry_def pte_target_def)

lemma small_tree_ready: "range_ready small_tree 0x1000 0x10000 4"
  by (auto simp: range_ready_def leaves_distinct_def small_tree_find page_at_def size_consts
      table_key_def split: if_splits)

lemma small_tree_root: "active_pml4 small_tree (kernel_cr3 small_tree) = 0x1000"
  by (simp add: active_pml4_def small_tree_def)

text \<open>
  C10. Mapping a user range: when the upper tables of the range exist, \<open>__map_user_pages\<close> succeeds
  without building tables, every byte of the range then translates to the corresponding byte of the
  physical range, with the requested write and execute rights, and the translation of every address on
  any other page is what it was.
\<close>

theorem map_user_pages_translates:
  assumes "pt_levels lv h pm" "range_ready h pm v n" "active_pml4 h (kernel_cr3 h) = pm"
    and "v \<noteq> 0" "p \<noteq> 0" "n \<noteq> 0" "pm \<noteq> 0"
    and "v mod page_size = 0" "p mod page_size = 0" "p + n * page_size \<le> 2 ^ 48"
  shows "\<exists>h'. map_user_pages alloc v p n pm w x h = Some (v, h')
     \<and> (\<forall>j<n. \<forall>b<page_size. frame_translate h' (v + j * page_size + b) = p + j * page_size + b)
     \<and> (\<forall>j<n. pte_write (leaf_entry h' pm (v + j * page_size)) = w
          \<and> execute_disable (leaf_entry h' pm (v + j * page_size)) = (\<not> x))
     \<and> (\<forall>b. (\<forall>j<n. b div page_size mod 2 ^ 36 \<noteq> (v + j * page_size) div page_size mod 2 ^ 36)
          \<longrightarrow> frame_translate h' b = frame_translate h b)"
proof -
  obtain h' where run: "map_user_pages alloc v p n pm w x h = Some (v, h')"
    and up: "same_upper lv h h'" and fr: "pt_frame h h'"
    and ent: "\<And>j. j < n \<Longrightarrow> leaf_entry h' pm (page_at v j) = user_pte (u64_add p (j * page_size)) w x"
    and oth: "\<And>t k. lv t = 1 \<Longrightarrow> other_slot h pm v n t k \<Longrightarrow> ptables h' t k = ptables h t k"
    using map_user_pages_range [OF assms(1,2,4-7)] by blast
  have pm': "active_pml4 h' (kernel_cr3 h') = pm"
    using assms(3) by (simp add: pt_frame_root [OF fr])
  have q: "u64_add p (j * page_size) = p + j * page_size" "p + j * page_size < 2 ^ 48" if "j < n" for j
  proof -
    have "(j + 1) * page_size \<le> n * page_size" using that by (intro mult_le_mono1) simp
    then show "p + j * page_size < 2 ^ 48" using assms(10) by (simp add: size_consts)
    then show "u64_add p (j * page_size) = p + j * page_size" by (simp add: u64_add_id)
  qed
  have "frame_translate h' (v + j * page_size + b) = p + j * page_size + b" if "j < n" "b < page_size" for j b
  proof -
    have "find_table h' (page_at v j) pm \<noteq> 0"
      using assms(2) that find_table_upper [OF assms(1) up] by (simp add: range_ready_def)
    then show ?thesis
      using frame_translate_page [OF page_at_aligned [OF assms(8)] that(2) pm', of j] ent [OF that(1)]
        user_pte_target [of "p + j * page_size"] q [OF that(1)] assms(5,9)
      by (simp add: page_at_def)
  qed
  moreover have "pte_write (leaf_entry h' pm (v + j * page_size)) = w
       \<and> execute_disable (leaf_entry h' pm (v + j * page_size)) = (\<not> x)" if "j < n" for j
    using ent [OF that] by (simp add: page_at_def user_pte_def)
  moreover have "frame_translate h' b = frame_translate h b"
    if "\<forall>j<n. b div page_size mod 2 ^ 36 \<noteq> (v + j * page_size) div page_size mod 2 ^ 36" for b
    using frame_translate_other [OF assms(1) up fr assms(3) _ oth] that assms(2)
    by (simp add: range_ready_def page_at_def)
  ultimately show ?thesis using run by blast
qed

theorem map_user_pages_translates_witness:
  "\<exists>h'. map_user_pages (allocate_pt 1 1 False) 0x10000 0x80000 4 0x1000 True False small_tree = Some (0x10000, h')
     \<and> frame_translate h' (0x10000 + 1 * page_size + 5) = 0x80000 + 1 * page_size + 5"
proof -
  have c: "(0x10000::nat) mod page_size = 0" "(0x80000::nat) mod page_size = 0" "0x80000 + 4 * page_size \<le> 2 ^ 48"
    "(0x10000::nat) \<noteq> 0" "(0x80000::nat) \<noteq> 0" "(4::nat) \<noteq> 0" "(0x1000::nat) \<noteq> 0" "(1::nat) < 4" "5 < page_size"
    by (simp_all add: size_consts)
  show ?thesis
    using map_user_pages_translates [OF small_tree_levels small_tree_ready small_tree_root c(4-7) c(1-3),
        of "allocate_pt 1 1 False" True False] c(8,9) by blast
qed

text \<open>
  C11. Mapping and unmapping: unmapping a range that was just mapped leaves no page of the range
  translated, and every address on another page translates as it did before the range was mapped.
\<close>

theorem map_unmap_user_pages:
  assumes "pt_levels lv h pm" "range_ready h pm v n" "active_pml4 h (kernel_cr3 h) = pm"
    and "v \<noteq> 0" "p \<noteq> 0" "n \<noteq> 0" "pm \<noteq> 0" "v mod page_size = 0"
  shows "\<exists>h'. map_user_pages alloc v p n pm w x h = Some (v, h')
     \<and> (\<forall>j<n. \<forall>b<page_size. frame_translate (unmap_pages h' v n pm) (v + j * page_size + b) = 0)
     \<and> (\<forall>b. (\<forall>j<n. b div page_size mod 2 ^ 36 \<noteq> (v + j * page_size) div page_size mod 2 ^ 36)
          \<longrightarrow> frame_translate (unmap_pages h' v n pm) b = frame_translate h b)"
proof -
  obtain h' where run: "map_user_pages alloc v p n pm w x h = Some (v, h')"
    and up: "same_upper lv h h'" and fr: "pt_frame h h'"
    and ent: "\<And>j. j < n \<Longrightarrow> leaf_entry h' pm (page_at v j) = user_pte (u64_add p (j * page_size)) w x"
    and oth: "\<And>t k. lv t = 1 \<Longrightarrow> other_slot h pm v n t k \<Longrightarrow> ptables h' t k = ptables h t k"
    using map_user_pages_range [OF assms(1,2,4-7)] by blast
  have pm': "active_pml4 h' (kernel_cr3 h') = pm"
    using assms(3) by (simp add: pt_frame_root [OF fr])
  let ?u = "unmap_loop n v 0 pm h'"
  have u: "unmap_pages h' v n pm = ?u" using assms(4,6) by (simp add: unmap_pages_def)
  have rdy: "range_ready h' pm v n" using assms(2) range_ready_upper [OF assms(1) up] by blast
  have gl: "\<forall>j<n. \<not> global (leaf_entry h' pm (page_at v j))"
    using ent by (simp add: user_pte_def zero_entry_def)
  have lev': "pt_levels lv h' pm" by (rule same_upper_levels [OF assms(1) up])
  from unmap_loop_range [OF lev' rdy _ gl, of 0]
  have up': "same_upper lv h' ?u" and fr': "pt_frame h' ?u"
    and zer: "\<And>j. j < n \<Longrightarrow> leaf_entry ?u pm (page_at v j) = zero_entry"
    and oth': "\<And>t k. lv t = 1 \<Longrightarrow> other_slot h' pm v n t k \<Longrightarrow> ptables ?u t k = ptables h' t k"
    by simp_all
  have pmu: "active_pml4 ?u (kernel_cr3 ?u) = pm"
    using pm' by (simp add: pt_frame_root [OF fr'])
  have "frame_translate ?u (v + j * page_size + b) = 0" if "j < n" "b < page_size" for j b
    using frame_translate_page [OF page_at_aligned [OF assms(8)] that(2) pmu, of j] zer [OF that(1)]
    by (simp add: page_at_def zero_entry_def)
  moreover have "frame_translate ?u b = frame_translate h b"
    if "\<forall>j<n. b div page_size mod 2 ^ 36 \<noteq> (v + j * page_size) div page_size mod 2 ^ 36" for b
    using frame_translate_other [OF assms(1) up fr assms(3) _ oth, of v n b]
      frame_translate_other [OF lev' up' fr' pm' _ oth', of v n b] that assms(2) rdy
    by (simp add: range_ready_def page_at_def)
  ultimately show ?thesis using run u by auto
qed

theorem map_unmap_user_pages_witness:
  "\<exists>h'. map_user_pages (allocate_pt 1 1 False) 0x10000 0x80000 4 0x1000 True False small_tree = Some (0x10000, h')
     \<and> frame_translate (unmap_pages h' 0x10000 4 0x1000) (0x10000 + 1 * page_size + 5) = 0"
proof -
  have c: "(0x10000::nat) mod page_size = 0"
    "(0x10000::nat) \<noteq> 0" "(0x80000::nat) \<noteq> 0" "(4::nat) \<noteq> 0" "(0x1000::nat) \<noteq> 0" "(1::nat) < 4" "5 < page_size"
    by (simp_all add: size_consts)
  show ?thesis
    using map_unmap_user_pages [OF small_tree_levels small_tree_ready small_tree_root c(2-5) c(1),
        of "allocate_pt 1 1 False" True False] c(6,7) by blast
qed

end
