(* ===== verification/Startup.thy ===== *)
theory Startup
  imports Page_Maps
begin

text \<open>
  What \<open>init_instance\<close> establishes: the status array after start-up marks exactly the regions below the
  heap and the regions counted for the entries of the memory map that are not available, and the
  invariant of the region allocator holds.  The count starts at the region of an entry's first page, so
  an entry that begins inside a region can keep its last pages unmarked.
\<close>

definition same_regions :: "'a region_mgr_scheme \<Rightarrow> 'a region_mgr_scheme \<Rightarrow> bool" where
  "same_regions h h' \<longleftrightarrow> status_bytes h' = status_bytes h \<and> num_status_bytes h' = num_status_bytes h
     \<and> kernel_heap_begin h' = kernel_heap_begin h \<and> watermark h' = watermark h"

lemma same_regions_status: "same_regions h h' \<Longrightarrow> get_status h' a = get_status h a"
  by (simp add: same_regions_def get_status_def)

lemma same_regions_wf: "same_regions h h' \<Longrightarrow> region_wf h' = region_wf h"
  by (simp add: same_regions_def region_wf_def)

lemma flags_loop_regions: "same_regions h (kernel_flags_loop im n a pt h)"
proof (induction n arbitrary: a pt h)
  case 0
  show ?case by (simp add: same_regions_def)
next
  case (Suc n)
  show ?case
    by (simp only: kernel_flags_loop.simps Let_def, rule same_regions_def [THEN iffD2])
      (use Suc.IH in \<open>auto simp: same_regions_def put_pte_def\<close>)
qed

lemma mark_used_shape:
  assumes "start + n * region_size \<le> 2 ^ 62"
  shows "mark_used k start n = fold (\<lambda>i. mark_all ((start div region_size + i) * region_size)) [0..<n] k"
  unfolding mark_used_def
proof (rule fold_cong [OF refl refl])
  fix i assume "i \<in> set [0..<n]"
  then have "i * region_size \<le> n * region_size" by simp
  then have "start + i * region_size \<le> 2 ^ 62" using assms by linarith
  then have "start + i * region_size < 2 ^ 64" by simp
  then have e: "u64_add start (i * region_size) = start + i * region_size" by (simp add: u64_add_id)
  have "(start + i * region_size) div region_size = start div region_size + i" by simp
  then show "mark_all (u64_add start (i * region_size)) = mark_all ((start div region_size + i) * region_size)"
    using status_of_addr(2) [of "start + i * region_size"]
    by (auto simp: e mark_all_def fun_eq_iff add.commute [of i])
qed

lemma mark_used_status:
  assumes "region_wf k" "start + n * region_size \<le> 2 ^ 62"
    and "start div region_size + n \<le> num_regions_of k" "q < num_regions_of k"
  shows "get_status (mark_used k start n) (q * region_size)
    = (if start div region_size \<le> q \<and> q < start div region_size + n then 0xFF
       else get_status k (q * region_size))"
  using fold_put_status [of mark_all "\<lambda>b. set_used b I_ALL" k "start div region_size" n q] assms
  by (simp add: mark_used_shape mark_all_def)

lemma mark_used_fields [simp]:
  "num_status_bytes (mark_used k start n) = num_status_bytes k"
  "kernel_heap_begin (mark_used k start n) = kernel_heap_begin k"
  "watermark (mark_used k start n) = watermark k"
  "region_wf (mark_used k start n) = region_wf k"
  by (simp_all add: mark_used_def)

text \<open>The regions the start-up code counts for an entry, and an entry that lies in tracked memory.\<close>

definition counted :: "mmap_entry \<Rightarrow> nat \<Rightarrow> bool" where
  "counted e q \<longleftrightarrow> me_type e \<noteq> AVAILABLE \<and> me_addr e div region_size \<le> q
     \<and> q < me_addr e div region_size + taken_pages e"

definition entry_tracked :: "nat \<Rightarrow> mmap_entry \<Rightarrow> bool" where
  "entry_tracked rows e \<longleftrightarrow> me_type e \<noteq> MMIO \<and>
     (me_type e \<noteq> AVAILABLE \<longrightarrow> me_addr e div region_size + taken_pages e \<le> 512 * rows
        \<and> me_addr e + taken_pages e * region_size \<le> 2 ^ 62)"

lemma reserve_entries_status:
  assumes "region_wf h" "list_all (entry_tracked (num_status_bytes h)) es"
  shows "\<exists>tot' h'. reserve_entries d f es tot h = Some (tot', h') \<and> region_wf h'
     \<and> num_status_bytes h' = num_status_bytes h \<and> kernel_heap_begin h' = kernel_heap_begin h
     \<and> (\<forall>q<num_regions_of h. get_status h' (q * region_size)
          = (if \<exists>e\<in>set es. counted e q then 0xFF else get_status h (q * region_size)))"
  using assms
proof (induction es arbitrary: h tot)
  case Nil
  then show ?case by simp
next
  case (Cons e es)
  show ?case
  proof (cases "me_type e = AVAILABLE")
    case True
    have "counted e q = False" for q using True by (simp add: counted_def)
    then show ?thesis using Cons True by simp
  next
    case False
    let ?h1 = "mark_used h (me_addr e) (taken_pages e)"
    have tr: "me_type e \<noteq> MMIO" "me_addr e div region_size + taken_pages e \<le> num_regions_of h"
      "me_addr e + taken_pages e * region_size \<le> 2 ^ 62"
      using Cons.prems(2) False by (simp_all add: entry_tracked_def)
    have st: "get_status ?h1 (q * region_size) = (if counted e q then 0xFF else get_status h (q * region_size))"
      if "q < num_regions_of h" for q
      using mark_used_status [OF Cons.prems(1) tr(3,2) that] False by (simp add: counted_def)
    have "reserve_entries d f (e # es) tot h
        = reserve_entries d f es (u64_sub tot (u64_mul (taken_pages e) page_size)) ?h1"
      using False tr(1) by simp
    moreover have "\<exists>tot' h'. reserve_entries d f es (u64_sub tot (u64_mul (taken_pages e) page_size)) ?h1
        = Some (tot', h') \<and> region_wf h'
        \<and> num_status_bytes h' = num_status_bytes ?h1 \<and> kernel_heap_begin h' = kernel_heap_begin ?h1
        \<and> (\<forall>q<num_regions_of ?h1. get_status h' (q * region_size)
             = (if \<exists>e\<in>set es. counted e q then 0xFF else get_status ?h1 (q * region_size)))"
      using Cons.prems by (intro Cons.IH) simp_all
    ultimately show ?thesis using st by (auto split: if_splits)
  qed
qed

definition memory_rows :: "nat \<Rightarrow> nat" where
  "memory_rows total_mem = div_round_up total_mem gigabyte"

text \<open>The image and the status array fit in tracked memory.\<close>

definition image_fits :: "kernel_image \<Rightarrow> nat \<Rightarrow> bool" where
  "image_fits im total_mem \<longleftrightarrow> memory_rows total_mem < 2 ^ 31 \<and> 0 < heap_start im total_mem
     \<and> heap_start im total_mem + region_size \<le> memory_rows total_mem * gigabyte"

lemma fresh_manager_wf:
  assumes "image_fits im total_mem"
  shows "region_wf (fresh_manager im total_mem h)"
proof -
  let ?n = "memory_rows total_mem" and ?s = "heap_start im total_mem"
  have n: "?n * gigabyte \<le> 2 ^ 61" using assms by (simp add: image_fits_def size_consts)
  have s: "?s + region_size \<le> 2 ^ 61" using assms n unfolding image_fits_def by linarith
  have "up_to_nearest ?s region_size \<le> ?s + region_size - 1"
    using up_to_nearest_bounds [of region_size ?s] s by (simp add: size_consts)
  then have "up_to_nearest ?s region_size < 2 ^ 62" using s by simp
  moreover have "?s + ?n + region_size \<le> 2 ^ 62" using s assms by (simp add: image_fits_def)
  ultimately show ?thesis
    using assms by (simp add: region_wf_def fresh_manager_def memory_rows_def image_fits_def Let_def list_all_iff)
qed

lemma fresh_manager_status:
  assumes "q < 512 * memory_rows total_mem" "memory_rows total_mem < 2 ^ 31"
  shows "get_status (fresh_manager im total_mem h) (q * region_size) = 0"
proof -
  have "gb_of (q * region_size) < memory_rows total_mem"
    using assms by (subst gb_of_lt_iff) auto
  moreover have "sb_of (q * region_size) < 512" by (simp add: sb_of_def)
  ultimately show ?thesis
    by (simp add: get_status_def fresh_manager_def memory_rows_def Let_def)
qed

lemma init_reserve_status:
  fixes h :: "'a heap_mgr_scheme"
  assumes fit: "image_fits im total_mem" and tr: "list_all (entry_tracked (memory_rows total_mem)) entries"
  shows "\<exists>h'. init_reserve d f im total_mem entries h = Some h' \<and> region_wf h'
     \<and> num_status_bytes h' = memory_rows total_mem
     \<and> (\<forall>q<512 * memory_rows total_mem. get_status h' (q * region_size) =
       (if q < div_round_up (heap_start im total_mem) region_size \<or> (\<exists>e\<in>set entries. counted e q)
        then 0xFF else 0))"
proof -
  let ?n = "memory_rows total_mem" and ?h1 = "fresh_manager im total_mem h"
  let ?r = "div_round_up (heap_start im total_mem) region_size"
  have wf1: "region_wf ?h1" by (rule fresh_manager_wf [OF fit])
  have n1: "num_status_bytes ?h1 = ?n" "kernel_heap_begin ?h1 = heap_start im total_mem"
    by (simp_all add: fresh_manager_def memory_rows_def Let_def)
  have n31: "?n < 2 ^ 31" using fit by (simp add: image_fits_def)
  from reserve_entries_status [OF wf1, of entries d f total_mem] tr n1 obtain tot' h2 where
    h2: "reserve_entries d f entries total_mem ?h1 = Some (tot', h2)" "region_wf h2"
      "num_status_bytes h2 = ?n" "\<And>q. q < 512 * ?n \<Longrightarrow> get_status h2 (q * region_size)
        = (if \<exists>e\<in>set entries. counted e q then 0xFF else get_status ?h1 (q * region_size))"
    by auto
  let ?h3 = "mark_used h2 0 ?r" and ?h4 = "set_kernel_page_flags im (status_base im) (mark_used h2 0 ?r)"
  let ?h5 = "?h4\<lparr>remaining_memory := tot', total_memory := tot', kernel_cr3 := cr3 ?h4\<rparr>"
  have "?r * region_size \<le> heap_start im total_mem + region_size - 1"
    using div_round_up_bounds [of region_size "heap_start im total_mem"] by (simp add: size_consts)
  then have rb: "?r * region_size < ?n * gigabyte"
    using fit by (simp add: image_fits_def size_consts)
  have rlt: "?r \<le> 512 * ?n" "0 + ?r * region_size \<le> 2 ^ 62"
    using rb n31 by (simp_all add: size_consts)
  have s3: "same_regions ?h3 ?h4" unfolding set_kernel_page_flags_def by (rule flags_loop_regions)
  have s5: "same_regions ?h3 ?h5" using s3 by (simp add: same_regions_def)
  have st: "get_status ?h5 (q * region_size) = (if q < ?r \<or> (\<exists>e\<in>set entries. counted e q) then 0xFF else 0)"
    if q: "q < 512 * ?n" for q
    using mark_used_status [OF h2(2) rlt(2), of q] rlt(1) q h2(3,4) fresh_manager_status [OF q n31, of im h]
    by (auto simp: same_regions_status [OF s5])
  have "init_reserve d f im total_mem entries h = Some ?h5"
    using h2(1) n1(2) by (simp add: init_reserve_def Let_def)
  moreover have "region_wf ?h5" using h2(2) by (simp add: same_regions_wf [OF s5])
  moreover have "num_status_bytes ?h5 = ?n" using s5 h2(3) by (simp add: same_regions_def)
  ultimately show ?thesis using st by blast
qed

lemma full_status_used:
  assumes "region_wf k" "p < 512 * num_regions_of k" "get_status k (p div 512 * region_size) = b" "b = 0xFF \<or> b = 0"
  shows "p \<in> used_pages k \<longleftrightarrow> b = 0xFF"
proof -
  have "(0xFF :: u8) AND page_block p \<noteq> 0"
    by (simp add: page_block_def Let_def I0_def I1_def I2_def I3_def I4_def I5_def I6_def I7_def)
  then show ?thesis using assms by (auto simp: used_pages_def page_used_eq)
qed

definition sample_image :: kernel_image where
  "sample_image = \<lparr>img_start = 0x200000, img_end = 0x400000, img_code = 0x200000, img_code_end = 0x300000,
     img_rodata = 0x300000, img_rodata_end = 0x340000, img_pages = 512, sigtramp = 0x280000\<rparr>"

definition sample_entries :: "mmap_entry list" where
  "sample_entries = [\<lparr>me_addr = 0, me_len = 1024, me_type = AVAILABLE\<rparr>,
     \<lparr>me_addr = 0x10100000, me_len = 512, me_type = RESERVED\<rparr>]"

lemma sample_fits: "image_fits sample_image (2 ^ 30)"
  by (simp add: image_fits_def memory_rows_def heap_start_def status_base_def sample_image_def kframe_size_def
      Let_def addr_plus_def u64_add_def u64_mul_def u64_sub_def div_round_up_def page_aligned_def addr_minus_def
      next_page_aligned_def size_consts)

lemma sample_tracked: "list_all (entry_tracked (memory_rows (2 ^ 30))) sample_entries"
  by (simp add: sample_entries_def entry_tracked_def memory_rows_def taken_pages_def div_round_up_def size_consts)



text \<open>
  The memory map entries are not covered: an entry that starts inside a region and reaches into
  one region more than its length rounds up to keeps its last page free, so the region allocator may hand
  out memory the firmware reserved.
\<close>

theorem init_instance_misses_tail:
  assumes "image_fits im total_mem" "entry_tracked (memory_rows total_mem) e" "me_type e = RESERVED"
    and "0 < me_len e" "me_addr e mod page_size = 0"
    and "div_round_up (heap_start im total_mem) region_size \<le> me_addr e div region_size"
    and "me_addr e mod region_size + me_len e * page_size > taken_pages e * region_size"
    and "me_addr e + me_len e * page_size \<le> memory_rows total_mem * gigabyte"
  shows "\<exists>h' p. init_reserve d f im total_mem [e] h = Some h' \<and> p \<notin> used_pages h'
     \<and> me_addr e \<le> p * page_size \<and> (p + 1) * page_size \<le> me_addr e + me_len e * page_size"
proof -
  let ?n = "memory_rows total_mem" and ?r = "div_round_up (heap_start im total_mem) region_size"
  let ?p = "me_addr e div page_size + (me_len e - 1)" and ?t = "me_addr e div region_size"
  obtain h' where run: "init_reserve d f im total_mem [e] h = Some h'" and wf: "region_wf h'"
    and n: "num_status_bytes h' = ?n"
    and st: "\<And>q. q < 512 * ?n \<Longrightarrow> get_status h' (q * region_size) =
       (if q < ?r \<or> (\<exists>e\<in>set [e]. counted e q) then 0xFF else 0)"
    using init_reserve_status [of im total_mem "[e]" d f h] assms(1,2) by auto
  obtain a where a: "me_addr e = a * 4096" using assms(5) by (auto simp: size_consts mult.commute)
  have t: "?t = a div 512" "me_addr e mod region_size = a mod 512 * 4096"
    using mod_mult_mult2 [of a 4096 512] by (simp_all add: a size_consts)
  have "taken_pages e * 512 < a mod 512 + me_len e"
    using assms(7) unfolding t by (simp add: size_consts)
  then have past: "?t + taken_pages e \<le> ?p div 512"
  proof -
    have "(a div 512 + taken_pages e) * 512 \<le> a + (me_len e - 1)"
      using assms(4) \<open>taken_pages e * 512 < _\<close> div_mult_mod_eq [of a 512]
      unfolding add_mult_distrib by linarith
    then have "a div 512 + taken_pages e \<le> (a + (me_len e - 1)) div 512"
      by (simp add: less_eq_div_iff_mult_less_eq)
    then show ?thesis using t(1) by (simp add: a size_consts)
  qed
  then have "\<not> counted e (?p div 512)" "\<not> ?p div 512 < ?r"
    using assms(6) by (simp_all add: counted_def)
  moreover have lt: "?p < 2 ^ 18 * ?n"
    using assms(4,8) by (simp add: a size_consts)
  ultimately have "?p \<notin> used_pages h'"
    using full_status_used [OF wf _ st [of "?p div 512"]] n by auto
  then show ?thesis using run assms(4) by (intro exI conjI) (auto simp: a size_consts)
qed

theorem init_instance_misses_tail_witness:
  "\<exists>h' p. init_reserve 1 1 sample_image (2 ^ 30) [\<lparr>me_addr = 0x10100000, me_len = 512, me_type = RESERVED\<rparr>] small_tree
       = Some h' \<and> p \<notin> used_pages h'
     \<and> me_addr \<lparr>me_addr = 0x10100000, me_len = 512, me_type = RESERVED\<rparr> \<le> p * page_size
     \<and> (p + 1) * page_size \<le> me_addr \<lparr>me_addr = 0x10100000, me_len = 512, me_type = RESERVED\<rparr>
          + me_len \<lparr>me_addr = 0x10100000, me_len = 512, me_type = RESERVED\<rparr> * page_size"
proof -
  let ?e = "\<lparr>me_addr = 0x10100000, me_len = 512, me_type = RESERVED\<rparr>"
  have c: "entry_tracked (memory_rows (2 ^ 30)) ?e" "me_type ?e = RESERVED" "0 < me_len ?e" "me_addr ?e mod page_size = 0"
    "div_round_up (heap_start sample_image (2 ^ 30)) region_size \<le> me_addr ?e div region_size"
    "me_addr ?e mod region_size + me_len ?e * page_size > taken_pages ?e * region_size"
    "me_addr ?e + me_len ?e * page_size \<le> memory_rows (2 ^ 30) * gigabyte"
    by (simp_all add: entry_tracked_def memory_rows_def taken_pages_def div_round_up_def size_consts
        heap_start_def status_base_def sample_image_def kframe_size_def Let_def addr_plus_def u64_add_def
        u64_mul_def u64_sub_def page_aligned_def addr_minus_def next_page_aligned_def)
  show ?thesis by (rule init_instance_misses_tail [OF sample_fits c])
qed

end
