(* ===== verification/Frames.thy ===== *)
theory Frames
  imports Startup
begin

text \<open>
  Stage 3: user frames.  The operations of \<open>uframe_tag\<close> (growing the heap, memory maps, system resource
  pages, moving blocks between frames) and \<open>frame_manager\<close>, which creates, forks and destroys frames
  and counts the references to blocks that several frames map.  A frame is addressed by its node in the
  manager's set; the address of a new node is an argument, since it comes from the container's
  allocator.  A pointer to an entry of the table of global blocks is represented by the key of that
  entry, its virtual address.
\<close>

subsection \<open>State\<close>

record shared_block =
  sb_desc :: block_descriptor
  num_refs :: nat

record frame_mgr = heap_mgr +
  global_shared :: "addr \<rightharpoonup> shared_block"
  local_shared :: "addr \<rightharpoonup> int"
  frame_set :: "addr list"

text \<open>Exceptions and the one place where the code reads through an end iterator.\<close>

datatype fm_error = OutOfRange | RuntimeError | BadAlloc | EndIterator

definition upd_frame :: "addr \<Rightarrow> (uframe_tag \<Rightarrow> uframe_tag) \<Rightarrow> 'a paging_mgr_scheme \<Rightarrow> 'a paging_mgr_scheme" where
  "upd_frame ft g h = h\<lparr>frames := (frames h)(ft := g (frames h ft))\<rparr>"

subsection \<open>Reference counts\<close>

definition release_descriptor :: "nat \<Rightarrow> block_descriptor \<Rightarrow> 'a frame_mgr_scheme \<Rightarrow> 'a frame_mgr_scheme option" where
  "release_descriptor f blk h =
     (let dealloc = deallocate_user_block f (virtual_start blk) (bd_size blk) (bd_align blk)
                      (virtual_start blk \<noteq> physical_start blk) in
      case local_shared h (physical_start blk) of
        Some n \<Rightarrow>
          (if n - 1 > 0 then Some (h\<lparr>local_shared := (local_shared h)(physical_start blk \<mapsto> n - 1)\<rparr>)
           else dealloc (h\<lparr>local_shared := (local_shared h)(physical_start blk := None)\<rparr>))
      | None \<Rightarrow>
          (case global_shared h (virtual_start blk) of
             Some sb \<Rightarrow>
               (let n = u64_sub (num_refs sb) 1 in
                if n > 0 then Some (h\<lparr>global_shared := (global_shared h)(virtual_start blk \<mapsto> sb\<lparr>num_refs := n\<rparr>)\<rparr>)
                else dealloc (h\<lparr>global_shared := (global_shared h)(virtual_start blk := None)\<rparr>))
           | None \<Rightarrow> dealloc h))"

definition drop_local_block :: "nat \<Rightarrow> addr \<Rightarrow> block_descriptor \<Rightarrow> 'a frame_mgr_scheme \<Rightarrow> 'a frame_mgr_scheme option" where
  "drop_local_block f ft bd h = map_option exit_frame (release_descriptor f bd (enter_frame ft h))"

text \<open>The bookkeeping of \<open>fork_frame\<close> for a block both frames map.\<close>

definition share_local :: "addr \<Rightarrow> 'a frame_mgr_scheme \<Rightarrow> 'a frame_mgr_scheme" where
  "share_local p h = h\<lparr>local_shared := (local_shared h)(p \<mapsto>
     (case local_shared h p of Some n \<Rightarrow> n + 1 | None \<Rightarrow> 2))\<rparr>"

definition count_references :: "'a frame_mgr_scheme \<Rightarrow> addr \<Rightarrow> nat" where
  "count_references h v = (case global_shared h v of Some sb \<Rightarrow> num_refs sb | None \<Rightarrow> 0)"

definition get_global_shared ::
  "nat \<Rightarrow> nat \<Rightarrow> addr \<Rightarrow> nat \<Rightarrow> addr \<Rightarrow> nat \<Rightarrow> bool \<Rightarrow> 'a frame_mgr_scheme
   \<Rightarrow> (block_descriptor option \<times> 'a frame_mgr_scheme) option" where
  "get_global_shared d f ft sz start align x h =
     (case global_shared h start of
        None \<Rightarrow>
          (case allocate_user_block d f sz start align False x (enter_frame ft h) of
             None \<Rightarrow> None
           | Some (allocated, h1) \<Rightarrow>
               (let h2 = exit_frame h1;
                    sbd = \<lparr>physical_start = allocated, virtual_start = start, bd_size = sz, bd_align = align,
                      bd_write = False, bd_execute = x\<rparr> in
                if allocated = 0 then Some (None, h2)
                else Some (Some sbd, upd_frame ft (\<lambda>u. u\<lparr>shared_blocks := shared_blocks u @ [start]\<rparr>)
                       (h2\<lparr>global_shared := (global_shared h2)(start \<mapsto> \<lparr>sb_desc = sbd, num_refs = 1\<rparr>)\<rparr>))))
      | Some sb \<Rightarrow>
          (case map_to_current_frame d f (sb_desc sb) (enter_frame ft h) of
             None \<Rightarrow> None
           | Some h1 \<Rightarrow>
               (let h2 = exit_frame h1 in
                Some (Some (sb_desc sb), upd_frame ft (\<lambda>u. u\<lparr>shared_blocks := shared_blocks u @ [start]\<rparr>)
                  (h2\<lparr>global_shared := (global_shared h2)(start \<mapsto>
                     sb\<lparr>num_refs := u64_add (num_refs sb) 1\<rparr>)\<rparr>)))))"

subsection \<open>Operations on one frame\<close>

definition add_block ::
  "nat \<Rightarrow> nat \<Rightarrow> addr \<Rightarrow> nat \<Rightarrow> addr \<Rightarrow> nat \<Rightarrow> bool \<Rightarrow> bool \<Rightarrow> bool \<Rightarrow> 'a frame_mgr_scheme
   \<Rightarrow> (block_descriptor option \<times> 'a frame_mgr_scheme) option" where
  "add_block d f ft sz start align w x allow_global_shared h =
     (if allow_global_shared \<and> \<not> w then get_global_shared d f ft sz start align x h
      else case allocate_user_block d f sz start align w x (enter_frame ft h) of
        None \<Rightarrow> None
      | Some (allocated, h1) \<Rightarrow>
          (let h2 = exit_frame h1;
               bd = \<lparr>physical_start = allocated, virtual_start = start, bd_size = sz, bd_align = align,
                 bd_write = w, bd_execute = x\<rparr> in
           if allocated = 0 then Some (None, h2)
           else Some (Some bd, upd_frame ft (\<lambda>u. u\<lparr>usr_blocks := usr_blocks u @ [bd]\<rparr>) h2)))"

definition accept_block :: "nat \<Rightarrow> nat \<Rightarrow> addr \<Rightarrow> block_descriptor \<Rightarrow> 'a frame_mgr_scheme \<Rightarrow> 'a frame_mgr_scheme option" where
  "accept_block d f ft desc h =
     map_option exit_frame (map_to_current_frame d f desc
       (enter_frame ft (upd_frame ft (\<lambda>u. u\<lparr>usr_blocks := usr_blocks u @ [desc]\<rparr>) h)))"

text \<open>\<open>operator==\<close> of \<open>block_descriptor\<close> and \<open>find\<close> over a vector of them.\<close>

definition same_descriptor :: "block_descriptor \<Rightarrow> block_descriptor \<Rightarrow> bool" where
  "same_descriptor a b \<longleftrightarrow> physical_start a = physical_start b \<and> virtual_start a = virtual_start b
     \<and> bd_size a = bd_size b"

fun split_at_descriptor ::
  "block_descriptor \<Rightarrow> block_descriptor list \<Rightarrow> (block_descriptor list \<times> block_descriptor \<times> block_descriptor list) option" where
  "split_at_descriptor k [] = None"
| "split_at_descriptor k (b # bs) =
     (if same_descriptor b k then Some ([], b, bs)
      else map_option (\<lambda>(xs, c, ys). (b # xs, c, ys)) (split_at_descriptor k bs))"

definition transfer_block ::
  "nat \<Rightarrow> nat \<Rightarrow> addr \<Rightarrow> addr \<Rightarrow> block_descriptor \<Rightarrow> 'a frame_mgr_scheme \<Rightarrow> 'a frame_mgr_scheme option" where
  "transfer_block d f ft that which h =
     (case split_at_descriptor which (usr_blocks (frames h ft)) of
        None \<Rightarrow> Some h
      | Some (xs, b, ys) \<Rightarrow>
          map_option (upd_frame ft (\<lambda>u. u\<lparr>usr_blocks := xs @ ys\<rparr>)) (accept_block d f that b h))"

definition shift_extent ::
  "nat \<Rightarrow> nat \<Rightarrow> addr \<Rightarrow> int \<Rightarrow> 'a frame_mgr_scheme \<Rightarrow> (fm_error + bool \<times> 'a frame_mgr_scheme) option" where
  "shift_extent d f ft amount h =
     (let u = frames h ft in
      if amount = 0 then Some (Inr (True, h))
      else if amount < 0 then
        (if \<not> u64_sub (uf_extent u) (uf_base u) > nat (- amount) then Some (Inr (False, h))
         else Some (Inl EndIterator))
      else
        (let added = aligned_size (uf_extent u) (nat amount) in
         case add_block d f ft added (uf_extent u) page_size True False False h of
           None \<Rightarrow> None
         | Some (None, h1) \<Rightarrow> Some (Inr (False, h1))
         | Some (Some bd, h1) \<Rightarrow>
             Some (Inr (True, zero_bytes (physical_start bd) (bd_size bd div 8 * 8)
               (upd_frame ft (\<lambda>u. u\<lparr>uf_extent := addr_plus (virtual_start bd) (bd_size bd)\<rparr>) h1)))))"

definition enomem_addr :: addr where
  "enomem_addr = 2 ^ 64 - 12"

definition mmap_add ::
  "nat \<Rightarrow> nat \<Rightarrow> addr \<Rightarrow> addr \<Rightarrow> nat \<Rightarrow> bool \<Rightarrow> bool \<Rightarrow> 'a frame_mgr_scheme \<Rightarrow> (addr \<times> 'a frame_mgr_scheme) option" where
  "mmap_add d f ft a0 len w x h =
     (let a1 = page_aligned a0; a = (if a1 = 0 then uf_extent (frames h ft) else a1) in
      case add_block d f ft len a page_size w x False h of
        None \<Rightarrow> None
      | Some (None, h1) \<Rightarrow> Some (enomem_addr, h1)
      | Some (Some bd, h1) \<Rightarrow>
          (let actual = aligned_size a len; top = addr_plus a actual
           in Some (a, upd_frame ft (\<lambda>u. u\<lparr>mapped_max := max (mapped_max u) top, uf_extent := max (uf_extent u) top\<rparr>)
                (zero_bytes (physical_start bd) (actual div 8 * 8) h1))))"

text \<open>
  The loop of \<open>mmap_remove\<close>: \<open>pre\<close> holds the blocks the iterator has passed.  After an erasure the next
  block is checked in the place of the erased one.
\<close>

fun mmap_remove_loop ::
  "nat \<Rightarrow> addr \<Rightarrow> addr \<Rightarrow> block_descriptor list \<Rightarrow> block_descriptor list \<Rightarrow> 'a frame_mgr_scheme \<Rightarrow> 'a frame_mgr_scheme option" where
  "mmap_remove_loop f ft a pre [] h = Some h"
| "mmap_remove_loop f ft a pre (b # bs) h =
     (if virtual_start b < a \<and> addr_plus (virtual_start b) (bd_size b) > a then
        (case drop_local_block f ft b h of
           None \<Rightarrow> None
         | Some h1 \<Rightarrow> mmap_remove_loop f ft a pre bs (upd_frame ft (\<lambda>u. u\<lparr>usr_blocks := pre @ bs\<rparr>) h1))
      else mmap_remove_loop f ft a (pre @ [b]) bs h)"

definition mmap_remove :: "nat \<Rightarrow> addr \<Rightarrow> addr \<Rightarrow> nat \<Rightarrow> 'a frame_mgr_scheme \<Rightarrow> (bool \<times> 'a frame_mgr_scheme) option" where
  "mmap_remove f ft a len h =
     (if a > mapped_max (frames h ft) then Some (False, h)
      else map_option (Pair True) (mmap_remove_loop f ft a [] (usr_blocks (frames h ft)) h))"

definition sysres_add :: "nat \<Rightarrow> nat \<Rightarrow> addr \<Rightarrow> nat \<Rightarrow> 'a frame_mgr_scheme \<Rightarrow> (addr \<times> 'a frame_mgr_scheme) option" where
  "sysres_add d f ft n h =
     (let u = frames h ft;
          bump = (\<lambda>h. (sysres_wm (frames h ft),
            upd_frame ft (\<lambda>u. u\<lparr>sysres_wm := next_page_aligned (addr_plus (sysres_wm u) n)\<rparr>) h)) in
      if next_page_aligned (addr_plus (sysres_wm u) n) > sysres_extent u then
        (let tgt = sysres_extent u; sz = up_to_nearest n page_size in
         case allocate_user_block d f sz tgt page_size False False (enter_frame ft h) of
           None \<Rightarrow> None
         | Some (allocated, h1) \<Rightarrow>
             (let h2 = exit_frame h1 in
              if allocated = 0 then Some (0, h2)
              else Some (bump (upd_frame ft (\<lambda>u. u\<lparr>usr_blocks := usr_blocks u @
                     [\<lparr>physical_start = allocated, virtual_start = tgt, bd_size = sz, bd_align = page_size,
                       bd_write = False, bd_execute = False\<rparr>],
                     sysres_extent := addr_plus (sysres_extent u) (aligned_size tgt n)\<rparr>) h2))))
      else Some (bump h))"

subsection \<open>Creating, forking and destroying frames\<close>

definition create_frame ::
  "nat \<Rightarrow> nat \<Rightarrow> kernel_image \<Rightarrow> addr \<Rightarrow> addr \<Rightarrow> addr \<Rightarrow> 'a frame_mgr_scheme
   \<Rightarrow> (fm_error + addr \<times> 'a frame_mgr_scheme) option" where
  "create_frame d f im node start_base start_extent h =
     (case allocate_pt d f False h of
        None \<Rightarrow> None
      | Some (pt, h1) \<Rightarrow>
          (if pt = 0 then Some (Inl RuntimeError)
           else case copy_kernel_mappings (allocate_pt d f False) im pt h1 of
             None \<Rightarrow> None
           | Some (st, h2) \<Rightarrow>
               (if st = 0 then Some (Inl RuntimeError)
                else case find (\<lambda>g. pml4 (frames h2 g) = pt) (frame_set h2) of
                  Some g \<Rightarrow> Some (Inr (g, h2))
                | None \<Rightarrow> Some (Inr (node, (upd_frame node (\<lambda>_. new_uframe pt start_base start_extent) h2)
                    \<lparr>frame_set := frame_set h2 @ [node]\<rparr>)))))"

fun fork_usr_blocks ::
  "nat \<Rightarrow> nat \<Rightarrow> addr \<Rightarrow> block_descriptor list \<Rightarrow> 'a frame_mgr_scheme \<Rightarrow> (fm_error + 'a frame_mgr_scheme) option" where
  "fork_usr_blocks d f ft [] h = Some (Inr h)"
| "fork_usr_blocks d f ft (bd # bds) h =
     (if \<not> bd_write bd then
        (case accept_block d f ft bd h of
           None \<Rightarrow> None
         | Some h1 \<Rightarrow> fork_usr_blocks d f ft bds (share_local (physical_start bd) h1))
      else
        (case add_block d f ft (bd_size bd) (virtual_start bd) (bd_align bd) (bd_write bd) (bd_execute bd) False h of
           None \<Rightarrow> None
         | Some (None, h1) \<Rightarrow> Some (Inl BadAlloc)
         | Some (Some allocated, h1) \<Rightarrow>
             (case uframe_translate h1 ft (virtual_start bd) of
                (target, h2) \<Rightarrow>
                  fork_usr_blocks d f ft bds (copy_bytes target (physical_start bd) (bd_size bd) h2))))"

fun fork_shared_blocks ::
  "nat \<Rightarrow> nat \<Rightarrow> addr \<Rightarrow> addr list \<Rightarrow> 'a frame_mgr_scheme \<Rightarrow> (fm_error + 'a frame_mgr_scheme) option" where
  "fork_shared_blocks d f ft [] h = Some (Inr h)"
| "fork_shared_blocks d f ft (k # ks) h =
     (case global_shared h k of
        None \<Rightarrow> Some (Inl EndIterator)
      | Some sb \<Rightarrow>
          (case map_to_current_frame d f (sb_desc sb) (enter_frame ft h) of
             None \<Rightarrow> None
           | Some h1 \<Rightarrow>
               fork_shared_blocks d f ft ks
                 ((upd_frame ft (\<lambda>u. u\<lparr>shared_blocks := shared_blocks u @ [k]\<rparr>) (exit_frame h1))
                  \<lparr>global_shared := (global_shared h1)(k \<mapsto> sb\<lparr>num_refs := u64_add (num_refs sb) 1\<rparr>)\<rparr>)))"

definition fork_frame ::
  "nat \<Rightarrow> nat \<Rightarrow> kernel_image \<Rightarrow> addr \<Rightarrow> addr \<Rightarrow> 'a frame_mgr_scheme \<Rightarrow> (fm_error + addr \<times> 'a frame_mgr_scheme) option" where
  "fork_frame d f im node old h =
     (let u = frames h old in
      case create_frame d f im node (uf_base u) (uf_extent u) h of
        None \<Rightarrow> None
      | Some (Inl e) \<Rightarrow> Some (Inl e)
      | Some (Inr (ft, h1)) \<Rightarrow>
          (case fork_usr_blocks d f ft (usr_blocks (frames h1 old)) h1 of
             None \<Rightarrow> None
           | Some (Inl e) \<Rightarrow> Some (Inl e)
           | Some (Inr h2) \<Rightarrow>
               (case fork_shared_blocks d f ft (shared_blocks (frames h2 old)) h2 of
                  None \<Rightarrow> None
                | Some (Inl e) \<Rightarrow> Some (Inl e)
                | Some (Inr h3) \<Rightarrow>
                    Some (Inr (ft, upd_frame ft (\<lambda>u. u\<lparr>mapped_max := mapped_max (frames h3 old)\<rparr>) h3)))))"

fun release_all :: "nat \<Rightarrow> block_descriptor list \<Rightarrow> 'a frame_mgr_scheme \<Rightarrow> 'a frame_mgr_scheme option" where
  "release_all f [] h = Some h"
| "release_all f (bd # bds) h =
     (case release_descriptor f bd h of None \<Rightarrow> None | Some h1 \<Rightarrow> release_all f bds h1)"

fun release_shared :: "nat \<Rightarrow> addr list \<Rightarrow> 'a frame_mgr_scheme \<Rightarrow> (fm_error + 'a frame_mgr_scheme) option" where
  "release_shared f [] h = Some (Inr h)"
| "release_shared f (k # ks) h =
     (case global_shared h k of
        None \<Rightarrow> Some (Inl EndIterator)
      | Some sb \<Rightarrow>
          (case release_descriptor f (sb_desc sb) h of None \<Rightarrow> None | Some h1 \<Rightarrow> release_shared f ks h1))"

fun free_tags :: "nat \<Rightarrow> addr list \<Rightarrow> 'a heap_mgr_scheme \<Rightarrow> 'a heap_mgr_scheme option" where
  "free_tags f [] h = Some h"
| "free_tags f (t # ts) h = (case release_block f t h of None \<Rightarrow> None | Some h1 \<Rightarrow> free_tags f ts h1)"

definition destroy_frame :: "nat \<Rightarrow> addr \<Rightarrow> 'a frame_mgr_scheme \<Rightarrow> (fm_error + 'a frame_mgr_scheme) option" where
  "destroy_frame f ft h =
     (if ft \<notin> set (frame_set h) then Some (Inl OutOfRange)
      else case release_all f (usr_blocks (frames h ft)) (enter_frame ft h) of
        None \<Rightarrow> None
      | Some h1 \<Rightarrow>
          (case release_shared f (shared_blocks (frames h1 ft)) h1 of
             None \<Rightarrow> None
           | Some (Inl e) \<Rightarrow> Some (Inl e)
           | Some (Inr h2) \<Rightarrow>
               (case free_tags f (page_table_blocks (frames h2 ft)) (exit_frame h2) of
                  None \<Rightarrow> None
                | Some h3 \<Rightarrow> Some (Inr (h3\<lparr>frame_set := remove1 ft (frame_set h3)\<rparr>)))))"

subsection \<open>Counting holders\<close>

fun release_times :: "nat \<Rightarrow> nat \<Rightarrow> block_descriptor \<Rightarrow> 'a frame_mgr_scheme \<Rightarrow> 'a frame_mgr_scheme option" where
  "release_times f 0 bd h = Some h"
| "release_times f (Suc k) bd h =
     (case release_descriptor f bd h of None \<Rightarrow> None | Some h1 \<Rightarrow> release_times f k bd h1)"

definition with_holders :: "addr \<Rightarrow> int \<Rightarrow> 'a frame_mgr_scheme \<Rightarrow> 'a frame_mgr_scheme" where
  "with_holders p n h = h\<lparr>local_shared := (local_shared h)(p \<mapsto> n)\<rparr>"

lemma share_holders:
  assumes "local_shared h p = None"
  shows "(share_local p ^^ Suc m) h = with_holders p (int m + 2) h"
proof (induction m)
  case 0
  show ?case using assms by (simp add: share_local_def with_holders_def)
next
  case (Suc m)
  show ?case unfolding funpow.simps(2) [of "Suc m"] comp_apply Suc.IH
    by (simp add: share_local_def with_holders_def)
qed

lemma release_holders:
  assumes "p = physical_start bd"
  shows "1 < n \<Longrightarrow> release_descriptor f bd (with_holders p n h) = Some (with_holders p (n - 1) h)"
    and "local_shared h p = None \<Longrightarrow> release_descriptor f bd (with_holders p 1 h) =
      deallocate_user_block f (virtual_start bd) (bd_size bd) (bd_align bd) (virtual_start bd \<noteq> physical_start bd) h"
proof -
  show "1 < n \<Longrightarrow> release_descriptor f bd (with_holders p n h) = Some (with_holders p (n - 1) h)"
    using assms by (simp add: release_descriptor_def with_holders_def Let_def)
  assume "local_shared h p = None"
  then have "(local_shared h)(p := None) = local_shared h" by (simp add: fun_upd_idem)
  then have "h\<lparr>local_shared := (local_shared h)(p := None)\<rparr> = h" by simp
  then show "release_descriptor f bd (with_holders p 1 h) =
      deallocate_user_block f (virtual_start bd) (bd_size bd) (bd_align bd) (virtual_start bd \<noteq> physical_start bd) h"
    using assms by (simp add: release_descriptor_def with_holders_def Let_def)
qed

lemma release_times_holders:
  "p = physical_start bd \<Longrightarrow> int k < n \<Longrightarrow>
   release_times f k bd (with_holders p n h) = Some (with_holders p (n - int k) h)"
  by (induction k arbitrary: n) (auto simp: release_holders diff_diff_eq)

lemma release_times_last:
  assumes "p = physical_start bd" "local_shared h p = None"
  shows "release_times f (Suc k) bd (with_holders p (int k + 1) h) =
    deallocate_user_block f (virtual_start bd) (bd_size bd) (bd_align bd) (virtual_start bd \<noteq> physical_start bd) h"
proof (induction k)
  case 0
  show ?case using release_holders(2) [OF assms, of f] by (simp split: option.splits)
next
  case (Suc k)
  have "release_descriptor f bd (with_holders p (int (Suc k) + 1) h) = Some (with_holders p (int k + 1) h)"
    using release_holders(1) [OF assms(1), of "int (Suc k) + 1" f h] by (simp add: add.commute)
  then show ?case using Suc.IH by (simp only: release_times.simps(2) [of f "Suc k"]) simp
qed

definition demo_block :: block_descriptor where
  "demo_block = \<lparr>physical_start = 0x80000, virtual_start = 0x10000, bd_size = 0x2000, bd_align = 4096,
     bd_write = False, bd_execute = True\<rparr>"

definition demo_frames :: frame_mgr where
  "demo_frames = heap_mgr.extend small_tree \<lparr>global_shared = Map.empty, local_shared = Map.empty, frame_set = [0x9000]\<rparr>
     \<lparr>frames := (\<lambda>_. (new_uframe 0x1000 0 0)\<lparr>usr_blocks := [demo_block], mapped_max := 0x40000\<rparr>)\<rparr>"



lemma mmap_remove_loop_none:
  assumes "\<forall>b\<in>set bs. \<not> (virtual_start b < a \<and> addr_plus (virtual_start b) (bd_size b) > a)"
  shows "mmap_remove_loop f ft a pre bs h = Some h"
  using assms by (induction bs arbitrary: pre) auto

text \<open>
  \<open>munmap\<close> at the start of a mapping does nothing: the test for the blocks to remove is strict, so a
  block that starts exactly at the given address is kept.  Whenever no other block straddles that
  address, the call reports success, and the frame, its blocks and its page tables are unchanged.
\<close>

theorem mmap_remove_keeps_block:
  assumes "bd \<in> set (usr_blocks (frames h ft))" "virtual_start bd \<le> mapped_max (frames h ft)"
    and "\<forall>b\<in>set (usr_blocks (frames h ft)). virtual_start b < virtual_start bd
       \<longrightarrow> addr_plus (virtual_start b) (bd_size b) \<le> virtual_start bd"
  shows "mmap_remove f ft (virtual_start bd) (bd_size bd) h = Some (True, h)"
proof -
  have "mmap_remove_loop f ft (virtual_start bd) [] (usr_blocks (frames h ft)) h = Some h"
    using assms(3) by (intro mmap_remove_loop_none) auto
  then show ?thesis using assms(2) by (simp add: mmap_remove_def)
qed

theorem mmap_remove_keeps_block_witness:
  "demo_block \<in> set (usr_blocks (frames demo_frames 0x9000))
   \<and> mmap_remove 1 0x9000 (virtual_start demo_block) (bd_size demo_block) demo_frames = Some (True, demo_frames)"
proof -
  have f: "frames demo_frames 0x9000 = (new_uframe 0x1000 0 0)\<lparr>usr_blocks := [demo_block], mapped_max := 0x40000\<rparr>"
    by (simp add: demo_frames_def)
  show ?thesis
    using mmap_remove_keeps_block [of demo_block demo_frames "0x9000" 1] by (simp add: f demo_block_def)
qed

end
