(* ===== verification/Bitmap.thy ===== *)
theory Bitmap
  imports OoOS_Prelude
begin

unbundle bit_operations_syntax

text \<open>
  The allocation bitmaps of \<open>kernel/util/bitmap.cpp\<close>, used by the block and inode allocators of the
  file systems: arrays of 64-bit words, bit \<open>p\<close> being bit \<open>p mod 64\<close> of word \<open>p div 64\<close>.  A word index
  past the array is outside the model; the theorems are about positions inside it.
\<close>

type_synonym bitmap = "u64 list"

definition ulsize :: nat where
  "ulsize = 64"

definition bitmap_set_bit :: "bitmap \<Rightarrow> nat \<Rightarrow> bitmap" where
  "bitmap_set_bit bm p = bm[p div ulsize := bm ! (p div ulsize) OR push_bit (p mod ulsize) 1]"

definition bitmap_clear_bit :: "bitmap \<Rightarrow> nat \<Rightarrow> bitmap" where
  "bitmap_clear_bit bm p = bm[p div ulsize := bm ! (p div ulsize) AND NOT (push_bit (p mod ulsize) 1)]"

text \<open>\<open>__builtin_ctzl\<close>: the number of trailing zero bits of a non-zero word.\<close>

fun ctz_from :: "nat \<Rightarrow> nat \<Rightarrow> u64 \<Rightarrow> nat" where
  "ctz_from 0 i w = i"
| "ctz_from (Suc f) i w = (if bit w i then i else ctz_from f (Suc i) w)"

definition ctzl :: "u64 \<Rightarrow> nat" where
  "ctzl w = ctz_from 64 0 w"

fun scan_single_loop :: "nat \<Rightarrow> bitmap \<Rightarrow> int" where
  "scan_single_loop i [] = -1"
| "scan_single_loop i (w # ws) =
     (if NOT w \<noteq> 0 then int (ulsize * i + ctzl (NOT w)) else scan_single_loop (Suc i) ws)"

definition bitmap_scan_single_zero :: "bitmap \<Rightarrow> int" where
  "bitmap_scan_single_zero bm = scan_single_loop 0 bm"

text \<open>\<open>std::strnlen\<close>: the number of elements before the first zero element, at most \<open>m\<close>.\<close>

fun strnlen_words :: "nat \<Rightarrow> u64 list \<Rightarrow> nat" where
  "strnlen_words m [] = 0"
| "strnlen_words m (w # ws) = (if m = 0 \<or> w = 0 then 0 else Suc (strnlen_words (m - 1) ws))"

text \<open>The search for more than 64 zeroes; \<open>None\<close> is exhausted fuel.\<close>

fun scan_words_loop :: "nat \<Rightarrow> bitmap \<Rightarrow> nat \<Rightarrow> nat \<Rightarrow> int option" where
  "scan_words_loop 0 bm needed i = None"
| "scan_words_loop (Suc f) bm needed i =
     (if i < length bm then
        (let n = strnlen_words needed (drop i bm)
         in if n = needed then Some (int (i * ulsize)) else scan_words_loop f bm needed (i + n))
      else Some (-1))"

fun scan_bits_in :: "u64 \<Rightarrow> u64 \<Rightarrow> nat \<Rightarrow> nat \<Rightarrow> nat option" where
  "scan_bits_in cur msk 0 j = None"
| "scan_bits_in cur msk (Suc n) j = (if cur AND push_bit j msk = 0 then Some j else scan_bits_in cur msk n (Suc j))"

fun scan_small_loop :: "nat \<Rightarrow> nat \<Rightarrow> bitmap \<Rightarrow> int" where
  "scan_small_loop i nz [] = -1"
| "scan_small_loop i nz (cur # ws) =
     (if nz = ulsize \<and> cur = 0 then int (i * ulsize)
      else
        (case scan_bits_in cur (NOT (drop_bit nz (NOT 0))) (ulsize - nz) 0 of
           Some j \<Rightarrow> int (i * ulsize + j)
         | None \<Rightarrow> scan_small_loop (Suc i) nz ws))"

definition bitmap_scan_chain_zeroes :: "nat \<Rightarrow> bitmap \<Rightarrow> nat \<Rightarrow> int option" where
  "bitmap_scan_chain_zeroes f bm nz =
     (if nz = 1 then Some (bitmap_scan_single_zero bm)
      else if nz > ulsize then scan_words_loop f bm (div_round_up nz ulsize) 0
      else Some (scan_small_loop 0 nz bm))"

function bitmap_set_chain_bits :: "bitmap \<Rightarrow> nat \<Rightarrow> nat \<Rightarrow> bitmap" where
  "bitmap_set_chain_bits bm p n =
     (if n = 1 then bitmap_set_bit bm p
      else
        (let up = p div ulsize; off = p mod ulsize in
         if n \<ge> ulsize then
           (let actual = min n (ulsize - off); bm1 = bm[up := bm ! up OR push_bit off (NOT 0)]
            in if n > actual then bitmap_set_chain_bits bm1 (p + actual) (n - actual) else bm1)
         else
           (let msk = drop_bit (ulsize - n) (NOT 0 :: u64); bm1 = bm[up := bm ! up OR push_bit off msk]
            in if off + n > ulsize
               then bm1[up + 1 := bm1 ! (up + 1) OR drop_bit ((n + off) mod ulsize) msk] else bm1)))"
  by pat_completeness auto

termination
  by (relation "measure (\<lambda>(bm, p, n). n)") (auto simp: ulsize_def)

declare bitmap_set_chain_bits.simps [simp del]

definition bitmap_clear_chain_bits :: "bitmap \<Rightarrow> nat \<Rightarrow> nat \<Rightarrow> bitmap" where
  "bitmap_clear_chain_bits bm p n =
     (if n = 1 then bitmap_clear_bit bm p
      else
        (let up = p div ulsize; off = p mod ulsize in
         if n \<ge> ulsize then
           (let actual = min n (ulsize - off); bm1 = bm[up := bm ! up AND NOT (push_bit off (NOT 0))]
            in if n > actual then bitmap_set_chain_bits bm1 (p + actual) (n - actual) else bm1)
         else
           (let msk = drop_bit (ulsize - n) (NOT 0 :: u64); bm1 = bm[up := bm ! up AND NOT (push_bit off msk)]
            in if off + n > ulsize
               then bm1[up + 1 := bm1 ! (up + 1) AND NOT (drop_bit ((n + off) mod ulsize) msk)] else bm1)))"

subsection \<open>The bit view\<close>

definition bit_at :: "bitmap \<Rightarrow> nat \<Rightarrow> bool" where
  "bit_at bm p = bit (bm ! (p div ulsize)) (p mod ulsize)"

definition num_bits :: "bitmap \<Rightarrow> nat" where
  "num_bits bm = ulsize * length bm"

lemma num_bits_word: "p < num_bits bm \<Longrightarrow> p div ulsize < length bm"
  by (simp add: num_bits_def ulsize_def div_less_iff_less_mult mult.commute)

lemma bit_pos_eq: "(p div ulsize = q div ulsize \<and> p mod ulsize = q mod ulsize) = (p = q)"
  by (metis div_mult_mod_eq)

lemma set_bit_at:
  assumes "p < num_bits bm"
  shows "bit_at (bitmap_set_bit bm p) q = (q = p \<or> bit_at bm q)"
proof -
  have "q mod ulsize < 64" "p mod ulsize < 64" by (simp_all add: ulsize_def)
  then show ?thesis
    using num_bits_word [OF assms] bit_pos_eq [of p q]
    by (auto simp: bit_at_def bitmap_set_bit_def nth_list_update_if bit_or_iff bit_exp_iff possible_bit_word)
qed

lemma clear_bit_at:
  assumes "p < num_bits bm"
  shows "bit_at (bitmap_clear_bit bm p) q = (q \<noteq> p \<and> bit_at bm q)"
proof -
  have "q mod ulsize < 64" "p mod ulsize < 64" by (simp_all add: ulsize_def)
  then show ?thesis
    using num_bits_word [OF assms] bit_pos_eq [of p q]
    by (auto simp: bit_at_def bitmap_clear_bit_def nth_list_update_if bit_and_iff bit_not_iff bit_exp_iff possible_bit_word)
qed

lemma set_clear_length [simp]:
  "length (bitmap_set_bit bm p) = length bm" "length (bitmap_clear_bit bm p) = length bm"
  by (simp_all add: bitmap_set_bit_def bitmap_clear_bit_def)

lemma bitmap_eqI:
  assumes "length a = length b" "\<And>q. q < num_bits a \<Longrightarrow> bit_at a q = bit_at b q"
  shows "a = b"
proof (rule nth_equalityI [OF assms(1)])
  fix i assume i: "i < length a"
  show "a ! i = b ! i"
  proof (rule bit_word_eqI)
    fix n assume "n < LENGTH(64)"
    then have "(64 * i + n) div 64 = i" "(64 * i + n) mod 64 = n" "64 * i + n < 64 * length a"
      using i by simp_all
    then show "bit (a ! i) n = bit (b ! i) n"
      using assms(2) [of "64 * i + n"] by (simp add: bit_at_def num_bits_def ulsize_def)
  qed
qed

lemma ctz_from_first:
  assumes "bit w k" "i \<le> k" "k < i + f" "\<And>j. i \<le> j \<Longrightarrow> j < k \<Longrightarrow> \<not> bit w j"
  shows "ctz_from f i w = k"
  using assms
proof (induction f arbitrary: i)
  case (Suc f)
  then show ?case
    by (cases "i = k") (auto simp: not_less_eq_eq)
qed simp

lemma ctzl_spec:
  assumes "w \<noteq> 0"
  shows "bit w (ctzl w) \<and> ctzl w < 64 \<and> (\<forall>j<ctzl w. \<not> bit w j)"
proof -
  have ex: "\<exists>n. bit w n" using assms by (metis bit_word_eqI bit_0_eq bot_apply bot_bool_def)
  define k where "k = (LEAST n. bit w n)"
  have k: "bit w k" "\<And>j. j < k \<Longrightarrow> \<not> bit w j"
    unfolding k_def using LeastI_ex [OF ex] not_less_Least by blast+
  moreover have "k < 64" using k(1) bit_imp_le_length [of w k] by simp
  moreover have "ctzl w = k" unfolding ctzl_def
    using k \<open>k < 64\<close> by (intro ctz_from_first) auto
  ultimately show ?thesis by simp
qed

lemma scan_single_loop_spec:
  "(scan_single_loop i bm = -1 \<longrightarrow> (\<forall>q<num_bits bm. bit_at bm q))
   \<and> (scan_single_loop i bm \<noteq> -1 \<longrightarrow> (\<exists>p<num_bits bm. scan_single_loop i bm = int (ulsize * i + p)
        \<and> \<not> bit_at bm p \<and> (\<forall>q<p. bit_at bm q)))"
proof (induction bm arbitrary: i)
  case Nil
  show ?case by (simp add: num_bits_def)
next
  case (Cons w ws)
  have low: "bit_at (w # ws) q = bit w q" if "q < 64" for q
    using that by (simp add: bit_at_def ulsize_def)
  have high: "bit_at (w # ws) (64 + q) = bit_at ws q" for q
  proof -
    have "(64 + q) div 64 = Suc (q div 64)" by (simp add: div_add_self1)
    then show ?thesis by (simp add: bit_at_def ulsize_def)
  qed
  show ?case
  proof (cases "NOT w = 0")
    case False
    let ?k = "ctzl (NOT w)"
    have k: "\<not> bit w ?k" "?k < 64" "\<And>j. j < ?k \<Longrightarrow> bit w j"
      using ctzl_spec [OF False] by (auto simp: bit_not_iff possible_bit_word)
    have "\<not> bit_at (w # ws) ?k \<and> (\<forall>q<?k. bit_at (w # ws) q) \<and> ?k < num_bits (w # ws)"
      using k low by (auto simp: num_bits_def ulsize_def)
    moreover have "int (ulsize * i + ?k) \<noteq> -1" by linarith
    ultimately show ?thesis using False by auto
  next
    case True
    then have "w = NOT 0" by (metis bit.double_compl)
    then have full: "bit w n" if "n < 64" for n
      using that by (simp add: bit_not_iff possible_bit_word)
    show ?thesis
    proof (cases "scan_single_loop (Suc i) ws = -1")
      case True': True
      have "bit_at (w # ws) q" if "q < num_bits (w # ws)" for q
      proof (cases "q < 64")
        case False
        then obtain r where "q = 64 + r" by (metis le_Suc_ex not_less)
        then show ?thesis using high Cons.IH True' that by (auto simp: num_bits_def ulsize_def)
      qed (simp add: low full)
      then show ?thesis using True True' by simp
    next
      case False
      then obtain p where p: "p < num_bits ws" "scan_single_loop (Suc i) ws = int (ulsize * Suc i + p)"
        "\<not> bit_at ws p" "\<forall>q<p. bit_at ws q"
        using Cons.IH by blast
      have "bit_at (w # ws) q" if "q < 64 + p" for q
      proof (cases "q < 64")
        case False
        then obtain r where "q = 64 + r" by (metis le_Suc_ex not_less)
        then show ?thesis using high p(4) that by simp
      qed (simp add: low full)
      then show ?thesis using True p high
        by (intro conjI impI exI [of _ "64 + p"]) (auto simp: num_bits_def ulsize_def)
    qed
  qed
qed

subsection \<open>Runs of bits\<close>

definition in_run :: "nat \<Rightarrow> nat \<Rightarrow> nat \<Rightarrow> bool" where
  "in_run p n q \<longleftrightarrow> p \<le> q \<and> q < p + n"

text \<open>Writing one word with a mask of \<open>n\<close> ones at offset \<open>off\<close> touches one run.\<close>

lemma run_mask:
  assumes "n \<le> 64" "n \<noteq> 0" "off + n \<le> 64" "j < 64"
  shows "bit (push_bit off (drop_bit (64 - n) (NOT 0 :: u64))) j \<longleftrightarrow> off \<le> j \<and> j < off + n"
  using assms by (auto simp: bit_push_bit_iff bit_drop_bit_eq bit_not_iff bit_mask_iff possible_bit_word)

lemma tail_mask: "j < 64 \<Longrightarrow> bit (push_bit off (NOT 0 :: u64)) j \<longleftrightarrow> off \<le> j"
  by (auto simp: bit_push_bit_iff bit_not_iff bit_mask_iff possible_bit_word)

lemma word_of_bit: "q = ulsize * (q div ulsize) + q mod ulsize" "q mod ulsize < 64"
  by (simp_all add: ulsize_def)

lemma upd_word_at:
  assumes "u < length bm" and "\<And>j. j < 64 \<Longrightarrow> bit w j = (if lo \<le> j \<and> j < hi then v else bit (bm ! u) j)" and "hi \<le> 64"
  shows "bit_at (bm[u := w]) q = (if in_run (ulsize * u + lo) (hi - lo) q then v else bit_at bm q)"
proof (cases "q div ulsize = u")
  case True
  have q: "q = ulsize * u + q mod ulsize" using word_of_bit(1) [of q] True by simp
  have "in_run (ulsize * u + lo) (hi - lo) q \<longleftrightarrow> lo \<le> q mod ulsize \<and> q mod ulsize < hi"
    by (subst q) (auto simp: in_run_def)
  then show ?thesis
    using True assms(1) assms(2) [OF word_of_bit(2) [of q]] by (simp add: bit_at_def)
next
  case False
  have "\<not> in_run (ulsize * u + lo) (hi - lo) q"
  proof
    assume "in_run (ulsize * u + lo) (hi - lo) q"
    then have "ulsize * u \<le> q" "q < ulsize * u + 64" using assms(3) by (auto simp: in_run_def)
    then have "q div ulsize = u" by (intro div_nat_eqI) (simp_all add: ulsize_def)
    then show False using False by simp
  qed
  then show ?thesis using False by (simp add: bit_at_def)
qed

lemma run_append: "in_run p (a + b) q \<longleftrightarrow> in_run p a q \<or> in_run (p + a) b q"
  by (auto simp: in_run_def)

lemma set_chain_length [simp]: "length (bitmap_set_chain_bits bm p n) = length bm"
proof (induction bm p n rule: bitmap_set_chain_bits.induct)
  case (1 bm p n)
  then show ?case by (subst bitmap_set_chain_bits.simps) (simp add: Let_def)
qed

lemma set_chain_at:
  assumes "0 < n" "p + n \<le> num_bits bm" "n < ulsize \<longrightarrow> p mod ulsize + n \<le> ulsize"
  shows "bit_at (bitmap_set_chain_bits bm p n) q = (in_run p n q \<or> bit_at bm q)"
  using assms
proof (induction bm p n arbitrary: q rule: bitmap_set_chain_bits.induct)
  case (1 bm p n)
  let ?u = "p div ulsize" and ?o = "p mod ulsize"
  have u: "?u < length bm" using num_bits_word [of p bm] 1(2,3) by simp
  have o: "?o < 64" "ulsize * ?u + ?o = p" by (simp_all add: ulsize_def)
  consider (one) "n = 1" | (word) "n \<noteq> 1" "n < ulsize" | (long) "n \<ge> ulsize" by linarith
  then show ?case
  proof cases
    case one
    then show ?thesis using set_bit_at [of p bm q] 1(3)
      by (subst bitmap_set_chain_bits.simps) (auto simp: in_run_def)
  next
    case word
    let ?w = "bm ! ?u OR push_bit ?o (drop_bit (ulsize - n) (NOT 0))"
    have fit: "?o + n \<le> 64" using 1(4) word by (simp add: ulsize_def)
    have "bit ?w j = (if ?o \<le> j \<and> j < ?o + n then True else bit (bm ! ?u) j)" if "j < 64" for j
      using run_mask [of n ?o j] that word fit 1(2) by (auto simp: bit_or_iff ulsize_def)
    from upd_word_at [OF u this fit, of q]
    have "bit_at (bm[?u := ?w]) q = (in_run p n q \<or> bit_at bm q)" by (simp add: o)
    moreover have "bitmap_set_chain_bits bm p n = bm[?u := ?w]"
      using word fit by (subst bitmap_set_chain_bits.simps) (simp add: Let_def ulsize_def)
    ultimately show ?thesis by simp
  next
    case long
    let ?w = "bm ! ?u OR push_bit ?o (NOT 0)" and ?a = "ulsize - ?o"
    have a: "min n (ulsize - ?o) = ?a" "0 < ?a" "?a \<le> n"
      using long o by (auto simp: ulsize_def)
    have "?a + ?o = ulsize" using o(1) by (simp add: ulsize_def)
    then have a4: "p + ?a = ulsize * Suc ?u" using o(2) unfolding mult_Suc_right by linarith
    have "bit ?w j = (if ?o \<le> j \<and> j < 64 then True else bit (bm ! ?u) j)" if "j < 64" for j
      using tail_mask [OF that, of ?o] that by (auto simp: bit_or_iff)
    from upd_word_at [OF u this, of q]
    have w: "bit_at (bm[?u := ?w]) q = (in_run p ?a q \<or> bit_at bm q)" by (simp add: o ulsize_def [symmetric])
    show ?thesis
    proof (cases "n > ?a")
      case True
      have al: "(p + ?a) mod ulsize = 0" unfolding a4 by simp
      have "bit_at (bitmap_set_chain_bits (bm[?u := ?w]) (p + ?a) (n - ?a)) q
          = (in_run (p + ?a) (n - ?a) q \<or> bit_at (bm[?u := ?w]) q)"
      proof (rule 1(1) [OF _ refl refl long refl refl, unfolded a(1)])
        show "n \<noteq> 1" using long by (simp add: ulsize_def)
        show "?a < n" "0 < n - ?a" using True by simp_all
        have "p + ?a + (n - ?a) = p + n" using True by simp
        then show "p + ?a + (n - ?a) \<le> num_bits (bm[?u := ?w])" using 1(3) by (simp add: num_bits_def)
        show "n - ?a < ulsize \<longrightarrow> (p + ?a) mod ulsize + (n - ?a) \<le> ulsize" unfolding al by linarith
      qed
      moreover have "bitmap_set_chain_bits bm p n = bitmap_set_chain_bits (bm[?u := ?w]) (p + ?a) (n - ?a)"
        using long True a by (subst bitmap_set_chain_bits.simps) (simp add: Let_def ulsize_def)
      ultimately show ?thesis using w run_append [of p ?a "n - ?a" q] True by auto
    next
      case False
      then have "n = ?a" using a by simp
      moreover have "bitmap_set_chain_bits bm p n = bm[?u := ?w]"
        using long False a by (subst bitmap_set_chain_bits.simps) (simp add: Let_def ulsize_def)
      ultimately show ?thesis using w by simp
    qed
  qed
qed

lemma strnlen_zero: "0 < m \<Longrightarrow> strnlen_words m (0 # ws) = 0"
  by simp

lemma scan_words_stuck: "0 < needed \<Longrightarrow> scan_words_loop f (0 # ws) needed 0 = None"
  by (induction f) (simp_all add: strnlen_zero Let_def)

subsection \<open>Properties\<close>

text \<open>
  C16. Claiming one bit: the search returns $-1$ exactly when every bit is set, otherwise the lowest
  clear bit; setting that bit changes no other bit, and clearing it again gives back the old bitmap.
\<close>

theorem bitmap_claim_release:
  "(bitmap_scan_single_zero bm = -1 \<longleftrightarrow> (\<forall>q<num_bits bm. bit_at bm q))
   \<and> (bitmap_scan_single_zero bm \<noteq> -1 \<longrightarrow>
        (let p = nat (bitmap_scan_single_zero bm) in
           p < num_bits bm \<and> \<not> bit_at bm p \<and> (\<forall>q<p. bit_at bm q)
           \<and> (\<forall>q. bit_at (bitmap_set_bit bm p) q = (q = p \<or> bit_at bm q))
           \<and> bitmap_clear_bit (bitmap_set_bit bm p) p = bm))"
proof (cases "bitmap_scan_single_zero bm = -1")
  case True
  then show ?thesis using scan_single_loop_spec [of 0 bm] by (simp add: bitmap_scan_single_zero_def)
next
  case False
  then obtain p where p: "p < num_bits bm" "bitmap_scan_single_zero bm = int p" "\<not> bit_at bm p" "\<forall>q<p. bit_at bm q"
    using scan_single_loop_spec [of 0 bm] by (auto simp: bitmap_scan_single_zero_def)
  have set: "bit_at (bitmap_set_bit bm p) q = (q = p \<or> bit_at bm q)" for q by (rule set_bit_at [OF p(1)])
  have "p < num_bits (bitmap_set_bit bm p)" using p(1) by (simp add: num_bits_def)
  then have "bitmap_clear_bit (bitmap_set_bit bm p) p = bm"
    using p(3) set by (intro bitmap_eqI) (auto simp: clear_bit_at)
  then show ?thesis using p set by (auto simp: Let_def)
qed

theorem bitmap_claim_release_witness:
  "bitmap_scan_single_zero [0xFFFFFFFFFFFFFFFF, 0x7] = 67
   \<and> bitmap_clear_bit (bitmap_set_bit [0xFFFFFFFFFFFFFFFF, 0x7] 67) 67 = [0xFFFFFFFFFFFFFFFF, 0x7]"
proof -
  have s: "bitmap_scan_single_zero [0xFFFFFFFFFFFFFFFF, 0x7] = 67" by code_simp
  show ?thesis using bitmap_claim_release [of "[0xFFFFFFFFFFFFFFFF, 0x7]"] s by (simp add: Let_def)
qed

text \<open>
  C17. Setting a run of bits that stays in one word, or is at least a word long, sets exactly the bits of
  the run, across any number of words.
\<close>

theorem bitmap_set_chain_exact:
  assumes "0 < n" "p + n \<le> num_bits bm" "n < ulsize \<longrightarrow> p mod ulsize + n \<le> ulsize"
  shows "bit_at (bitmap_set_chain_bits bm p n) q = (p \<le> q \<and> q < p + n \<or> bit_at bm q)"
  using set_chain_at [OF assms] by (simp add: in_run_def)

theorem bitmap_set_chain_exact_witness:
  "bit_at (bitmap_set_chain_bits [0, 0, 0] 60 100) 159 \<and> \<not> bit_at (bitmap_set_chain_bits [0, 0, 0] 60 100) 160"
  using bitmap_set_chain_exact [of 100 60 "[0, 0, 0]" 159] bitmap_set_chain_exact [of 100 60 "[0, 0, 0]" 160]
  by (simp add: num_bits_def ulsize_def bit_at_def)

text \<open>
  Releasing a run of more than one word does not release it: past the first word
  \<open>bitmap_clear_chain_bits\<close> calls the setting routine, so all those bits end up set.
\<close>

theorem bitmap_clear_chain_sets_tail:
  assumes "ulsize \<le> n" "p + n \<le> num_bits bm" "p + (ulsize - p mod ulsize) \<le> q" "q < p + n"
  shows "bit_at (bitmap_clear_chain_bits bm p n) q"
proof -
  let ?a = "ulsize - p mod ulsize" and ?w = "bm ! (p div ulsize) AND NOT (push_bit (p mod ulsize) (NOT 0))"
  let ?bm1 = "bm[p div ulsize := ?w]"
  have a: "min n ?a = ?a" "?a < n" "n \<noteq> 1" using assms by (auto simp: ulsize_def)
  have o: "ulsize * (p div ulsize) + p mod ulsize = p" "p mod ulsize < ulsize" by (simp_all add: ulsize_def)
  have "p + ?a = ulsize * Suc (p div ulsize)" unfolding mult_Suc_right using o by linarith
  then have al: "(p + ?a) mod ulsize = 0" by simp
  have eq: "bitmap_clear_chain_bits bm p n = bitmap_set_chain_bits ?bm1 (p + ?a) (n - ?a)"
    using assms(1) a by (simp add: bitmap_clear_chain_bits_def Let_def)
  have fit: "p + ?a + (n - ?a) \<le> num_bits ?bm1" using assms(2) a by (simp add: num_bits_def)
  have short: "n - ?a < ulsize \<longrightarrow> (p + ?a) mod ulsize + (n - ?a) \<le> ulsize" unfolding al by linarith
  show ?thesis
    unfolding eq set_chain_at [OF zero_less_diff [THEN iffD2, OF a(2)] fit short]
    using assms(3,4) by (auto simp: in_run_def)
qed

theorem bitmap_clear_chain_sets_tail_witness:
  "bit_at (bitmap_clear_chain_bits [0, 0] 0 128) 100"
  by (rule bitmap_clear_chain_sets_tail) (simp_all add: ulsize_def num_bits_def)

text \<open>
  The search for a run of more than 64 clear bits does not return when the bitmap starts with a clear
  word: \<open>strnlen\<close> counts the words in front of the first zero word, so the position never advances.
\<close>

theorem bitmap_scan_chain_hangs:
  assumes "nz > ulsize"
  shows "bitmap_scan_chain_zeroes f (0 # ws) nz = None"
proof -
  have "0 < div_round_up nz ulsize" using assms by (intro div_round_up_pos) (simp_all add: ulsize_def)
  then show ?thesis using assms by (simp add: bitmap_scan_chain_zeroes_def scan_words_stuck ulsize_def)
qed

theorem bitmap_scan_chain_hangs_witness:
  "bitmap_scan_chain_zeroes 1000 (0 # [0, 0, 0]) 128 = None"
  by (rule bitmap_scan_chain_hangs) (simp add: ulsize_def)

text \<open>
  Runs shorter than a word are looked for at the wrong end of the word: with the two lowest bits in use,
  the search for two clear bits answers 0.
\<close>

lemma scan_chain_returns_used:
  "bitmap_scan_chain_zeroes 1 [3] 2 = Some 0 \<and> bit_at [3] 0"
  by code_simp

text \<open>A run that crosses a word boundary leaves some of its bits clear.\<close>

lemma set_chain_crossing_short:
  "bit_at (bitmap_set_chain_bits [0, 0] 62 8) 65 \<and> \<not> bit_at (bitmap_set_chain_bits [0, 0] 62 8) 66"
proof -
  have e: "bitmap_set_chain_bits [0, 0] 62 8 = [push_bit 62 (drop_bit 56 (NOT 0)), drop_bit 6 (drop_bit 56 (NOT 0))]"
    by (subst bitmap_set_chain_bits.simps) (simp add: ulsize_def Let_def)
  show ?thesis unfolding e bit_at_def ulsize_def
    by (simp add: bit_drop_bit_eq bit_not_iff bit_mask_iff possible_bit_word)
qed

end
