(* ===== verification/Circular_Queue.thy ===== *)
theory Circular_Queue
  imports OoOS_Prelude
begin

text \<open>
  The growing ring buffer of \<open>common/include/kernel/util/circular_queue.hpp\<close>, which holds pending
  input, packets and deferred actions.  Pointers are offsets from \<open>__base\<close>; a cell that holds no
  constructed element is \<open>None\<close>, and a buffer that was never created has no cells.  The queue refines a
  list: the elements from \<open>__curr\<close> up to \<open>__back\<close>, around the end of the storage.
\<close>

subsection \<open>Model\<close>

record 'a circ =
  cells :: "'a option list"
  cpos :: nat
  bpos :: nat

definition ring_reset :: "'a circ" where
  "ring_reset = \<lparr>cells = [], cpos = 0, bpos = 0\<rparr>"

definition ring_capacity :: "'a circ \<Rightarrow> nat" where
  "ring_capacity q = length (cells q)"

definition ring_create :: "nat \<Rightarrow> 'a circ" where
  "ring_create n = \<lparr>cells = replicate n None, cpos = 0, bpos = 0\<rparr>"

definition ring_rewind :: "'a circ \<Rightarrow> 'a circ" where
  "ring_rewind q = q\<lparr>cpos := 0, bpos := 0\<rparr>"

definition ring_peek :: "'a circ \<Rightarrow> 'a option" where
  "ring_peek q = (if cpos q < ring_capacity q then cells q ! cpos q else None)"

text \<open>\<open>pclamp(__back - 1, __curr, __back)\<close>, with the pointers as signed offsets.\<close>

definition pclamp :: "int \<Rightarrow> int \<Rightarrow> int \<Rightarrow> int" where
  "pclamp p mn mx = (if p < mn then mn else if p > mx then mx else p)"

definition ring_peek_back :: "'a circ \<Rightarrow> 'a option" where
  "ring_peek_back q =
     (let p = nat (pclamp (int (bpos q) - 1) (int (cpos q)) (int (bpos q)))
      in if p < ring_capacity q then cells q ! p else None)"

definition pos_of :: "'a circ \<Rightarrow> nat \<Rightarrow> nat" where
  "pos_of q p = (if p = cpos q then 0 else (ring_capacity q + p - cpos q) mod ring_capacity q)"

definition ring_length :: "'a circ \<Rightarrow> nat" where
  "ring_length q = pos_of q (bpos q)"

definition ring_rem :: "'a circ \<Rightarrow> nat" where
  "ring_rem q = nat \<bar>int (bpos q) - int (cpos q)\<bar>"

definition expand_splice :: "'a circ \<Rightarrow> 'a circ" where
  "expand_splice q =
     (let s = ring_capacity q; l = bpos q + 1; c = s - cpos q
      in \<lparr>cells = drop (cpos q) (cells q) @ take l (cells q) @ replicate (2 * s - (c + l)) None,
          cpos = 0, bpos = c + l\<rparr>)"

definition expand_direct :: "'a circ \<Rightarrow> 'a circ" where
  "expand_direct q =
     (let s = ring_capacity q in \<lparr>cells = cells q @ replicate s None, cpos = 0, bpos = s\<rparr>)"

definition adv_push :: "'a circ \<Rightarrow> 'a circ" where
  "adv_push q =
     (let target = bpos q + 1 in
      if target = ring_capacity q \<and> cpos q = 0 then expand_direct q
      else if target = cpos q then expand_splice q
      else q\<lparr>bpos := target mod ring_capacity q\<rparr>)"

definition adv_ptr :: "'a circ \<Rightarrow> nat \<Rightarrow> nat" where
  "adv_ptr q p = (if Suc p < ring_capacity q then Suc p else 0)"

definition adv_ptr_by :: "'a circ \<Rightarrow> nat \<Rightarrow> nat \<Rightarrow> nat" where
  "adv_ptr_by q p n = (p + n) mod ring_capacity q"

definition adv_pop :: "'a circ \<Rightarrow> 'a circ" where
  "adv_pop q = (if ring_capacity q \<noteq> 0 \<and> cpos q \<noteq> bpos q then q\<lparr>cpos := adv_ptr q (cpos q)\<rparr> else q)"

text \<open>\<open>bump\<close>: dropping several elements.  For trivial element types the position jumps, otherwise it
  advances one element at a time.\<close>

definition adv_pop_by :: "bool \<Rightarrow> nat \<Rightarrow> 'a circ \<Rightarrow> 'a circ" where
  "adv_pop_by trivial n q =
     (if n = 1 then adv_pop q
      else if ring_capacity q = 0 then q
      else
        (let m = min n (ring_length q)
         in if trivial then q\<lparr>cpos := adv_ptr_by q (cpos q) m\<rparr> else (adv_pop ^^ m) q))"

definition ring_pop :: "'a circ \<Rightarrow> 'a option \<times> 'a circ" where
  "ring_pop q = (ring_peek q, adv_pop q)"

definition create_if_empty :: "nat \<Rightarrow> 'a circ \<Rightarrow> 'a circ" where
  "create_if_empty n q = (if cells q = [] then ring_create n else q)"

definition ring_push :: "'a \<Rightarrow> 'a circ \<Rightarrow> 'a circ" where
  "ring_push v q0 =
     (let q = create_if_empty 4 q0
      in adv_push (q\<lparr>cells := (cells q)[bpos q := Some v]\<rparr>))"

text \<open>\<open>emplace\<close> also returns an iterator to the cell it filled.\<close>

definition ring_emplace :: "'a \<Rightarrow> 'a circ \<Rightarrow> nat \<times> 'a circ" where
  "ring_emplace v q0 = (bpos (create_if_empty 4 q0), ring_push v q0)"

text \<open>
  \<open>get\<close> into a contiguous range of \<open>room\<close> elements: the elements copied out, or \<open>None\<close> when the code
  copies past the storage because \<open>n - back_part\<close> wrapped around.
\<close>

definition ring_sink :: "bool \<Rightarrow> nat \<Rightarrow> 'a circ \<Rightarrow> ('a option list \<times> 'a circ) option" where
  "ring_sink trivial room q =
     (let n = min room (ring_length q) in
      if bpos q < cpos q then
        (let back_part = ring_capacity q - cpos q; front_part = u64_sub n back_part in
         if front_part > ring_capacity q then None
         else Some (drop (cpos q) (cells q) @ take front_part (cells q), adv_pop_by trivial n q))
      else Some (take n (drop (cpos q) (cells q)), adv_pop_by trivial n q))"

text \<open>The number of destructor calls of \<open>__destroy\<close>, whose bound shrinks with every element popped.\<close>

fun destroy_loop :: "nat \<Rightarrow> nat \<Rightarrow> 'a circ \<Rightarrow> nat option" where
  "destroy_loop 0 i q = None"
| "destroy_loop (Suc f) i q =
     (if i < ring_length q then map_option Suc (destroy_loop f (Suc i) (adv_pop q)) else Some 0)"

definition copy_assign :: "'a circ \<Rightarrow> 'a circ" where
  "copy_assign that =
     (if cells that = [] then ring_reset
      else \<lparr>cells = replicate (ring_capacity that) None, cpos = cpos that, bpos = bpos that\<rparr>)"

definition copy_construct :: "'a circ \<Rightarrow> 'a circ" where
  "copy_construct that = \<lparr>cells = cells that, cpos = cpos that, bpos = bpos that\<rparr>"

subsection \<open>Iterators\<close>

definition iter_next :: "'a circ \<Rightarrow> nat \<Rightarrow> nat" where
  "iter_next q p =
     (if ring_capacity q \<noteq> 0 \<and> p \<noteq> bpos q then (if p + 1 < ring_capacity q then p + 1 else 0) else bpos q)"

definition iter_advance :: "'a circ \<Rightarrow> nat \<Rightarrow> nat \<Rightarrow> nat" where
  "iter_advance q p n =
     (if n = 1 then iter_next q p
      else if ring_capacity q \<noteq> 0 \<and> p \<noteq> bpos q then adv_ptr_by q p n else bpos q)"

definition iter_backtrack :: "'a circ \<Rightarrow> nat \<Rightarrow> nat \<Rightarrow> nat" where
  "iter_backtrack q p n =
     (let ofs = pos_of q p in if n \<ge> ofs then cpos q else adv_ptr_by q (cpos q) (ofs - n))"

fun iter_walk :: "nat \<Rightarrow> 'a circ \<Rightarrow> nat \<Rightarrow> 'a option list" where
  "iter_walk 0 q p = []"
| "iter_walk (Suc f) q p = (if p = bpos q then [] else cells q ! p # iter_walk f q (iter_next q p))"

subsection \<open>The list a ring holds\<close>

definition live_cells :: "'a circ \<Rightarrow> 'a option list" where
  "live_cells q = (if cpos q \<le> bpos q then take (bpos q - cpos q) (drop (cpos q) (cells q))
     else drop (cpos q) (cells q) @ take (bpos q) (cells q))"

definition ring_inv :: "'a circ \<Rightarrow> bool" where
  "ring_inv q \<longleftrightarrow> (if cells q = [] then cpos q = 0 \<and> bpos q = 0
     else cpos q < ring_capacity q \<and> bpos q < ring_capacity q \<and> None \<notin> set (live_cells q))"

definition ring_list :: "'a circ \<Rightarrow> 'a list" where
  "ring_list q = map the (live_cells q)"

lemma live_length:
  assumes "ring_inv q"
  shows "length (live_cells q) = ring_length q"
proof (cases "cells q = []")
  case True
  then show ?thesis using assms by (simp add: ring_inv_def live_cells_def ring_length_def pos_of_def)
next
  case False
  then have b: "cpos q < ring_capacity q" "bpos q < ring_capacity q"
    using assms by (simp_all add: ring_inv_def)
  show ?thesis
  proof (cases "cpos q \<le> bpos q")
    case True
    then have "ring_capacity q + bpos q - cpos q = bpos q - cpos q + ring_capacity q" by simp
    then have "(ring_capacity q + bpos q - cpos q) mod ring_capacity q = bpos q - cpos q"
      using b(2) by (metis less_imp_diff_less mod_add_self2 mod_less)
    then show ?thesis
      using b True by (simp add: live_cells_def ring_length_def pos_of_def ring_capacity_def)
  next
    case False
    then show ?thesis
      using b by (simp add: live_cells_def ring_length_def pos_of_def ring_capacity_def)
  qed
qed

lemma take_update_Suc: "n < length xs \<Longrightarrow> take (Suc n) (xs[n := v]) = take n xs @ [v]"
  by (simp add: take_Suc_conv_app_nth)

lemma adv_push_live:
  assumes "cpos q < ring_capacity q" "bpos q < ring_capacity q" and q': "q' = q\<lparr>cells := (cells q)[bpos q := v]\<rparr>"
  shows "live_cells (adv_push q') = live_cells q @ [v]
     \<and> cpos (adv_push q') < ring_capacity (adv_push q') \<and> bpos (adv_push q') < ring_capacity (adv_push q')
     \<and> cells (adv_push q') \<noteq> []"
proof -
  let ?cs = "cells q" and ?c = "cpos q" and ?b = "bpos q"
  have lens: "?c < length ?cs" "?b < length ?cs" using assms by (simp_all add: ring_capacity_def)
  then have ne: "?cs \<noteq> []" by auto
  have up: "take (Suc (?b - ?c)) (drop ?c (?cs[?b := v])) = take (?b - ?c) (drop ?c ?cs) @ [v]" if "?c \<le> ?b"
    using that lens take_update_Suc [of "?b - ?c" "drop ?c ?cs" v] by (simp add: drop_update_swap)
  have dn: "take (Suc ?b) (?cs[?b := v]) = take ?b ?cs @ [v]" using lens by (simp add: take_update_Suc)
  have fr: "drop ?c (?cs[?b := v]) = drop ?c ?cs" if "?b < ?c" using that by simp
  consider (direct) "Suc ?b = length ?cs" "?c = 0" | (wrap) "Suc ?b = length ?cs" "?c \<noteq> 0" "Suc ?b \<noteq> ?c"
    | (splice) "Suc ?b = ?c" | (up) "Suc ?b < length ?cs" "?c \<le> ?b" | (down) "Suc ?b < ?c"
    using lens by linarith
  then show ?thesis
  proof cases
    case direct
    moreover have "length ?cs - ?b = Suc 0" using direct(1) by simp
    ultimately show ?thesis using up lens ne
      by (simp add: q' adv_push_def expand_direct_def live_cells_def ring_capacity_def Let_def)
  next
    case wrap
    then have "?c \<le> ?b" using lens by linarith
    moreover have "drop ?c (?cs[?b := v]) = take (Suc (?b - ?c)) (drop ?c (?cs[?b := v]))"
      using wrap \<open>?c \<le> ?b\<close> by simp
    ultimately show ?thesis using wrap up lens ne
      by (simp add: q' adv_push_def live_cells_def ring_capacity_def Let_def)
  next
    case splice
    moreover have "?c - ?b = Suc 0" using splice by simp
    ultimately show ?thesis using fr dn lens ne
      by (auto simp: q' adv_push_def expand_splice_def live_cells_def ring_capacity_def Let_def)
  next
    case up: up
    then show ?thesis using \<open>?c \<le> ?b \<Longrightarrow> _\<close> lens ne
      by (simp add: q' adv_push_def live_cells_def ring_capacity_def Let_def Suc_diff_le)
  next
    case down
    then show ?thesis using fr dn lens ne
      by (simp add: q' adv_push_def live_cells_def ring_capacity_def Let_def)
  qed
qed

lemma live_constructed: "ring_inv q \<Longrightarrow> None \<notin> set (live_cells q)"
  by (cases "cells q = []") (simp_all add: ring_inv_def live_cells_def)

lemma ring_push_list:
  assumes "ring_inv q"
  shows "ring_list (ring_push v q) = ring_list q @ [v]" "ring_inv (ring_push v q)"
proof -
  let ?q = "create_if_empty 4 q"
  have c: "cpos ?q < ring_capacity ?q" "bpos ?q < ring_capacity ?q" "live_cells ?q = live_cells q"
    using assms by (auto simp: create_if_empty_def ring_create_def ring_inv_def ring_capacity_def live_cells_def)
  note p = adv_push_live [OF c(1,2) refl, of "Some v"]
  show "ring_list (ring_push v q) = ring_list q @ [v]"
    using p c(3) by (simp add: ring_list_def ring_push_def Let_def)
  show "ring_inv (ring_push v q)"
    using p c(3) live_constructed [OF assms] by (auto simp: ring_inv_def ring_push_def Let_def)
qed

lemma adv_pop_live:
  assumes "ring_inv q" "live_cells q \<noteq> []"
  shows "live_cells q = cells q ! cpos q # live_cells (adv_pop q)" "ring_inv (adv_pop q)"
    "cpos q < ring_capacity q"
proof -
  let ?cs = "cells q" and ?c = "cpos q" and ?b = "bpos q"
  have ne: "?cs \<noteq> []" using assms by (auto simp: ring_inv_def live_cells_def)
  then have lens: "?c < length ?cs" "?b < length ?cs"
    using assms(1) by (simp_all add: ring_inv_def ring_capacity_def)
  then show "cpos q < ring_capacity q" by (simp add: ring_capacity_def)
  have cb: "?c \<noteq> ?b" using assms(2) by (auto simp: live_cells_def)
  have d: "drop ?c ?cs = ?cs ! ?c # drop (Suc ?c) ?cs" using lens by (simp add: Cons_nth_drop_Suc)
  have pop: "adv_pop q = q\<lparr>cpos := (if Suc ?c < length ?cs then Suc ?c else 0)\<rparr>"
    using ne cb by (simp add: adv_pop_def adv_ptr_def ring_capacity_def)
  have t: "take (?b - ?c) (drop ?c ?cs) = ?cs ! ?c # take (?b - Suc ?c) (drop (Suc ?c) ?cs)" if "?c < ?b"
    using that d by (simp add: Suc_diff_Suc [symmetric])
  show live: "live_cells q = ?cs ! ?c # live_cells (adv_pop q)"
    using cb lens t d by (auto simp: pop live_cells_def)
  show "ring_inv (adv_pop q)"
    using assms(1) live lens ne by (auto simp: ring_inv_def ring_capacity_def pop)
qed

lemma ring_pop_list:
  assumes "ring_inv q" "ring_list q = x # xs"
  shows "ring_pop q = (Some x, adv_pop q)" "ring_list (adv_pop q) = xs" "ring_inv (adv_pop q)"
proof -
  have ne: "live_cells q \<noteq> []" using assms(2) by (auto simp: ring_list_def)
  note p = adv_pop_live [OF assms(1) ne]
  have "cells q ! cpos q \<noteq> None"
    using live_constructed [OF assms(1)] p(1) by (metis list.set_intros(1))
  then show "ring_pop q = (Some x, adv_pop q)"
    using assms(2) p(1,3) by (auto simp: ring_pop_def ring_peek_def ring_list_def)
  show "ring_list (adv_pop q) = xs" using assms(2) p(1) by (simp add: ring_list_def)
  show "ring_inv (adv_pop q)" by (rule p(2))
qed

lemma ring_length_list: "ring_inv q \<Longrightarrow> ring_length q = length (ring_list q)"
  by (simp add: ring_list_def live_length)

lemma adv_pop_empty: "ring_inv q \<Longrightarrow> ring_list q = [] \<Longrightarrow> adv_pop q = q"
  by (auto simp: ring_list_def live_cells_def adv_pop_def ring_capacity_def ring_inv_def split: if_splits)

subsection \<open>The queue interface\<close>

text \<open>
  What the users of a first-in first-out queue rely on.  A client is a list of operations; it pops only
  what is there, as every caller in the kernel tests the length first.
\<close>

datatype 'a queue_op = Push 'a | Pop

fun run_queue ::
  "('a \<Rightarrow> 'q \<Rightarrow> 'q) \<Rightarrow> ('q \<Rightarrow> 'a option \<times> 'q) \<Rightarrow> ('q \<Rightarrow> nat) \<Rightarrow> 'a queue_op list \<Rightarrow> 'q \<Rightarrow> 'a list \<times> 'q" where
  "run_queue push pop len [] q = ([], q)"
| "run_queue push pop len (Push x # ops) q = run_queue push pop len ops (push x q)"
| "run_queue push pop len (Pop # ops) q =
     (if len q = 0 then run_queue push pop len ops q
      else (case run_queue push pop len ops (snd (pop q)) of (out, q') \<Rightarrow> (the (fst (pop q)) # out, q')))"

fun run_list :: "'a queue_op list \<Rightarrow> 'a list \<Rightarrow> 'a list \<times> 'a list" where
  "run_list [] xs = ([], xs)"
| "run_list (Push x # ops) xs = run_list ops (xs @ [x])"
| "run_list (Pop # ops) [] = run_list ops []"
| "run_list (Pop # ops) (x # xs) = (case run_list ops xs of (out, ys) \<Rightarrow> (x # out, ys))"

locale fifo =
  fixes emp :: 'q
    and push :: "'a \<Rightarrow> 'q \<Rightarrow> 'q"
    and pop :: "'q \<Rightarrow> 'a option \<times> 'q"
    and len :: "'q \<Rightarrow> nat"
    and inv :: "'q \<Rightarrow> bool"
    and contents :: "'q \<Rightarrow> 'a list"
  assumes emp_ok: "inv emp" "contents emp = []"
    and push_ok: "inv q \<Longrightarrow> inv (push x q)" "inv q \<Longrightarrow> contents (push x q) = contents q @ [x]"
    and pop_ok: "inv q \<Longrightarrow> contents q = x # xs \<Longrightarrow> fst (pop q) = Some x \<and> contents (snd (pop q)) = xs"
      "inv q \<Longrightarrow> contents q \<noteq> [] \<Longrightarrow> inv (snd (pop q))"
    and len_ok: "inv q \<Longrightarrow> len q = length (contents q)"
begin

lemma run_refines:
  "inv q \<Longrightarrow> fst (run_queue push pop len ops q) = fst (run_list ops (contents q))
     \<and> contents (snd (run_queue push pop len ops q)) = snd (run_list ops (contents q))
     \<and> inv (snd (run_queue push pop len ops q))"
proof (induction ops arbitrary: q)
  case Nil
  then show ?case by simp
next
  case (Cons oper ops)
  show ?case
  proof (cases oper)
    case (Push x)
    then show ?thesis using Cons by (simp add: push_ok)
  next
    case Pop
    show ?thesis
    proof (cases "contents q")
      case Nil
      then show ?thesis using Cons Pop by (simp add: len_ok)
    next
      case (Cons x xs)
      then have "fst (pop q) = Some x" "contents (snd (pop q)) = xs" "inv (snd (pop q))" "len q \<noteq> 0"
        using pop_ok Cons.prems by (auto simp: len_ok)
      then show ?thesis using Cons.IH Pop Cons by (simp add: case_prod_beta)
    qed
  qed
qed

end

interpretation rq: fifo ring_reset ring_push ring_pop ring_length ring_inv ring_list
proof
  show "ring_inv ring_reset" "ring_list ring_reset = []"
    by (simp_all add: ring_inv_def ring_reset_def ring_list_def live_cells_def)
  show "\<And>q x. ring_inv q \<Longrightarrow> ring_inv (ring_push x q)"
    "\<And>q x. ring_inv q \<Longrightarrow> ring_list (ring_push x q) = ring_list q @ [x]"
    by (rule ring_push_list, assumption)+
  show "\<And>q x xs. ring_inv q \<Longrightarrow> ring_list q = x # xs \<Longrightarrow>
      fst (ring_pop q) = Some x \<and> ring_list (snd (ring_pop q)) = xs"
    by (simp add: ring_pop_list)
  show "\<And>q. ring_inv q \<Longrightarrow> ring_list q \<noteq> [] \<Longrightarrow> ring_inv (snd (ring_pop q))"
    by (metis neq_Nil_conv ring_pop_list(1,3) snd_conv)
  show "\<And>q. ring_inv q \<Longrightarrow> ring_length q = length (ring_list q)"
    by (rule ring_length_list)
qed

subsection \<open>Iteration, bulk reads and destruction\<close>

lemma iter_next_pop: "ring_capacity q \<noteq> 0 \<Longrightarrow> cpos q \<noteq> bpos q \<Longrightarrow> iter_next q (cpos q) = cpos (adv_pop q)"
  by (simp add: iter_next_def adv_pop_def adv_ptr_def)

lemma adv_pop_same [simp]: "cells (adv_pop q) = cells q" "bpos (adv_pop q) = bpos q"
  "ring_capacity (adv_pop q) = ring_capacity q"
  by (simp_all add: adv_pop_def ring_capacity_def)

lemma iter_walk_pop: "iter_walk f (adv_pop q) p = iter_walk f q p"
  by (induction f arbitrary: p) (simp_all add: iter_next_def)

lemma iter_walk_live:
  "ring_inv q \<Longrightarrow> length (live_cells q) \<le> f \<Longrightarrow> iter_walk (Suc f) q (cpos q) = live_cells q"
proof (induction f arbitrary: q)
  case 0
  then have "cpos q = bpos q"
    using live_length [of q] by (cases "cells q = []")
      (auto simp: ring_inv_def live_cells_def ring_capacity_def split: if_splits)
  then show ?case using 0 by simp
next
  case (Suc f)
  show ?case
  proof (cases "live_cells q")
    case Nil
    then have "cpos q = bpos q"
      using Suc.prems(1) by (cases "cells q = []")
        (auto simp: ring_inv_def live_cells_def ring_capacity_def split: if_splits)
    then show ?thesis using Nil by simp
  next
    case (Cons y ys)
    then have ne: "live_cells q \<noteq> []" by simp
    note p = adv_pop_live [OF Suc.prems(1) ne]
    have cb: "cpos q \<noteq> bpos q" using ne by (auto simp: live_cells_def)
    have "iter_walk (Suc f) (adv_pop q) (cpos (adv_pop q)) = live_cells (adv_pop q)"
      using Suc.IH [OF p(2)] Suc.prems(2) p(1) Cons by simp
    then have "iter_walk (Suc f) q (cpos (adv_pop q)) = live_cells (adv_pop q)"
      by (simp only: iter_walk_pop)
    moreover have "iter_walk (Suc (Suc f)) q (cpos q) = cells q ! cpos q # iter_walk (Suc f) q (cpos (adv_pop q))"
      using cb p(3) iter_next_pop [of q] by simp
    ultimately show ?thesis using p(1) by simp
  qed
qed

lemma adv_pop_times:
  "ring_inv q \<Longrightarrow> n \<le> length (live_cells q) \<Longrightarrow>
   live_cells ((adv_pop ^^ n) q) = drop n (live_cells q) \<and> ring_inv ((adv_pop ^^ n) q)"
proof (induction n)
  case (Suc n)
  then have ih: "live_cells ((adv_pop ^^ n) q) = drop n (live_cells q)" "ring_inv ((adv_pop ^^ n) q)" by simp_all
  have ne: "live_cells ((adv_pop ^^ n) q) \<noteq> []" using ih(1) Suc.prems(2) by simp
  note p = adv_pop_live [OF ih(2) ne]
  show ?case using p(1,2) ih(1) by (simp add: drop_Suc drop_tl [symmetric]) (metis drop_tl list.sel(3))
qed simp

lemma destroy_loop_run:
  "ring_inv q \<Longrightarrow> length (live_cells q) < f \<Longrightarrow>
   destroy_loop f i q = Some ((length (live_cells q) + 1 - i) div 2)"
proof (induction f arbitrary: i q)
  case (Suc f)
  show ?case
  proof (cases "i < length (live_cells q)")
    case True
    then have ne: "live_cells q \<noteq> []" by auto
    note p = adv_pop_live [OF Suc.prems(1) ne]
    let ?m = "length (live_cells (adv_pop q))"
    have l: "length (live_cells q) = Suc ?m" using p(1) by (metis length_Cons)
    have "destroy_loop f (Suc i) (adv_pop q) = Some ((?m + 1 - Suc i) div 2)"
      using Suc.IH [OF p(2)] Suc.prems(2) l by simp
    moreover have "Suc ?m + 1 - i = ?m + 1 - Suc i + 2" using True l by simp
    ultimately show ?thesis using True l live_length [OF Suc.prems(1)] by simp
  next
    case False
    then show ?thesis using live_length [OF Suc.prems(1)] by simp
  qed
qed simp

definition ring_of :: "'a list \<Rightarrow> 'a circ" where
  "ring_of xs = fold ring_push xs ring_reset"

definition wrapped_ring :: "nat circ" where
  "wrapped_ring = \<lparr>cells = [Some 3, None, Some 1, Some 2], cpos = 2, bpos = 1\<rparr>"

lemma wrapped_ring_inv: "ring_inv wrapped_ring"
  by (simp add: ring_inv_def wrapped_ring_def ring_capacity_def live_cells_def)


text \<open>
  C15. Iterating from \<open>begin\<close> to \<open>end\<close> visits the queued elements in order, each once: the walk needs no
  more steps than the storage has cells.
\<close>

theorem circular_queue_iteration:
  assumes "ring_inv q"
  shows "iter_walk (Suc (ring_capacity q)) q (cpos q) = map Some (ring_list q)"
proof -
  have "length (live_cells q) \<le> ring_capacity q"
    using assms by (auto simp: ring_inv_def live_cells_def ring_capacity_def split: if_splits)
  moreover have "map Some (ring_list q) = live_cells q"
    unfolding ring_list_def map_map using live_constructed [OF assms]
    by (intro map_idI) (metis comp_apply option.collapse)
  ultimately show ?thesis using iter_walk_live [OF assms, of "ring_capacity q"] by simp
qed

theorem circular_queue_iteration_witness:
  "ring_inv wrapped_ring \<and> iter_walk (Suc (ring_capacity wrapped_ring)) wrapped_ring (cpos wrapped_ring) = map Some [1, 2, 3]"
  using circular_queue_iteration [OF wrapped_ring_inv] wrapped_ring_inv
  by (simp add: ring_list_def live_cells_def wrapped_ring_def)

text \<open>
  Reading a wrapped queue into a range shorter than the part up to the end of the storage copies
  beyond the range and past the storage: the remaining count \<open>n - back_part\<close> wraps around.
\<close>

theorem circular_queue_sink_overrun:
  assumes "ring_inv q" "bpos q < cpos q" "room < ring_capacity q - cpos q" "ring_capacity q < 2 ^ 62"
  shows "ring_sink trivial room q = None"
proof -
  have "u64_sub (min room (ring_length q)) (ring_capacity q - cpos q)
      = 2 ^ 64 + min room (ring_length q) - (ring_capacity q - cpos q)"
    using assms by (intro u64_sub_wraps) auto
  then show ?thesis using assms by (simp add: ring_sink_def Let_def)
qed

theorem circular_queue_sink_overrun_witness:
  "ring_inv wrapped_ring \<and> ring_sink True 1 wrapped_ring = None"
  using circular_queue_sink_overrun [OF wrapped_ring_inv, of 1 True] wrapped_ring_inv
  by (simp add: wrapped_ring_def ring_capacity_def)

text \<open>
  Destroying a queue of elements with a destructor runs only half of the destructors, rounded up:
  the loop compares its counter with the length, which shrinks as elements are popped.
\<close>

theorem circular_queue_destroys_half:
  assumes "ring_inv q"
  shows "destroy_loop (Suc (length (ring_list q))) 0 q = Some ((length (ring_list q) + 1) div 2)"
  using destroy_loop_run [OF assms, of "Suc (length (ring_list q))" 0] by (simp add: ring_list_def)

theorem circular_queue_destroys_half_witness:
  "ring_inv wrapped_ring \<and> destroy_loop (Suc (length (ring_list wrapped_ring))) 0 wrapped_ring = Some 2
     \<and> length (ring_list wrapped_ring) = 3"
  using circular_queue_destroys_half [OF wrapped_ring_inv] wrapped_ring_inv
  by (simp add: ring_list_def live_cells_def wrapped_ring_def)

text \<open>
  The last element is lost at the wrap: when the newest element fills the last cell of the storage,
  \<open>back()\<close> clamps to the position of the oldest element and returns that one.
\<close>

theorem circular_queue_back_is_front:
  assumes "ring_inv q" "bpos q = 0" "cpos q > 0"
  shows "ring_peek_back q = Some (hd (ring_list q)) \<and> ring_list q \<noteq> []"
proof -
  have ne: "live_cells q \<noteq> []"
    using assms by (auto simp: live_cells_def ring_inv_def ring_capacity_def split: if_splits)
  note p = adv_pop_live [OF assms(1) ne]
  have "cells q ! cpos q \<noteq> None"
    using live_constructed [OF assms(1)] p(1) by (metis list.set_intros(1))
  moreover have "hd (ring_list q) = the (cells q ! cpos q)"
    using p(1) by (metis list.map_sel(1) list.sel(1) ne ring_list_def)
  ultimately show ?thesis
    using assms(2,3) p(3) ne by (simp add: ring_peek_back_def pclamp_def ring_list_def Let_def)
qed

theorem circular_queue_back_is_front_witness:
  "ring_peek_back \<lparr>cells = [None, None, Some (1::nat), Some 2], cpos = 2, bpos = 0\<rparr> = Some 1"
proof -
  let ?q = "\<lparr>cells = [None, None, Some (1::nat), Some 2], cpos = 2, bpos = 0\<rparr>"
  have "ring_inv ?q" by (simp add: ring_inv_def ring_capacity_def live_cells_def)
  then show ?thesis
    using circular_queue_back_is_front [of ?q] by (simp add: ring_list_def live_cells_def)
qed

end
