(* ===== verification/Dynamic_Queue.thy ===== *)
theory Dynamic_Queue
  imports Circular_Queue
begin

text \<open>
  The resettable queue of \<open>common/include/c++/bits/dynamic_queue.hpp\<close> and \<open>stl_queue.hpp\<close>, which the
  scheduler uses for its priority levels and its sleepers.  Elements that were popped stay in the buffer
  in front of \<open>__next\<close> until they are trimmed, so that the queue can be restarted or a pop undone.
  Pointers are offsets from \<open>__begin\<close>; the buffer has one cell per unit of capacity.
\<close>

subsection \<open>Model\<close>

record 'a dynq =
  dbuf :: "'a option list"
  dnext :: nat
  dend :: nat
  op_cnt :: nat
  stale_op_thresh :: nat
  stale_size_thresh :: nat
  enable_trim :: bool

definition qcapacity :: "'a dynq \<Rightarrow> nat" where
  "qcapacity q = length (dbuf q)"

definition qsize :: "'a dynq \<Rightarrow> nat" where
  "qsize q = dend q"

text \<open>The difference of two pointers, converted to an unsigned 64-bit number.\<close>

definition ptr_diff :: "nat \<Rightarrow> nat \<Rightarrow> nat" where
  "ptr_diff a b = (if b \<le> a then a - b else 2 ^ 64 + a - b)"

definition qrem :: "'a dynq \<Rightarrow> nat" where
  "qrem q = ptr_diff (dend q) (dnext q)"

definition q_empty :: "'a dynq \<Rightarrow> bool" where
  "q_empty q \<longleftrightarrow> qsize q = 0"

definition q_at_end :: "'a dynq \<Rightarrow> bool" where
  "q_at_end q \<longleftrightarrow> qrem q = 0"

definition q_out_of_range :: "'a dynq \<Rightarrow> nat \<Rightarrow> bool" where
  "q_out_of_range q p \<longleftrightarrow> p \<ge> qcapacity q"

definition new_queue :: "bool \<Rightarrow> 'a dynq" where
  "new_queue trim = \<lparr>dbuf = [], dnext = 0, dend = 0, op_cnt = 0, stale_op_thresh = 3, stale_size_thresh = 16,
     enable_trim = trim\<rparr>"

text \<open>\<open>__qdestroy\<close> frees the buffer, resets the pointers and the operation counter.\<close>

definition qdestroy :: "'a dynq \<Rightarrow> 'a dynq" where
  "qdestroy q = q\<lparr>dbuf := [], dnext := 0, dend := 0, op_cnt := 0\<rparr>"

definition q_grow_buffer :: "nat \<Rightarrow> 'a dynq \<Rightarrow> 'a dynq" where
  "q_grow_buffer added q = (if added = 0 then q else q\<lparr>dbuf := dbuf q @ replicate added None\<rparr>)"

definition erase_before_next :: "'a dynq \<Rightarrow> nat \<times> 'a dynq" where
  "erase_before_next q =
     (dnext q, (qdestroy q)\<lparr>dbuf := take (qrem q) (drop (dnext q) (dbuf q)) @ replicate (qcapacity q - qrem q) None,
        dnext := 0, dend := qrem q\<rparr>)"

definition is_stale :: "'a dynq \<Rightarrow> bool" where
  "is_stale q \<longleftrightarrow> op_cnt q > stale_op_thresh q \<and> dnext q > stale_size_thresh q"

definition trim_stale :: "'a dynq \<Rightarrow> 'a dynq" where
  "trim_stale q = (if is_stale q then snd (erase_before_next q) else q)"

definition on_modify_queue :: "'a dynq \<Rightarrow> 'a dynq" where
  "on_modify_queue q = (if enable_trim q then trim_stale q else q)"

text \<open>Appending the given elements: \<open>push\<close> with one of them, \<open>transfer\<close> with a range of another queue.\<close>

definition push_elements :: "'a list \<Rightarrow> 'a dynq \<Rightarrow> 'a dynq" where
  "push_elements xs q =
     (let n = length xs;
          q1 = (if qcapacity q \<le> dend q + n then q_grow_buffer (n - (qcapacity q - dend q)) q else q);
          q2 = q1\<lparr>dbuf := take (dend q1) (dbuf q1) @ map Some xs @ drop (dend q1 + n) (dbuf q1)\<rparr>
      in on_modify_queue (q2\<lparr>dend := dend q2 + n, op_cnt := op_cnt q2 + 1\<rparr>))"

definition q_push :: "'a \<Rightarrow> 'a dynq \<Rightarrow> 'a dynq" where
  "q_push x q = push_elements [x] q"

text \<open>\<open>pop\<close>; \<open>None\<close> stands for the exception it throws when nothing is left.\<close>

definition q_pop :: "'a dynq \<Rightarrow> 'a option \<times> 'a dynq" where
  "q_pop q = (if dnext q < dend q then (dbuf q ! dnext q, q\<lparr>dnext := dnext q + 1\<rparr>) else (None, q))"

definition q_unpop :: "'a dynq \<Rightarrow> 'a dynq" where
  "q_unpop q = (if dnext q > 0 then q\<lparr>dnext := dnext q - 1, op_cnt := 0\<rparr> else q)"

definition q_restart :: "'a dynq \<Rightarrow> 'a dynq" where
  "q_restart q = (if \<not> q_out_of_range q 0 then q\<lparr>dnext := 0\<rparr> else q)"

definition q_next :: "'a dynq \<Rightarrow> 'a option" where
  "q_next q = (if dnext q < qcapacity q then dbuf q ! dnext q else None)"

definition q_back :: "'a dynq \<Rightarrow> 'a option" where
  "q_back q = (if dend q > 0 then dbuf q ! (dend q - 1) else None)"

definition pop_elements :: "nat \<Rightarrow> 'a dynq \<Rightarrow> 'a option list \<times> 'a dynq" where
  "pop_elements room q =
     (if room = 0 then ([], q)
      else
        (let n = min (qrem q) room
         in (take n (drop (dnext q) (dbuf q)), on_modify_queue (q\<lparr>dnext := dnext q + n, op_cnt := 0\<rparr>))))"

definition erase_one :: "nat \<Rightarrow> 'a dynq \<Rightarrow> nat \<times> 'a dynq" where
  "erase_one p q =
     (let s = qsize q in
      if q_out_of_range q p then (0, q)
      else if s = 1 then (1, qdestroy q)
      else if p \<ge> s then (0, q)
      else
        (let nx = (if p < dnext q then dnext q - 1 else dnext q)
         in (1, (qdestroy q)\<lparr>dbuf := take p (dbuf q) @ take (s - (p + 1)) (drop (p + 1) (dbuf q))
               @ replicate (qcapacity q - 1 - (s - 1)) None,
             dnext := nx, dend := s - 1\<rparr>)))"

definition erase_elements :: "nat \<Rightarrow> nat \<Rightarrow> 'a dynq \<Rightarrow> nat \<times> 'a dynq" where
  "erase_elements start n0 q =
     (if q_out_of_range q start then (0, q)
      else
        (let n = (if start + n0 > dend q then ptr_diff (dend q) start else n0); rpos = start + n in
         if start = 0 \<and> rpos \<ge> qsize q then (qsize q, qdestroy q)
         else
           (let nx = (if start < dnext q then dnext q - min (dnext q) n else dnext q); s = qsize q - n
            in (n, (qdestroy q)\<lparr>dbuf := take start (dbuf q) @ take (qsize q - rpos) (drop rpos (dbuf q))
                  @ replicate (qcapacity q - n - s) None,
                dnext := nx, dend := s\<rparr>))))"

text \<open>
  \<open>__insert\<close>: the new pointers are advanced with \<open>__bumpc\<close>, which moves the end, by the position of the
  next element, and with \<open>__bumpn\<close>, which moves the next element, by the size.
\<close>

definition q_insert :: "nat \<Rightarrow> 'a \<Rightarrow> 'a dynq \<Rightarrow> nat option \<times> 'a dynq" where
  "q_insert p x q =
     (if q_out_of_range q p then (None, q)
      else
        (let ed = (if p < dnext q then dnext q + 1 else dnext q);
             nx = (if p < dend q then qsize q + 1 else p)
         in (Some p, (qdestroy q)\<lparr>dbuf := take p (dbuf q) @ Some x # take (dend q - p) (drop p (dbuf q))
               @ replicate (qcapacity q - dend q) None,
             dnext := nx, dend := ed\<rparr>)))"

text \<open>\<open>find\<close> and \<open>find_like\<close>: the offset of the first element that satisfies the comparison.\<close>

fun find_from :: "nat \<Rightarrow> ('a \<Rightarrow> bool) \<Rightarrow> 'a dynq \<Rightarrow> nat \<Rightarrow> nat option" where
  "find_from 0 P q i = None"
| "find_from (Suc f) P q i =
     (if i = dend q then None
      else case dbuf q ! i of
        Some x \<Rightarrow> (if P x then Some i else find_from f P q (i + 1))
      | None \<Rightarrow> find_from f P q (i + 1))"

definition q_find :: "('a \<Rightarrow> bool) \<Rightarrow> bool \<Rightarrow> 'a dynq \<Rightarrow> nat option" where
  "q_find P include_stale q = find_from (Suc (qcapacity q)) P q (if include_stale then 0 else dnext q)"

text \<open>\<open>transfer\<close> of the next \<open>n\<close> elements to the back of another queue.\<close>

definition q_transfer :: "nat \<Rightarrow> 'a dynq \<Rightarrow> 'a dynq \<Rightarrow> nat \<times> 'a dynq \<times> 'a dynq" where
  "q_transfer n q dest =
     (let xs = map the (take n (drop (dnext q) (dbuf q)));
          dest' = push_elements xs dest
      in case erase_elements (dnext q) n q of (r, q') \<Rightarrow> (r, q', dest'))"

definition q_clear :: "'a dynq \<Rightarrow> 'a dynq" where
  "q_clear q = on_modify_queue ((qdestroy q)\<lparr>dbuf := replicate (qcapacity q) None\<rparr>)"

subsection \<open>The two lists of a queue\<close>

definition stale_part :: "'a dynq \<Rightarrow> 'a list" where
  "stale_part q = map the (take (dnext q) (dbuf q))"

definition live_part :: "'a dynq \<Rightarrow> 'a list" where
  "live_part q = map the (take (dend q - dnext q) (drop (dnext q) (dbuf q)))"

definition dynq_inv :: "'a dynq \<Rightarrow> bool" where
  "dynq_inv q \<longleftrightarrow> dnext q \<le> dend q \<and> dend q \<le> qcapacity q
     \<and> None \<notin> set (take (dend q) (dbuf q))"

definition q_all :: "'a dynq \<Rightarrow> 'a list" where
  "q_all q = map the (take (dend q) (dbuf q))"

lemma q_all_parts: "dynq_inv q \<Longrightarrow> q_all q = stale_part q @ live_part q"
proof -
  assume "dynq_inv q"
  then have e: "take (dend q) (dbuf q) = take (dnext q) (dbuf q) @ take (dend q - dnext q) (drop (dnext q) (dbuf q))"
    by (metis dynq_inv_def le_add_diff_inverse take_add)
  show ?thesis unfolding q_all_def stale_part_def live_part_def e by simp
qed

lemma qrem_live: "dynq_inv q \<Longrightarrow> qrem q = length (live_part q)"
  by (auto simp: dynq_inv_def qrem_def live_part_def qcapacity_def ptr_diff_def min_def)

lemma q_all_length: "dynq_inv q \<Longrightarrow> length (q_all q) = dend q"
  by (simp add: dynq_inv_def q_all_def qcapacity_def)

text \<open>A queue is determined by its elements and the number of them that are stale.\<close>

definition queue_is :: "'a dynq \<Rightarrow> 'a list \<Rightarrow> 'a list \<Rightarrow> bool" where
  "queue_is q st lv \<longleftrightarrow> dynq_inv q \<and> stale_part q = st \<and> live_part q = lv"

lemma queue_isI:
  assumes "take (dend q) (dbuf q) = map Some (st @ lv)" "dnext q = length st" "dend q = length st + length lv"
    "dend q \<le> qcapacity q"
  shows "queue_is q st lv"
proof -
  have all: "take (length st) (dbuf q) = map Some st" "take (length lv) (drop (length st) (dbuf q)) = map Some lv"
    using assms(1,3) take_add [of "length st" "length lv" "dbuf q"] by (simp_all add: append_eq_append_conv)
      (metis (no_types, lifting) append_eq_append_conv length_map length_take min.absorb2 assms(3,4) qcapacity_def le_add1 le_trans)+
  have "None \<notin> set (take (dend q) (dbuf q))" unfolding assms(1) by auto
  then show ?thesis
    using assms(2-4) all by (simp add: queue_is_def dynq_inv_def stale_part_def live_part_def comp_def)
qed

lemma queue_isD:
  assumes "queue_is q st lv"
  shows "take (dend q) (dbuf q) = map Some (st @ lv)" "dnext q = length st" "dend q = length st + length lv"
    "dend q \<le> qcapacity q" "dynq_inv q"
proof -
  have inv: "dynq_inv q" and s: "stale_part q = st" and l: "live_part q = lv"
    using assms by (simp_all add: queue_is_def)
  show "dynq_inv q" "dend q \<le> qcapacity q" using inv by (simp_all add: dynq_inv_def)
  have "map Some (map the (take (dend q) (dbuf q))) = take (dend q) (dbuf q)"
    using inv unfolding map_map by (intro map_idI) (metis comp_apply dynq_inv_def option.collapse)
  then show "take (dend q) (dbuf q) = map Some (st @ lv)"
    using q_all_parts [OF inv] s l by (metis q_all_def)
  show "dnext q = length st" "dend q = length st + length lv"
    using inv s l by (auto simp: dynq_inv_def stale_part_def live_part_def qcapacity_def)
qed

lemma queue_is_parts: "dynq_inv q \<longleftrightarrow> queue_is q (stale_part q) (live_part q)"
  by (simp add: queue_is_def)

lemma queue_is_cong:
  "dbuf q' = dbuf q \<Longrightarrow> dnext q' = dnext q \<Longrightarrow> dend q' = dend q \<Longrightarrow> queue_is q' st lv = queue_is q st lv"
  by (simp add: queue_is_def dynq_inv_def stale_part_def live_part_def qcapacity_def)

lemma new_queue_is: "queue_is (new_queue b) [] []"
  by (rule queue_isI) (simp_all add: new_queue_def qcapacity_def)

lemma erase_before_next_is:
  assumes "queue_is q st lv"
  shows "queue_is (snd (erase_before_next q)) [] lv"
proof -
  note d = queue_isD [OF assms]
  have r: "qrem q = length lv" using qrem_live [OF d(5)] assms by (simp add: queue_is_def)
  have t: "take (length lv) (drop (length st) (dbuf q)) = map Some lv"
    using d(1,3) by (metis add_diff_cancel_left' append_eq_conv_conj drop_map drop_take length_map map_append)
  show ?thesis
    by (rule queue_isI) (use d r t in \<open>simp_all add: erase_before_next_def qcapacity_def\<close>)
qed

lemma on_modify_is:
  assumes "queue_is q st lv"
  shows "\<exists>st'. (st' = st \<or> st' = []) \<and> queue_is (on_modify_queue q) st' lv"
  using assms erase_before_next_is [OF assms] by (auto simp: on_modify_queue_def trim_stale_def)

lemma push_elements_is:
  assumes "queue_is q st lv"
  shows "\<exists>st'. (st' = st \<or> st' = []) \<and> queue_is (push_elements xs q) st' (lv @ xs)"
proof -
  note d = queue_isD [OF assms]
  let ?q1 = "if qcapacity q \<le> dend q + length xs then q_grow_buffer (length xs - (qcapacity q - dend q)) q else q"
  let ?q2 = "?q1\<lparr>dbuf := take (dend ?q1) (dbuf ?q1) @ map Some xs @ drop (dend ?q1 + length xs) (dbuf ?q1)\<rparr>"
  let ?q3 = "?q2\<lparr>dend := dend ?q2 + length xs, op_cnt := op_cnt ?q2 + 1\<rparr>"
  have g: "dend ?q1 = dend q" "dnext ?q1 = dnext q" "take (dend q) (dbuf ?q1) = map Some (st @ lv)"
    "dend q + length xs \<le> length (dbuf ?q1)"
    using d by (auto simp: q_grow_buffer_def qcapacity_def)
  have "queue_is ?q3 st (lv @ xs)"
    by (rule queue_isI) (use g d in \<open>simp_all add: qcapacity_def\<close>)
  then show ?thesis unfolding push_elements_def Let_def by (rule on_modify_is)
qed

lemma q_pop_is:
  assumes "queue_is q st (x # lv)"
  shows "q_pop q = (Some x, snd (q_pop q))" "queue_is (snd (q_pop q)) (st @ [x]) lv"
proof -
  note d = queue_isD [OF assms]
  have "dbuf q ! length st = take (dend q) (dbuf q) ! length st" using d(3) by simp
  then have "dbuf q ! length st = Some x" unfolding d(1) by (simp add: nth_append)
  then show "q_pop q = (Some x, snd (q_pop q))" using d by (simp add: q_pop_def)
  show "queue_is (snd (q_pop q)) (st @ [x]) lv"
    by (rule queue_isI) (use d in \<open>simp_all add: q_pop_def qcapacity_def\<close>)
qed

lemma q_unpop_is:
  assumes "queue_is q (st @ [x]) lv"
  shows "queue_is (q_unpop q) st (x # lv)"
  by (rule queue_isI) (use queue_isD [OF assms] in \<open>simp_all add: q_unpop_def qcapacity_def\<close>)

lemma q_restart_is:
  assumes "queue_is q st lv"
  shows "queue_is (q_restart q) [] (st @ lv)"
  by (rule queue_isI)
    (use queue_isD [OF assms] in \<open>auto simp: q_restart_def qcapacity_def q_out_of_range_def\<close>)

lemma take_cut:
  assumes "take n xs = ys" "p < n" "n \<le> length xs"
  shows "take p xs @ take (n - (p + 1)) (drop (p + 1) xs) = take p ys @ drop (p + 1) ys"
  using assms by (auto simp: drop_take min_def)

lemma erase_one_is:
  assumes "queue_is q st lv" "p < length (st @ lv)"
  shows "erase_one p q = (1, snd (erase_one p q))"
    "queue_is (snd (erase_one p q)) (if p < length st then take p st @ drop (p + 1) st else st)
       (if p < length st then lv else take (p - length st) lv @ drop (p + 1 - length st) lv)"
proof -
  note d = queue_isD [OF assms(1)]
  have rng: "\<not> q_out_of_range q p" "p < dend q" using assms(2) d by (simp_all add: q_out_of_range_def)
  show "erase_one p q = (1, snd (erase_one p q))" using rng by (simp add: erase_one_def qsize_def Let_def)
  show "queue_is (snd (erase_one p q)) (if p < length st then take p st @ drop (p + 1) st else st)
       (if p < length st then lv else take (p - length st) lv @ drop (p + 1 - length st) lv)"
  proof (cases "dend q = 1")
    case True
    then have "p = 0" "st = [] \<and> length lv = 1 \<or> lv = [] \<and> length st = 1"
      using rng(2) d(3) by (simp, cases st, auto)
    then show ?thesis using True rng(1)
      by (intro queue_isI) (auto simp: erase_one_def qsize_def qdestroy_def qcapacity_def Let_def)
  next
    case False
    have cut: "take p (dbuf q) @ take (dend q - (p + 1)) (drop (p + 1) (dbuf q))
        = map Some (take p (st @ lv) @ drop (p + 1) (st @ lv))"
      using take_cut [OF d(1) rng(2)] d(4) by (simp add: qcapacity_def take_map drop_map)
    have e: "snd (erase_one p q) = (qdestroy q)\<lparr>dbuf := take p (dbuf q) @ take (dend q - (p + 1)) (drop (p + 1) (dbuf q))
               @ replicate (qcapacity q - 1 - (dend q - 1)) None,
             dnext := (if p < dnext q then dnext q - 1 else dnext q), dend := dend q - 1\<rparr>"
      using rng False by (simp add: erase_one_def qsize_def Let_def)
    define st' lv' where "st' = (if p < length st then take p st @ drop (p + 1) st else st)"
      and "lv' = (if p < length st then lv else take (p - length st) lv @ drop (p + 1 - length st) lv)"
    have A: "take p (st @ lv) @ drop (p + 1) (st @ lv) = st' @ lv'" by (simp add: st'_def lv'_def)
    have len: "length st' + length lv' = dend q - 1" "length st' = (if p < dnext q then dnext q - 1 else dnext q)"
      using rng(2) d(2,3) by (auto simp: st'_def lv'_def)
    have "queue_is (snd (erase_one p q)) st' lv'"
      unfolding e append_assoc [symmetric] cut [unfolded A]
      by (rule queue_isI) (use len d(4) rng(2) in \<open>simp_all add: qcapacity_def\<close>)
    then show ?thesis unfolding st'_def lv'_def .
  qed
qed

lemma erase_next_is:
  assumes "queue_is q st (x # lv)"
  shows "fst (erase_elements (dnext q) 1 q) = 1" "queue_is (snd (erase_elements (dnext q) 1 q)) st lv"
proof -
  note d = queue_isD [OF assms]
  have rng: "\<not> q_out_of_range q (dnext q)" "dnext q < dend q" using d by (simp_all add: q_out_of_range_def)
  have cut: "take (dnext q) (dbuf q) @ take (dend q - (dnext q + 1)) (drop (dnext q + 1) (dbuf q)) = map Some (st @ lv)"
    using take_cut [OF d(1) rng(2)] d(2,4) by (simp add: qcapacity_def)
  show "fst (erase_elements (dnext q) 1 q) = 1"
    using rng d by (auto simp: erase_elements_def qsize_def Let_def)
  show "queue_is (snd (erase_elements (dnext q) 1 q)) st lv"
  proof (cases "st = [] \<and> lv = []")
    case True
    then show ?thesis using rng d
      by (intro queue_isI) (auto simp: erase_elements_def qsize_def qdestroy_def qcapacity_def Let_def)
  next
    case False
    then have "\<not> (dnext q = 0 \<and> dnext q + 1 \<ge> dend q)" using d by auto
    then have e: "snd (erase_elements (dnext q) 1 q) = (qdestroy q)\<lparr>dbuf := take (dnext q) (dbuf q)
         @ take (dend q - (dnext q + 1)) (drop (dnext q + 1) (dbuf q)) @ replicate (qcapacity q - 1 - (dend q - 1)) None,
         dnext := dnext q, dend := dend q - 1\<rparr>"
      using rng by (auto simp: erase_elements_def qsize_def Let_def)
    show ?thesis unfolding e append_assoc [symmetric] cut
      by (rule queue_isI) (use d rng in \<open>simp_all add: qcapacity_def\<close>)
  qed
qed

lemma q_transfer_is:
  assumes "queue_is q st (x # lv)" "queue_is dest sd ld"
  obtains q' dest' sd' where "q_transfer 1 q dest = (1, q', dest')" "queue_is q' st lv"
    "queue_is dest' sd' (ld @ [x])" "sd' = sd \<or> sd' = []"
proof -
  note d = queue_isD [OF assms(1)]
  have "dbuf q ! length st = take (dend q) (dbuf q) ! length st" using d(3) by simp
  then have x: "dbuf q ! length st = Some x" unfolding d(1) by (simp add: nth_append)
  have "take 1 (drop (dnext q) (dbuf q)) = [Some x]"
    using d x by (simp add: qcapacity_def take_Suc_conv_app_nth)
  then have "q_transfer 1 q dest = (fst (erase_elements (dnext q) 1 q), snd (erase_elements (dnext q) 1 q), push_elements [x] dest)"
    by (simp add: q_transfer_def Let_def case_prod_beta)
  then show thesis
    using that erase_next_is [OF assms(1)] push_elements_is [OF assms(2), of "[x]"] by auto
qed

interpretation dq: fifo "new_queue b" q_push q_pop qrem dynq_inv live_part
proof
  show "dynq_inv (new_queue b)" "live_part (new_queue b) = []"
    by (simp_all add: new_queue_def dynq_inv_def live_part_def qcapacity_def)
  fix q :: "'c dynq" and x xs
  assume inv: "dynq_inv q"
  then have q: "queue_is q (stale_part q) (live_part q)" by (simp add: queue_is_def)
  from push_elements_is [OF q, of "[x]"]
  show "dynq_inv (q_push x q)" "live_part (q_push x q) = live_part q @ [x]"
    by (auto simp: q_push_def queue_is_def)
  show "qrem q = length (live_part q)" by (rule qrem_live [OF inv])
  show "fst (q_pop q) = Some x \<and> live_part (snd (q_pop q)) = xs" if "live_part q = x # xs"
    using arg_cong [OF q_pop_is(1) [of q "stale_part q" x xs], of fst] q_pop_is(2) [of q "stale_part q" x xs] q that
    by (simp add: queue_is_def)
  show "dynq_inv (snd (q_pop q))" if "live_part q \<noteq> []"
    using q_pop_is [of q "stale_part q" "hd (live_part q)" "tl (live_part q)"] q that by (simp add: queue_is_def)
qed

subsection \<open>Properties\<close>

lemma pops_is:
  "queue_is q st lv \<Longrightarrow> k \<le> length lv \<Longrightarrow>
   queue_is (((\<lambda>q. snd (q_pop q)) ^^ k) q) (st @ take k lv) (drop k lv)"
proof (induction k)
  case (Suc k)
  then have "queue_is (((\<lambda>q. snd (q_pop q)) ^^ k) q) (st @ take k lv) (lv ! k # drop (Suc k) lv)"
    by (simp add: Cons_nth_drop_Suc)
  from q_pop_is(2) [OF this] Suc.prems show ?case
    by (simp add: take_Suc_conv_app_nth)
qed simp

definition small_queue :: "nat dynq" where
  "small_queue = \<lparr>dbuf = [Some 7, Some 8, Some 9, None], dnext = 1, dend = 3, op_cnt = 0, stale_op_thresh = 3,
     stale_size_thresh = 16, enable_trim = True\<rparr>"

lemma small_queue_is: "queue_is small_queue [7] [8, 9]"
  by (rule queue_isI) (simp_all add: small_queue_def qcapacity_def)

text \<open>
  C18. The resettable queue is a queue: for every sequence of pushes and pops from an empty queue, with or
  without trimming of stale elements, the elements popped and those left are the ones of a list.
\<close>

theorem resettable_queue_refines_list:
  "fst (run_queue q_push q_pop qrem ops (new_queue b)) = fst (run_list ops [])
   \<and> live_part (snd (run_queue q_push q_pop qrem ops (new_queue b))) = snd (run_list ops [])
   \<and> dynq_inv (snd (run_queue q_push q_pop qrem ops (new_queue b)))"
  using dq.run_refines [of "new_queue b" ops] by (simp add: dq.emp_ok)

text \<open>
  C19. Undoing pops: after any number of pops one \<open>unpop\<close> brings back the last element popped, and
  \<open>restart\<close> brings back every element the queue still holds, in the original order.
\<close>

theorem resettable_queue_rewinds:
  assumes "dynq_inv q" "0 < k" "k \<le> length (live_part q)"
  shows "live_part (q_unpop (((\<lambda>q. snd (q_pop q)) ^^ k) q)) = drop (k - 1) (live_part q)
     \<and> live_part (q_restart (((\<lambda>q. snd (q_pop q)) ^^ k) q)) = stale_part q @ live_part q"
proof -
  let ?lv = "live_part q"
  have p: "queue_is (((\<lambda>q. snd (q_pop q)) ^^ k) q) (stale_part q @ take k ?lv) (drop k ?lv)"
    using assms by (intro pops_is) (simp_all add: queue_is_def)
  have "stale_part q @ take k ?lv = (stale_part q @ take (k - 1) ?lv) @ [?lv ! (k - 1)]"
    using assms(2,3) take_Suc_conv_app_nth [of "k - 1" ?lv] by simp
  then have "queue_is (q_unpop (((\<lambda>q. snd (q_pop q)) ^^ k) q)) (stale_part q @ take (k - 1) ?lv)
      (?lv ! (k - 1) # drop k ?lv)"
    using p by (intro q_unpop_is) simp
  moreover have "?lv ! (k - 1) # drop k ?lv = drop (k - 1) ?lv"
    using assms(2,3) Cons_nth_drop_Suc [of "k - 1" ?lv] by simp
  ultimately show ?thesis using q_restart_is [OF p] by (simp add: queue_is_def)
qed

theorem resettable_queue_rewinds_witness:
  "dynq_inv small_queue \<and> live_part (q_restart (((\<lambda>q. snd (q_pop q)) ^^ 2) small_queue)) = [7, 8, 9]"
  using resettable_queue_rewinds [of small_queue 2] small_queue_is by (simp add: queue_is_def)

text \<open>
  Inserting in the middle breaks the queue: at any position of the live part, \<open>insert\<close> leaves the
  position of the next element behind the end, so the queue claims to have elements left, while \<open>pop\<close>
  finds none and throws.
\<close>

theorem resettable_queue_insert_breaks:
  assumes "dynq_inv q" "length (stale_part q) \<le> p" "p < length (q_all q)" "length (q_all q) < 2 ^ 63"
  shows "dend (snd (q_insert p x q)) < dnext (snd (q_insert p x q)) \<and> \<not> q_at_end (snd (q_insert p x q))
     \<and> fst (q_pop (snd (q_insert p x q))) = None"
proof -
  have q: "queue_is q (stale_part q) (live_part q)" using assms(1) by (simp add: queue_is_def)
  note d = queue_isD [OF q]
  have p: "p < dend q" "dnext q \<le> p" "\<not> q_out_of_range q p" "dend q < 2 ^ 63"
    using assms q_all_length [OF assms(1)] d by (simp_all add: q_out_of_range_def)
  then show ?thesis
    using d(2,3) by (simp add: q_insert_def Let_def q_at_end_def qrem_def ptr_diff_def q_pop_def qsize_def)
qed

theorem resettable_queue_insert_breaks_witness:
  "fst (q_pop (snd (q_insert 1 5 small_queue))) = None \<and> \<not> q_at_end (snd (q_insert 1 5 small_queue))"
proof -
  have "dynq_inv small_queue" "stale_part small_queue = [7]" "q_all small_queue = [7, 8, 9]"
    using small_queue_is by (simp_all add: queue_is_def q_all_def small_queue_def)
  then show ?thesis using resettable_queue_insert_breaks [of small_queue 1 5] by simp
qed

end
