(* ===== verification/Vectors.thy ===== *)
theory Vectors
  imports OoOS_Prelude "HOL-Library.Monad_Syntax"
begin

text \<open>
  The growable array under \<open>std::vector\<close> of the kernel: \<open>__buf_ptrs\<close> and \<open>__dynamic_buffer\<close> of
  \<open>common/include/c++/bits/dynamic_buffer.hpp\<close>, in the instance without string termination, and the
  operations of \<open>common/include/c++/vector\<close> on top of it.  A vector is its storage, a list of cells, and
  the number of elements; a cell is \<open>None\<close> when it holds no element (fresh, destroyed or zeroed memory).
  Pointers into the storage are offsets.  An operation that writes outside the storage has the value
  \<open>None\<close>; a null pointer returned by the code is an inner \<open>None\<close>.  Memory is assumed to suffice.
\<close>

record 'a vec =
  vcells :: "'a option list"
  vlen :: nat

subsection \<open>Storage\<close>

definition vcap :: "'a vec \<Rightarrow> nat" where
  "vcap v = length (vcells v)"

definition vrem :: "'a vec \<Rightarrow> nat" where
  "vrem v = vcap v - vlen v"

definition new_vec :: "'a vec" where
  "new_vec = \<lparr>vcells = [], vlen = 0\<rparr>"

definition v_allocate :: "nat \<Rightarrow> 'a vec" where
  "v_allocate cap = \<lparr>vcells = replicate cap None, vlen = 0\<rparr>"

text \<open>Copying elements to an offset of the storage; \<open>None\<close> when they do not fit.\<close>

definition write_at :: "nat \<Rightarrow> 'a option list \<Rightarrow> 'a option list \<Rightarrow> 'a option list option" where
  "write_at p xs buf = (if p + length xs \<le> length buf then Some (take p buf @ xs @ drop (p + length xs) buf) else None)"

definition valid_end_pos :: "'a vec \<Rightarrow> nat \<Rightarrow> bool" where
  "valid_end_pos v p \<longleftrightarrow> p \<le> vcap v"

definition v_out_of_range :: "'a vec \<Rightarrow> nat \<Rightarrow> bool" where
  "v_out_of_range v p \<longleftrightarrow> p \<ge> vcap v"

definition v_setc :: "nat \<Rightarrow> 'a vec \<Rightarrow> 'a vec" where
  "v_setc p v = (if valid_end_pos v p then v\<lparr>vlen := p\<rparr> else v)"

definition v_advance :: "nat \<Rightarrow> 'a vec \<Rightarrow> 'a vec" where
  "v_advance n v = (if valid_end_pos v (vlen v + n) then v_setc (vlen v + n) v else v_setc (vcap v) v)"

definition v_backtrack :: "nat \<Rightarrow> 'a vec \<Rightarrow> 'a vec" where
  "v_backtrack n v = (if n \<le> vlen v \<and> valid_end_pos v (vlen v - n) then v_setc (vlen v - n) v else v_setc 0 v)"

text \<open>\<open>__resize\<close> keeps the leading cells and clamps the number of elements to the new capacity.\<close>

definition v_resize :: "nat \<Rightarrow> nat \<Rightarrow> 'a vec \<Rightarrow> 'a vec" where
  "v_resize ncur ncap v =
     \<lparr>vcells = take ncap (vcells v) @ replicate (ncap - vcap v) None, vlen = (if ncur > ncap then ncap else ncur)\<rparr>"

definition v_max_capacity :: nat where
  "v_max_capacity = 2 ^ 64 - 1"

definition v_grow_buffer :: "nat \<Rightarrow> 'a vec \<Rightarrow> 'a vec" where
  "v_grow_buffer added v =
     (if added = 0 then v
      else v_resize (vlen v) (min (max (2 * vcap v) (vcap v + added)) v_max_capacity) v)"

definition v_grow_buffer_exact :: "nat \<Rightarrow> 'a vec \<Rightarrow> 'a vec" where
  "v_grow_buffer_exact added v = (if added = 0 then v else v_resize (vlen v) (vcap v + added) v)"

definition v_trim_buffer :: "'a vec \<Rightarrow> 'a vec" where
  "v_trim_buffer v = v_setc (vlen v) (v_resize (vlen v) (vlen v) v)"

definition v_size_buffer :: "nat \<Rightarrow> 'a vec \<Rightarrow> 'a vec" where
  "v_size_buffer n v = v_setc (vlen v) (v_resize (min n (vlen v)) n v)"

definition v_clear :: "'a vec \<Rightarrow> 'a vec" where
  "v_clear v = v_allocate (vcap v)"

subsection \<open>Operations of the buffer\<close>

definition v_construct_element :: "nat \<Rightarrow> 'a \<Rightarrow> 'a vec \<Rightarrow> 'a vec" where
  "v_construct_element p x v =
     (if v_out_of_range v p then v
      else (let v1 = v\<lparr>vcells := (vcells v)[p := Some x]\<rparr> in if p > vlen v1 then v_setc p v1 else v1))"

definition v_assign_elements :: "'a list \<Rightarrow> 'a vec \<Rightarrow> 'a vec option" where
  "v_assign_elements xs v =
     (let count = length xs;
          v1 = (if count > vcap v then v_grow_buffer (count - vcap v) v else v)
      in do {
        b \<leftarrow> write_at 0 (map Some xs) (vcells v1);
        Some (v_setc count (v1\<lparr>vcells := b\<rparr>)) })"

definition v_append_element :: "'a \<Rightarrow> 'a vec \<Rightarrow> 'a vec option" where
  "v_append_element x v =
     (let bsz = vlen v;
          v1 = (if \<not> vcap v > vlen v then v_grow_buffer 1 v else v)
      in do {
        b \<leftarrow> write_at bsz [Some x] (vcells v1);
        Some (v_setc (bsz + 1) (v1\<lparr>vcells := b\<rparr>)) })"

definition v_append_copies :: "nat \<Rightarrow> 'a \<Rightarrow> 'a vec \<Rightarrow> 'a vec option" where
  "v_append_copies count x v =
     (let bsz = vlen v;
          v1 = (if \<not> vcap v > vlen v + count then v_grow_buffer (count - vrem v) v else v)
      in do {
        b \<leftarrow> write_at bsz (replicate count (Some x)) (vcells v1);
        Some (v_setc (bsz + count) (v1\<lparr>vcells := b\<rparr>)) })"

definition v_append_elements :: "'a list \<Rightarrow> 'a vec \<Rightarrow> 'a vec option" where
  "v_append_elements xs v =
     (if xs = [] then Some v
      else
        (let bsz = vlen v; num = length xs;
             v1 = (if num > vrem v then v_grow_buffer (num - vrem v) v else v)
         in do {
           b \<leftarrow> write_at bsz (map Some xs) (vcells v1);
           Some (v_setc (bsz + num) (v1\<lparr>vcells := b\<rparr>)) }))"

definition v_erase_at_end :: "nat \<Rightarrow> 'a vec \<Rightarrow> 'a vec option" where
  "v_erase_at_end n v =
     (if n \<ge> vlen v then Some (v_clear v)
      else do {
        b \<leftarrow> write_at (vlen v - n) (replicate n None) (vcells v);
        Some ((v_backtrack n v)\<lparr>vcells := b\<rparr>) })"

text \<open>
  \<open>__erase_range\<close>.  The end of the range has to be an offset below the capacity, otherwise nothing
  happens.  The number of elements after the range is a difference of pointers taken as unsigned, so a
  range that ends behind the last element makes the code move memory outside the storage.
\<close>

definition v_erase_range :: "nat \<Rightarrow> nat \<Rightarrow> 'a vec \<Rightarrow> (nat option \<times> 'a vec) option" where
  "v_erase_range s e v =
     (if v_out_of_range v s \<or> v_out_of_range v e \<or> e < s then Some (None, v)
      else if e > vlen v then None
      else if vlen v = e then do { v1 \<leftarrow> v_erase_at_end (e - s) v; Some (Some (vlen v1), v1) }
      else
        (let rem = vlen v - e; temp = take rem (drop e (vcells v)) in do {
           b1 \<leftarrow> write_at s (replicate (vlen v - s) None) (vcells v);
           b2 \<leftarrow> write_at s temp b1;
           Some (Some s, v_setc (s + rem) (v\<lparr>vcells := b2\<rparr>)) }))"

text \<open>
  \<open>__insert_elements\<close>.  The test for room looks only at the position and the length of the inserted
  range; the elements after the position are moved up without a test.
\<close>

definition v_insert_elements :: "nat \<Rightarrow> 'a list \<Rightarrow> 'a vec \<Rightarrow> (nat option \<times> 'a vec) option" where
  "v_insert_elements p xs v =
     (if v_out_of_range v p then Some (None, v)
      else
        (let range_size = length xs; prepending = (p < vlen v); n = vlen v - p; osz = vlen v in
         if p + range_size < vcap v then
           (if prepending then
              (let temp = take n (drop p (vcells v)) in do {
                 b1 \<leftarrow> write_at p (map Some xs) (vcells v);
                 b2 \<leftarrow> write_at (p + range_size) temp b1;
                 Some (Some p, v_advance range_size (v\<lparr>vcells := b2\<rparr>)) })
            else do {
              b \<leftarrow> write_at p (map Some xs) (vcells v);
              Some (Some p, v_setc (p + range_size) (v\<lparr>vcells := b\<rparr>)) })
         else
           (let target_cap = vcap v + (p + range_size - vcap v); nwdat = replicate target_cap None in do {
              b1 \<leftarrow> (if prepending then do {
                       c1 \<leftarrow> write_at 0 (take p (vcells v)) nwdat;
                       write_at (p + range_size) (take n (drop p (vcells v))) c1 }
                     else write_at 0 (take osz (vcells v)) nwdat);
              b2 \<leftarrow> write_at p (map Some xs) b1;
              Some (Some p, v_setc (osz + range_size) \<lparr>vcells = b2, vlen = 0\<rparr>) })))"

definition v_emplace_at_end :: "'a \<Rightarrow> 'a vec \<Rightarrow> (nat \<times> 'a vec) option" where
  "v_emplace_at_end x v =
     (let v1 = (if vlen v = vcap v then v_grow_buffer 1 v else v) in do {
        b \<leftarrow> write_at (vlen v1) [Some x] (vcells v1);
        Some (vlen v1, v_advance 1 (v1\<lparr>vcells := b\<rparr>)) })"

text \<open>\<open>__emplace_element\<close> builds the new storage and takes over its pointers, whose end is the start.\<close>

definition v_emplace_element :: "nat \<Rightarrow> 'a \<Rightarrow> 'a vec \<Rightarrow> (nat \<times> 'a vec) option" where
  "v_emplace_element p x v =
     (if p \<ge> vcap v then v_emplace_at_end x v
      else if p > vlen v then None
      else
        (let rem = vlen v - p;
             target_cap = (if vlen v < vcap v then vcap v else vcap v + 1);
             nwdat = replicate target_cap None
         in do {
           b1 \<leftarrow> write_at p [Some x] nwdat;
           b2 \<leftarrow> write_at 0 (take p (vcells v)) b1;
           b3 \<leftarrow> (if rem \<noteq> 0 then write_at (p + 1) (take rem (drop p (vcells v))) b2 else Some b2);
           Some (p, \<lparr>vcells = b3, vlen = 0\<rparr>) }))"

definition v_replace_elements :: "nat \<Rightarrow> nat \<Rightarrow> 'a list \<Rightarrow> 'a vec \<Rightarrow> (nat \<times> 'a vec) option" where
  "v_replace_elements p count xs v =
     (let count2 = length xs in
      if count2 = count then do {
        b \<leftarrow> write_at p (map Some xs) (vcells v);
        Some (p + count, v\<lparr>vcells := b\<rparr>) }
      else if p + count > vlen v \<or> vcap v + count2 < count then None
      else
        (let target_cap = vcap v + count2 - count; rem = vlen v - (p + count); rs_size = vlen v + count2 - count
         in do {
           b1 \<leftarrow> write_at 0 (take p (vcells v)) (replicate target_cap None);
           b2 \<leftarrow> write_at p (map Some xs) b1;
           b3 \<leftarrow> write_at (p + count2) (take rem (drop (p + count) (vcells v))) b2;
           Some (p + count, v_setc rs_size \<lparr>vcells = b3, vlen = 0\<rparr>) }))"

definition v_replace_range :: "nat \<Rightarrow> nat \<Rightarrow> 'a list \<Rightarrow> 'a vec \<Rightarrow> (nat option \<times> 'a vec) option" where
  "v_replace_range s e xs v =
     (if v_out_of_range v s \<or> v_out_of_range v e \<or> e < s then Some (None, v)
      else map_option (map_prod Some id) (v_replace_elements s (e - s) xs v))"

definition v_copy_assign :: "'a vec \<Rightarrow> 'a vec \<Rightarrow> 'a vec option" where
  "v_copy_assign that v =
     (if vcells that = [] then Some new_vec
      else do {
        b \<leftarrow> write_at 0 (vcells that) (replicate (vcap that) None);
        Some (v_advance (vlen that) \<lparr>vcells = b, vlen = 0\<rparr>) })"

definition v_copy_construct :: "'a vec \<Rightarrow> 'a vec option" where
  "v_copy_construct that = do {
     b \<leftarrow> write_at 0 (take (vlen that) (vcells that)) (replicate (vlen that) None);
     Some (v_setc (vlen that) \<lparr>vcells = b, vlen = 0\<rparr>) }"

definition v_of_list :: "'a list \<Rightarrow> 'a vec" where
  "v_of_list xs = v_setc (length xs) \<lparr>vcells = map Some xs, vlen = 0\<rparr>"

definition v_swap :: "'a vec \<Rightarrow> 'a vec \<Rightarrow> 'a vec \<times> 'a vec" where
  "v_swap this that = (that, this)"

subsection \<open>Operations of the vector\<close>

text \<open>An iterator comes back as the offset it points at, \<open>end()\<close> where the code has a null pointer.\<close>

fun vec_find_from :: "('a \<Rightarrow> bool) \<Rightarrow> 'a option list \<Rightarrow> nat \<Rightarrow> nat" where
  "vec_find_from P [] i = i"
| "vec_find_from P (c # cs) i = (case c of Some x \<Rightarrow> if P x then i else vec_find_from P cs (i + 1)
     | None \<Rightarrow> vec_find_from P cs (i + 1))"

definition vec_find :: "'a \<Rightarrow> 'a vec \<Rightarrow> nat" where
  "vec_find x v = vec_find_from (\<lambda>y. y = x) (take (vlen v) (vcells v)) 0"

definition or_end :: "nat option \<times> 'a vec \<Rightarrow> nat \<times> 'a vec" where
  "or_end r = (case r of (Some p, v) \<Rightarrow> (p, v) | (None, v) \<Rightarrow> (vlen v, v))"

definition vec_insert :: "nat \<Rightarrow> 'a \<Rightarrow> 'a vec \<Rightarrow> (nat \<times> 'a vec) option" where
  "vec_insert p x v = map_option or_end (v_insert_elements p [x] v)"

definition vec_insert_range :: "nat \<Rightarrow> 'a list \<Rightarrow> 'a vec \<Rightarrow> (nat \<times> 'a vec) option" where
  "vec_insert_range p xs v = map_option or_end (v_insert_elements p xs v)"

definition vec_emplace :: "nat \<Rightarrow> 'a \<Rightarrow> 'a vec \<Rightarrow> (nat \<times> 'a vec) option" where
  "vec_emplace p x v = v_emplace_element p x v"

definition vec_emplace_back :: "'a \<Rightarrow> 'a vec \<Rightarrow> 'a vec option" where
  "vec_emplace_back x v = map_option snd (v_emplace_at_end x v)"

definition vec_erase :: "nat \<Rightarrow> 'a vec \<Rightarrow> (nat \<times> 'a vec) option" where
  "vec_erase p v = map_option or_end (v_erase_range p (p + 1) v)"

definition vec_erase_range :: "nat \<Rightarrow> nat \<Rightarrow> 'a vec \<Rightarrow> (nat \<times> 'a vec) option" where
  "vec_erase_range s e v = map_option or_end (v_erase_range s e v)"

definition vec_push_back :: "'a \<Rightarrow> 'a vec \<Rightarrow> 'a vec option" where
  "vec_push_back x v = v_append_element x v"

definition vec_pop_back :: "'a vec \<Rightarrow> 'a vec option" where
  "vec_pop_back v = v_erase_at_end 1 v"

definition vec_reserve :: "nat \<Rightarrow> 'a vec \<Rightarrow> 'a vec" where
  "vec_reserve count v = (if count > vcap v then v_grow_buffer (count - vcap v) v else v)"

text \<open>\<open>size(count)\<close> with a default element for the types whose constructor does something.\<close>

definition vec_size_to :: "'a \<Rightarrow> nat \<Rightarrow> 'a vec \<Rightarrow> 'a vec option" where
  "vec_size_to dflt count v =
     (if count \<noteq> 0 then
        (let old = vlen v in
         if count < old then do {
           b \<leftarrow> write_at count (replicate (old - count) None) (vcells v);
           Some (v_setc count (v\<lparr>vcells := b\<rparr>)) }
         else
           (let v1 = vec_reserve count v in do {
              b \<leftarrow> write_at old (replicate (count - old) (Some dflt)) (vcells v1);
              Some (v_setc count (v1\<lparr>vcells := b\<rparr>)) }))
      else Some (v_clear v))"

subsection \<open>The list a vector holds\<close>

definition vec_list :: "'a vec \<Rightarrow> 'a list" where
  "vec_list v = map the (take (vlen v) (vcells v))"

definition vec_inv :: "'a vec \<Rightarrow> bool" where
  "vec_inv v \<longleftrightarrow> vlen v \<le> vcap v \<and> None \<notin> set (take (vlen v) (vcells v))"

definition vec_is :: "'a vec \<Rightarrow> 'a list \<Rightarrow> bool" where
  "vec_is v xs \<longleftrightarrow> vlen v = length xs \<and> length xs \<le> vcap v \<and> take (length xs) (vcells v) = map Some xs"

lemma vec_is_iff: "vec_is v xs \<longleftrightarrow> vec_inv v \<and> vec_list v = xs"
proof
  assume a: "vec_is v xs"
  then have t: "take (vlen v) (vcells v) = map Some xs" by (simp add: vec_is_def)
  have "None \<notin> set (take (vlen v) (vcells v))" unfolding t by auto
  then show "vec_inv v \<and> vec_list v = xs"
    using a t by (simp add: vec_is_def vec_inv_def vec_list_def comp_def)
next
  assume a: "vec_inv v \<and> vec_list v = xs"
  then have "map Some (map the (take (vlen v) (vcells v))) = take (vlen v) (vcells v)"
    unfolding map_map by (intro map_idI) (metis comp_apply vec_inv_def option.collapse)
  then show "vec_is v xs" using a by (auto simp: vec_is_def vec_inv_def vec_list_def vcap_def)
qed

lemma vec_isD:
  assumes "vec_is v xs"
  shows "vlen v = length xs" "length xs \<le> vcap v" "length xs \<le> length (vcells v)"
    "take (length xs) (vcells v) = map Some xs"
  using assms by (simp_all add: vec_is_def vcap_def)

lemma vec_isI:
  "vlen v = length xs \<Longrightarrow> take (length xs) (vcells v) = map Some xs \<Longrightarrow> vec_is v xs"
  unfolding vec_is_def vcap_def by (metis length_map length_take min.cobounded1 order_refl)

lemma vec_is_parts:
  assumes "vec_is v xs"
  obtains t where "vcells v = map Some xs @ t" "vlen v = length xs" "vcap v = length xs + length t"
  using vec_isD [OF assms] append_take_drop_id [of "length xs" "vcells v"]
  by (metis length_append length_map vcap_def)

lemma write_at_fits [simp]:
  "p + length xs \<le> length buf \<Longrightarrow> write_at p xs buf = Some (take p buf @ xs @ drop (p + length xs) buf)"
  by (simp add: write_at_def)

lemma v_setc_fits [simp]: "p \<le> vcap v \<Longrightarrow> v_setc p v = v\<lparr>vlen := p\<rparr>"
  by (simp add: v_setc_def valid_end_pos_def)

text \<open>Growing keeps the elements and leaves room for those asked for.\<close>

lemma v_grow_buffer_is:
  assumes "vec_is v xs" "length xs + n < 2 ^ 64"
  shows "vec_is (v_grow_buffer added v) xs"
    and "vcap v + added \<ge> length xs + n \<Longrightarrow> length xs + n \<le> vcap (v_grow_buffer added v)"
proof -
  obtain t where t: "vcells v = map Some xs @ t" "vlen v = length xs" "vcap v = length xs + length t"
    by (rule vec_is_parts [OF assms(1)])
  define tg where "tg = min (max (2 * vcap v) (vcap v + added)) v_max_capacity"
  have tg: "length xs \<le> tg" using assms(2) t(3) by (auto simp: tg_def v_max_capacity_def)
  have c: "vcap (v_resize (vlen v) tg v) = tg" by (simp add: v_resize_def vcap_def)
  show "vec_is (v_grow_buffer added v) xs"
  proof (cases "added = 0")
    case True then show ?thesis using assms(1) by (simp add: v_grow_buffer_def)
  next
    case False
    have "vec_is (v_resize (vlen v) tg v) xs"
      by (rule vec_isI) (use t tg in \<open>simp_all add: v_resize_def\<close>)
    then show ?thesis using False by (simp add: v_grow_buffer_def tg_def)
  qed
  show "length xs + n \<le> vcap (v_grow_buffer added v)" if le: "vcap v + added \<ge> length xs + n"
  proof (cases "added = 0")
    case True then show ?thesis using le by (simp add: v_grow_buffer_def)
  next
    case False
    then have "vcap (v_grow_buffer added v) = tg" using c by (simp add: v_grow_buffer_def tg_def)
    then show ?thesis using le assms(2) by (auto simp: tg_def v_max_capacity_def)
  qed
qed

text \<open>Writing behind the elements, and then moving the end, appends.\<close>

lemma append_is:
  assumes "vec_is v xs" "length xs + length ys \<le> vcap v"
  shows "\<exists>b. write_at (length xs) (map Some ys) (vcells v) = Some b
     \<and> vec_is (v_setc (length xs + length ys) (v\<lparr>vcells := b\<rparr>)) (xs @ ys)"
proof -
  obtain t where t: "vcells v = map Some xs @ t" "vlen v = length xs" "vcap v = length xs + length t"
    by (rule vec_is_parts [OF assms(1)])
  have "length ys \<le> length t" using assms(2) t(3) by simp
  then show ?thesis using t
    by (auto intro!: vec_isI simp: vcap_def)
qed

lemma v_append_element_is:
  assumes "vec_is v xs" "length xs + 1 < 2 ^ 64"
  shows "\<exists>v'. v_append_element x v = Some v' \<and> vec_is v' (xs @ [x])"
proof -
  define v1 where "v1 = (if \<not> vcap v > vlen v then v_grow_buffer 1 v else v)"
  have v1: "vec_is v1 xs" "length xs + 1 \<le> vcap v1"
    using v_grow_buffer_is [OF assms, of 1] assms(1) vec_isD [OF assms(1)] by (auto simp: v1_def)
  have "v_append_element x v = write_at (length xs) (map Some [x]) (vcells v1)
      \<bind> (\<lambda>b. Some (v_setc (length xs + length [x]) (v1\<lparr>vcells := b\<rparr>)))"
    unfolding v_append_element_def Let_def v1_def [symmetric] by (simp add: vec_isD(1) [OF assms(1)])
  then show ?thesis using append_is [of v1 xs "[x]"] v1 by (auto simp del: v_setc_fits)
qed

lemma v_emplace_at_end_is:
  assumes "vec_is v xs" "length xs + 1 < 2 ^ 64"
  shows "\<exists>v'. v_emplace_at_end x v = Some (length xs, v') \<and> vec_is v' (xs @ [x])"
proof -
  define v1 where "v1 = (if vlen v = vcap v then v_grow_buffer 1 v else v)"
  have v1: "vec_is v1 xs" "length xs + 1 \<le> vcap v1"
    using v_grow_buffer_is [OF assms, of 1] assms(1) vec_isD [OF assms(1)] by (auto simp: v1_def)
  have "v_emplace_at_end x v = write_at (length xs) (map Some [x]) (vcells v1)
      \<bind> (\<lambda>b. Some (length xs, v_advance 1 (v1\<lparr>vcells := b\<rparr>)))"
    unfolding v_emplace_at_end_def Let_def v1_def [symmetric] by (simp add: vec_isD(1) [OF v1(1)])
  moreover have "v_advance 1 (v1\<lparr>vcells := b\<rparr>) = v_setc (length xs + length [x]) (v1\<lparr>vcells := b\<rparr>)"
    if "write_at (length xs) (map Some [x]) (vcells v1) = Some b" for b
    using that v1 vec_isD(1) [OF v1(1)] by (auto simp: v_advance_def valid_end_pos_def vcap_def write_at_def split: if_splits)
  ultimately show ?thesis using append_is [of v1 xs "[x]"] v1 by (auto simp del: v_setc_fits)
qed

lemma v_append_elements_is:
  assumes "vec_is v xs" "length xs + length ys < 2 ^ 64"
  shows "\<exists>v'. v_append_elements ys v = Some v' \<and> vec_is v' (xs @ ys)"
proof (cases "ys = []")
  case False
  define v1 where "v1 = (if length ys > vrem v then v_grow_buffer (length ys - vrem v) v else v)"
  have v1: "vec_is v1 xs" "length xs + length ys \<le> vcap v1"
    using v_grow_buffer_is [OF assms, of "length ys - vrem v"] assms(1) vec_isD [OF assms(1)]
    by (auto simp: v1_def vrem_def)
  have "v_append_elements ys v = write_at (length xs) (map Some ys) (vcells v1)
      \<bind> (\<lambda>b. Some (v_setc (length xs + length ys) (v1\<lparr>vcells := b\<rparr>)))"
    unfolding v_append_elements_def Let_def v1_def [symmetric] using False by (simp add: vec_isD(1) [OF assms(1)])
  then show ?thesis using append_is [of v1 xs ys] v1 by (auto simp del: v_setc_fits)
qed (use assms in \<open>simp add: v_append_elements_def\<close>)

lemma v_assign_elements_is:
  assumes "vec_is v xs" "length ys < 2 ^ 64"
  shows "\<exists>v'. v_assign_elements ys v = Some v' \<and> vec_is v' ys"
proof -
  define v1 where "v1 = (if length ys > vcap v then v_grow_buffer (length ys - vcap v) v else v)"
  have "length ys \<le> vcap v1"
  proof (cases "length ys > vcap v")
    case True
    then have "length xs + (length ys - length xs) < 2 ^ 64" using assms vec_isD(2) [OF assms(1)] by simp
    from v_grow_buffer_is(2) [OF assms(1) this, of "length ys - vcap v"] show ?thesis
      using True vec_isD(2) [OF assms(1)] by (simp add: v1_def)
  qed (simp add: v1_def)
  then show ?thesis
    unfolding v_assign_elements_def Let_def v1_def [symmetric]
    by (auto intro!: vec_isI simp: vcap_def)
qed

lemma v_erase_at_end_is:
  assumes "vec_is v (xs @ ys)"
  shows "\<exists>v'. v_erase_at_end (length ys) v = Some v' \<and> vec_is v' xs"
proof -
  obtain t where t: "vcells v = map Some (xs @ ys) @ t" "vlen v = length (xs @ ys)"
    by (rule vec_is_parts [OF assms])
  show ?thesis
  proof (cases "xs = []")
    case True
    then show ?thesis using t
      by (auto simp: v_erase_at_end_def v_clear_def v_allocate_def intro!: vec_isI)
  next
    case False
    then show ?thesis using t
      by (auto simp: v_erase_at_end_def v_backtrack_def valid_end_pos_def vcap_def intro!: vec_isI)
  qed
qed

lemma v_erase_range_is:
  assumes "vec_is v (xs @ ys @ zs)" "length xs + length ys < vcap v"
  shows "\<exists>r v'. v_erase_range (length xs) (length xs + length ys) v = Some (Some r, v') \<and> vec_is v' (xs @ zs)"
proof -
  obtain t where t: "vcells v = map Some (xs @ ys @ zs) @ t" "vlen v = length (xs @ ys @ zs)"
    by (rule vec_is_parts [OF assms(1)])
  have rng: "\<not> v_out_of_range v (length xs)" "\<not> v_out_of_range v (length xs + length ys)"
    using assms(2) by (simp_all add: v_out_of_range_def)
  show ?thesis
  proof (cases "zs = []")
    case True
    then show ?thesis using v_erase_at_end_is [of v xs ys] assms(1) t(2) rng
      by (auto simp: v_erase_range_def)
  next
    case False
    then show ?thesis using t rng
      by (auto simp: v_erase_range_def Let_def vcap_def intro!: vec_isI)
  qed
qed

lemma v_insert_elements_is:
  assumes "vec_is v (xs @ zs)" "length xs < vcap v" "zs = [] \<or> length xs + length ys + length zs \<le> vcap v"
  shows "\<exists>v'. v_insert_elements (length xs) ys v = Some (Some (length xs), v') \<and> vec_is v' (xs @ ys @ zs)"
proof -
  obtain t where t: "vcells v = map Some (xs @ zs) @ t" "vlen v = length (xs @ zs)"
    by (rule vec_is_parts [OF assms(1)])
  have rng: "\<not> v_out_of_range v (length xs)" using assms(2) by (simp add: v_out_of_range_def)
  show ?thesis
  proof (cases "zs = []")
    case True
    show ?thesis
    proof (cases "length xs + length ys < vcap v")
      case f: True
      then show ?thesis using True t rng
        by (auto simp: v_insert_elements_def Let_def vcap_def intro!: vec_isI)
    next
      case f: False
      then show ?thesis using True t rng
        by (auto simp: v_insert_elements_def Let_def vcap_def intro!: vec_isI)
    qed
  next
    case False
    then have room: "length xs + length ys + length zs \<le> length (vcells v)" "length xs + length ys < length (vcells v)"
      using assms(3) by (cases zs; auto simp: vcap_def)+
    define k where "k = length t - length ys"
    have k: "length t = length ys + k" using room t by (simp add: k_def)
    show ?thesis using False t rng room k
      by (auto simp: v_insert_elements_def Let_def vcap_def v_advance_def valid_end_pos_def intro!: vec_isI)
  qed
qed

lemma v_replace_elements_is:
  assumes "vec_is v (xs @ ys @ zs)"
  shows "\<exists>r v'. v_replace_elements (length xs) (length ys) us v = Some (r, v') \<and> vec_is v' (xs @ us @ zs)"
proof -
  obtain t where t: "vcells v = map Some (xs @ ys @ zs) @ t" "vlen v = length (xs @ ys @ zs)"
    by (rule vec_is_parts [OF assms])
  show ?thesis
  proof (cases "length us = length ys")
    case True
    then show ?thesis using t by (auto simp: v_replace_elements_def intro!: vec_isI)
  next
    case False
    then show ?thesis using t
      by (auto simp: v_replace_elements_def Let_def vcap_def intro!: vec_isI)
  qed
qed

subsection \<open>Sequences of operations\<close>

text \<open>
  The contract of a data structure with an abstract counterpart: an operation allowed in the current
  state succeeds, keeps the invariant and does on the abstract value what the specification says.
\<close>

fun run_ops :: "('op \<Rightarrow> 's \<Rightarrow> 's option) \<Rightarrow> 'op list \<Rightarrow> 's \<Rightarrow> 's option" where
  "run_ops step [] s = Some s"
| "run_ops step (x # xs) s = (case step x s of None \<Rightarrow> None | Some s' \<Rightarrow> run_ops step xs s')"

fun ops_allowed :: "('op \<Rightarrow> 's \<Rightarrow> bool) \<Rightarrow> ('op \<Rightarrow> 's \<Rightarrow> 's option) \<Rightarrow> 'op list \<Rightarrow> 's \<Rightarrow> bool" where
  "ops_allowed ok step [] s \<longleftrightarrow> True"
| "ops_allowed ok step (x # xs) s \<longleftrightarrow> ok x s \<and> (case step x s of None \<Rightarrow> True | Some s' \<Rightarrow> ops_allowed ok step xs s')"

locale data_refinement =
  fixes inv :: "'s \<Rightarrow> bool"
    and abst :: "'s \<Rightarrow> 'a"
    and ok :: "'op \<Rightarrow> 's \<Rightarrow> bool"
    and cstep :: "'op \<Rightarrow> 's \<Rightarrow> 's option"
    and astep :: "'op \<Rightarrow> 'a \<Rightarrow> 'a"
  assumes step_refines: "inv s \<Longrightarrow> ok x s \<Longrightarrow> \<exists>s'. cstep x s = Some s' \<and> inv s' \<and> abst s' = astep x (abst s)"
begin

lemma run_refines:
  "inv s \<Longrightarrow> ops_allowed ok cstep xs s \<Longrightarrow>
   \<exists>s'. run_ops cstep xs s = Some s' \<and> inv s' \<and> abst s' = fold astep xs (abst s)"
proof (induction xs arbitrary: s)
  case (Cons x xs)
  from step_refines [OF Cons.prems(1)] Cons.prems(2)
  obtain s' where s': "cstep x s = Some s'" "inv s'" "abst s' = astep x (abst s)" by auto
  from Cons.IH [OF s'(2)] Cons.prems(2) s' show ?case by auto
qed simp

end

datatype 'a vec_op =
    Push_back 'a | Emplace_back 'a | Pop_back | Insert nat 'a | Erase nat | Append "'a list" | Assign "'a list"
  | Replace nat nat "'a list" | Reserve nat | Shrink_to_fit | Clear

fun vec_step :: "'a vec_op \<Rightarrow> 'a vec \<Rightarrow> 'a vec option" where
  "vec_step (Push_back x) v = vec_push_back x v"
| "vec_step (Emplace_back x) v = vec_emplace_back x v"
| "vec_step Pop_back v = vec_pop_back v"
| "vec_step (Insert p x) v = map_option snd (vec_insert p x v)"
| "vec_step (Erase p) v = map_option snd (vec_erase p v)"
| "vec_step (Append xs) v = v_append_elements xs v"
| "vec_step (Assign xs) v = v_assign_elements xs v"
| "vec_step (Replace p n xs) v = map_option snd (v_replace_elements p n xs v)"
| "vec_step (Reserve n) v = Some (vec_reserve n v)"
| "vec_step Shrink_to_fit v = Some (v_trim_buffer v)"
| "vec_step Clear v = Some (v_clear v)"

fun list_step :: "'a vec_op \<Rightarrow> 'a list \<Rightarrow> 'a list" where
  "list_step (Push_back x) xs = xs @ [x]"
| "list_step (Emplace_back x) xs = xs @ [x]"
| "list_step Pop_back xs = butlast xs"
| "list_step (Insert p x) xs = take p xs @ x # drop p xs"
| "list_step (Erase p) xs = take p xs @ drop (p + 1) xs"
| "list_step (Append ys) xs = xs @ ys"
| "list_step (Assign ys) xs = ys"
| "list_step (Replace p n ys) xs = take p xs @ ys @ drop (p + n) xs"
| "list_step (Reserve n) xs = xs"
| "list_step Shrink_to_fit xs = xs"
| "list_step Clear xs = []"

text \<open>
  When an operation behaves: \<open>insert\<close> needs a free cell, and \<open>erase\<close> needs a cell behind the erased
  element.  The other operations only need positions inside the vector and sizes below \<open>2 ^ 64\<close>.
\<close>

fun vec_op_ok :: "'a vec_op \<Rightarrow> 'a vec \<Rightarrow> bool" where
  "vec_op_ok (Push_back x) v \<longleftrightarrow> vlen v + 1 < 2 ^ 64"
| "vec_op_ok (Emplace_back x) v \<longleftrightarrow> vlen v + 1 < 2 ^ 64"
| "vec_op_ok Pop_back v \<longleftrightarrow> vlen v \<noteq> 0"
| "vec_op_ok (Insert p x) v \<longleftrightarrow> p \<le> vlen v \<and> vlen v < vcap v"
| "vec_op_ok (Erase p) v \<longleftrightarrow> p < vlen v \<and> p + 1 < vcap v"
| "vec_op_ok (Append xs) v \<longleftrightarrow> vlen v + length xs < 2 ^ 64"
| "vec_op_ok (Assign xs) v \<longleftrightarrow> length xs < 2 ^ 64"
| "vec_op_ok (Replace p n xs) v \<longleftrightarrow> p + n \<le> vlen v"
| "vec_op_ok (Reserve n) v \<longleftrightarrow> vlen v < 2 ^ 64"
| "vec_op_ok Shrink_to_fit v \<longleftrightarrow> True"
| "vec_op_ok Clear v \<longleftrightarrow> True"

lemma vec_step_is:
  assumes "vec_is v xs" "vec_op_ok x v"
  shows "\<exists>v'. vec_step x v = Some v' \<and> vec_is v' (list_step x xs)"
proof (cases x)
  case (Push_back y)
  then show ?thesis using assms v_append_element_is [OF assms(1)] by (simp add: vec_push_back_def vec_isD(1))
next
  case (Emplace_back y)
  then obtain v' where "v_emplace_at_end y v = Some (length xs, v')" "vec_is v' (xs @ [y])"
    using v_emplace_at_end_is [OF assms(1), of y] assms by (auto simp: vec_isD(1))
  then show ?thesis using Emplace_back by (simp add: vec_emplace_back_def)
next
  case Pop_back
  then have "xs = butlast xs @ [last xs]" using assms by (simp add: vec_isD(1))
  then show ?thesis using v_erase_at_end_is [of v "butlast xs" "[last xs]"] assms(1) Pop_back
    by (simp add: vec_pop_back_def)
next
  case (Insert p y)
  then have "p \<le> length xs" "length xs < vcap v" using assms by (simp_all add: vec_isD(1))
  then show ?thesis using v_insert_elements_is [of v "take p xs" "drop p xs" "[y]"] assms(1) Insert
    by (auto simp: vec_insert_def or_end_def)
next
  case (Erase p)
  then have p: "p < length xs" "p + 1 < vcap v" using assms by (simp_all add: vec_isD(1))
  then have "xs = take p xs @ [xs ! p] @ drop (p + 1) xs" by (simp add: id_take_nth_drop)
  then show ?thesis using v_erase_range_is [of v "take p xs" "[xs ! p]" "drop (p + 1) xs"] assms(1) Erase p
    by (auto simp: vec_erase_def or_end_def)
next
  case (Append ys)
  then show ?thesis using assms v_append_elements_is [OF assms(1)] by (simp add: vec_isD(1))
next
  case (Assign ys)
  then show ?thesis using assms v_assign_elements_is [OF assms(1)] by simp
next
  case (Replace p n ys)
  then have p: "p + n \<le> length xs" using assms by (simp add: vec_isD(1))
  have "xs = take p xs @ take n (drop p xs) @ drop (p + n) xs" by (simp add: add.commute drop_drop [symmetric] del: drop_drop)
  moreover have "length (take p xs) = p" "length (take n (drop p xs)) = n" using p by simp_all
  ultimately obtain r v' where "v_replace_elements p n ys v = Some (r, v')" "vec_is v' (take p xs @ ys @ drop (p + n) xs)"
    using v_replace_elements_is [of v "take p xs" "take n (drop p xs)" "drop (p + n) xs" ys] assms(1) by metis
  then show ?thesis using Replace by simp
next
  case (Reserve n)
  then show ?thesis using assms v_grow_buffer_is(1) [OF assms(1), of 0 "n - vcap v"]
    by (simp add: vec_reserve_def vec_isD(1))
next
  case Shrink_to_fit
  then show ?thesis using vec_isD [OF assms(1)]
    by (auto simp: v_trim_buffer_def v_resize_def vcap_def intro!: vec_isI)
next
  case Clear
  then show ?thesis by (auto simp: v_clear_def v_allocate_def intro!: vec_isI)
qed

interpretation vr: data_refinement vec_inv vec_list vec_op_ok vec_step list_step
proof
  fix v :: "'c vec" and x
  assume "vec_inv v" "vec_op_ok x v"
  then have "\<exists>v'. vec_step x v = Some v' \<and> vec_is v' (list_step x (vec_list v))"
    by (intro vec_step_is) (simp_all add: vec_is_iff)
  then show "\<exists>v'. vec_step x v = Some v' \<and> vec_inv v' \<and> vec_list v' = list_step x (vec_list v)"
    by (simp add: vec_is_iff)
qed

subsection \<open>Properties\<close>



text \<open>
  Inserting before an element of a full vector writes outside its storage: the test for room compares
  the position, not the size, with the capacity.
\<close>

theorem vector_insert_full_overflows:
  assumes "vec_inv v" "vlen v = vcap v" "p < vlen v"
  shows "vec_insert p x v = None"
proof -
  have "length (vcells v) = vlen v" "\<not> v_out_of_range v p"
    using assms by (simp_all add: vcap_def v_out_of_range_def)
  then show ?thesis using assms(3)
    by (auto simp: vec_insert_def v_insert_elements_def Let_def vcap_def write_at_def min_def bind_eq_None_conv)
qed

theorem vector_insert_full_overflows_witness:
  "vec_insert 0 (9::nat) (v_of_list [1, 2]) = None"
  using vector_insert_full_overflows [of "v_of_list [1, 2::nat]" 0 9]
  by (simp add: v_of_list_def vec_inv_def vcap_def)

text \<open>
  \<open>emplace\<close> at a position inside the storage leaves a vector that reports no elements, and
  \<open>erase\<close> of the last element of a full vector erases nothing.
\<close>

theorem vector_emplace_erase_lose:
  assumes "vec_inv v" "vlen v \<noteq> 0"
  shows "(p < vlen v \<longrightarrow> (\<exists>v'. vec_emplace p x v = Some (p, v') \<and> vec_list v' = []))
     \<and> (vlen v = vcap v \<longrightarrow> vec_erase (vlen v - 1) v = Some (vlen v, v))"
proof (intro conjI impI)
  show "\<exists>v'. vec_emplace p x v = Some (p, v') \<and> vec_list v' = []" if "p < vlen v"
    using assms(1) that
    by (auto simp: vec_emplace_def v_emplace_element_def Let_def vcap_def vec_inv_def vec_list_def write_at_def)
  show "vec_erase (vlen v - 1) v = Some (vlen v, v)" if "vlen v = vcap v"
    using assms(2) that by (simp add: vec_erase_def v_erase_range_def v_out_of_range_def or_end_def)
qed

theorem vector_emplace_erase_lose_witness:
  "(\<exists>v'. vec_emplace 1 (9::nat) (v_of_list [1, 2]) = Some (1, v') \<and> vec_list v' = [])
   \<and> vec_erase 1 (v_of_list [1, 2::nat]) = Some (2, v_of_list [1, 2])"
  using vector_emplace_erase_lose [of "v_of_list [1, 2::nat]" 1 9]
  by (simp add: v_of_list_def vec_inv_def vcap_def)

end
