(* ===== verification/Deferred.thy ===== *)
theory Deferred
  imports Circular_Queue
begin

text \<open>
  The deferred actions of the scheduler: \<open>deferred_action\<close> and \<open>deferred_action_queue\<close> of
  \<open>common/include/kernel/sched/deferred_action.hpp\<close> and \<open>kernel/sched/deferred_action_queue.cpp\<close>.  An
  action is its delay and a callable, given by an identifier or absent when the wrapper is empty; calling
  it means adding its identifier to the list of actions fired.  The effects of the callables themselves
  are outside the model, and the conversion of milliseconds to ticks, which is done in floating point, is
  a parameter.
\<close>

record deferred_action =
  delay_ticks :: nat
  act_fn :: "nat option"

definition new_action :: "nat \<Rightarrow> nat option \<Rightarrow> deferred_action" where
  "new_action delay f = \<lparr>delay_ticks = max delay 1, act_fn = f\<rparr>"

definition is_done :: "deferred_action \<Rightarrow> bool" where
  "is_done a \<longleftrightarrow> delay_ticks a = 0"

text \<open>The call operator: the identifiers fired and the action afterwards.\<close>

definition call_action :: "deferred_action \<Rightarrow> nat list \<times> deferred_action" where
  "call_action a =
     (if delay_ticks a = 0 then ([], a)
      else
        (let a1 = a\<lparr>delay_ticks := delay_ticks a - 1\<rparr> in
         case act_fn a1 of
           None \<Rightarrow> ([], a1)
         | Some f \<Rightarrow> (if delay_ticks a1 = 0 then ([f], a1) else ([], a1))))"

text \<open>
  The loop of \<open>tick\<close> from position \<open>p\<close> to the end the queue had when the loop started.  Every action is
  called; actions at the front that are done are popped until the first one that is not.
\<close>

fun action_loop :: "nat \<Rightarrow> nat \<Rightarrow> nat \<Rightarrow> bool \<Rightarrow> deferred_action circ \<Rightarrow> (nat list \<times> deferred_action circ) option" where
  "action_loop 0 e p pass q = None"
| "action_loop (Suc f) e p pass q =
     (if p = e then Some ([], q)
      else
        (case cells q ! p of
           None \<Rightarrow> None
         | Some a \<Rightarrow>
             (let (fd, a1) = call_action a; q1 = q\<lparr>cells := (cells q)[p := Some a1]\<rparr> in
              if \<not> pass \<and> is_done a1
              then map_option (\<lambda>(fs, q'). (fd @ fs, q')) (action_loop f e (iter_next q1 p) pass (snd (ring_pop q1)))
              else map_option (\<lambda>(fs, q'). (fd @ fs, q')) (action_loop f e (iter_next q1 p) True q1))))"

definition action_tick :: "deferred_action circ \<Rightarrow> (nat list \<times> deferred_action circ) option" where
  "action_tick q = action_loop (Suc (ring_capacity q)) (bpos q) (cpos q) False q"

definition add_action :: "(nat \<Rightarrow> nat) \<Rightarrow> nat \<Rightarrow> nat option \<Rightarrow> deferred_action circ \<Rightarrow> deferred_action circ" where
  "add_action compute_ticks delay_ms f q = snd (ring_emplace (new_action (compute_ticks delay_ms) f) q)"

subsection \<open>One tick on the list of actions\<close>

definition age_action :: "deferred_action \<Rightarrow> deferred_action" where
  "age_action a = a\<lparr>delay_ticks := delay_ticks a - 1\<rparr>"

definition due_now :: "deferred_action \<Rightarrow> nat list" where
  "due_now a = (if delay_ticks a = 1 then (case act_fn a of None \<Rightarrow> [] | Some f \<Rightarrow> [f]) else [])"

definition tick_spec :: "deferred_action list \<Rightarrow> nat list \<times> deferred_action list" where
  "tick_spec as = (concat (map due_now as), dropWhile is_done (map age_action as))"

lemma call_action_eq: "call_action a = (due_now a, age_action a)"
  by (auto simp: call_action_def due_now_def age_action_def Let_def split: option.splits)

text \<open>The positions an iterator passes from \<open>c\<close> to the back \<open>b\<close> of a ring of \<open>n\<close> cells.\<close>

definition live_pos :: "nat \<Rightarrow> nat \<Rightarrow> nat \<Rightarrow> nat list" where
  "live_pos n c b = (if c \<le> b then [c..<b] else [c..<n] @ [0..<b])"

lemma live_cells_pos:
  assumes "cpos q \<le> ring_capacity q" "bpos q \<le> ring_capacity q"
  shows "live_cells q = map ((!) (cells q)) (live_pos (ring_capacity q) (cpos q) (bpos q))"
  using assms
  by (auto simp: live_cells_def live_pos_def ring_capacity_def list_eq_iff_nth_eq nth_append min_def)

lemma live_pos_self [simp]: "live_pos n b b = []"
  by (simp add: live_pos_def)

lemma live_pos_step:
  assumes "c < n" "b < n" "c \<noteq> b"
  shows "live_pos n c b = c # live_pos n (if c + 1 < n then c + 1 else 0) b"
  using assms by (auto simp: live_pos_def upt_conv_Cons not_less)

lemma live_pos_bounds: "c < n \<Longrightarrow> b < n \<Longrightarrow> i \<in> set (live_pos n c b) \<Longrightarrow> i < n \<and> i \<noteq> b"
  by (auto simp: live_pos_def split: if_splits)

lemma live_pos_distinct: "c < n \<Longrightarrow> b < n \<Longrightarrow> distinct (live_pos n c b)"
  by (auto simp: live_pos_def)

lemma nth_update_notin: "p \<notin> S \<Longrightarrow> i \<in> S \<Longrightarrow> xs[p := v] ! i = xs ! i"
  by (metis nth_list_update_neq)

definition age_cells :: "nat list \<Rightarrow> deferred_action option list \<Rightarrow> deferred_action option list" where
  "age_cells ps cs = fold (\<lambda>i cs. cs[i := map_option age_action (cs ! i)]) ps cs"

lemma age_cells_length [simp]: "length (age_cells ps cs) = length cs"
  unfolding age_cells_def by (induction ps arbitrary: cs) simp_all

lemma age_cells_nth:
  "distinct ps \<Longrightarrow> i < length cs \<Longrightarrow> age_cells ps cs ! i = (if i \<in> set ps then map_option age_action (cs ! i) else cs ! i)"
  unfolding age_cells_def by (induction ps arbitrary: cs) (auto simp: nth_list_update nth_update_notin)

lemma age_cells_Cons: "age_cells (p # ps) cs = age_cells ps (cs[p := map_option age_action (cs ! p)])"
  by (simp add: age_cells_def)

definition due_at :: "deferred_action option list \<Rightarrow> nat \<Rightarrow> nat list" where
  "due_at cs i = due_now (the (cs ! i))"

lemma action_loop_passed:
  assumes "length (cells q) = n" "p < n" "b < n" "bpos q = b" "length (live_pos n p b) < f"
    "\<forall>i \<in> set (live_pos n p b). cells q ! i \<noteq> None"
  shows "action_loop f b p True q
    = Some (concat (map (due_at (cells q)) (live_pos n p b)), q\<lparr>cells := age_cells (live_pos n p b) (cells q)\<rparr>)"
  using assms
proof (induction f arbitrary: p q)
  case (Suc f)
  show ?case
  proof (cases "p = b")
    case True then show ?thesis by (simp add: age_cells_def)
  next
    case False
    define p' where "p' = (if p + 1 < n then p + 1 else 0)"
    have st: "live_pos n p b = p # live_pos n p' b" using live_pos_step [of p n b] Suc.prems False by (simp add: p'_def)
    then obtain a where a: "cells q ! p = Some a" using Suc.prems(6) by auto
    let ?q1 = "q\<lparr>cells := (cells q)[p := Some (age_action a)]\<rparr>"
    have p': "p' < n" using Suc.prems(2) by (auto simp: p'_def)
    have nx: "iter_next ?q1 p = p'"
      using Suc.prems False by (auto simp: iter_next_def ring_capacity_def p'_def)
    have np: "p \<notin> set (live_pos n p' b)" using live_pos_distinct [of p n b] Suc.prems st by simp
    have due: "concat (map (due_at ((cells q)[p := Some (age_action a)])) (live_pos n p' b))
        = concat (map (due_at (cells q)) (live_pos n p' b))"
      using np by (intro arg_cong [where f = concat] map_cong refl) (simp add: due_at_def nth_update_notin)
    have "action_loop f b p' True ?q1 = Some (concat (map (due_at (cells ?q1)) (live_pos n p' b)),
        ?q1\<lparr>cells := age_cells (live_pos n p' b) (cells ?q1)\<rparr>)"
      using Suc.prems st np by (intro Suc.IH p') (auto simp: nth_update_notin)
    then show ?thesis
      using False a nx st due by (simp add: call_action_eq age_cells_Cons due_at_def [of _ p])
  qed
qed simp

definition first_left :: "deferred_action option list \<Rightarrow> nat list \<Rightarrow> nat \<Rightarrow> nat" where
  "first_left cs ps b = (case dropWhile (\<lambda>i. is_done (age_action (the (cs ! i)))) ps of [] \<Rightarrow> b | i # _ \<Rightarrow> i)"

lemma action_loop_front:
  assumes "length (cells q) = n" "p < n" "b < n" "bpos q = b" "cpos q = p" "length (live_pos n p b) < f"
    "\<forall>i \<in> set (live_pos n p b). cells q ! i \<noteq> None"
  shows "action_loop f b p False q
    = Some (concat (map (due_at (cells q)) (live_pos n p b)),
        q\<lparr>cells := age_cells (live_pos n p b) (cells q), cpos := first_left (cells q) (live_pos n p b) b\<rparr>)"
  using assms
proof (induction f arbitrary: p q)
  case (Suc f)
  show ?case
  proof (cases "p = b")
    case True then show ?thesis using Suc.prems by (simp add: age_cells_def first_left_def)
  next
    case False
    define p' where "p' = (if p + 1 < n then p + 1 else 0)"
    have st: "live_pos n p b = p # live_pos n p' b" using live_pos_step [of p n b] Suc.prems False by (simp add: p'_def)
    then obtain a where a: "cells q ! p = Some a" using Suc.prems(7) by auto
    let ?q1 = "q\<lparr>cells := (cells q)[p := Some (age_action a)]\<rparr>"
    have p': "p' < n" using Suc.prems(2) by (auto simp: p'_def)
    have nx: "iter_next ?q1 p = p'"
      using Suc.prems False by (auto simp: iter_next_def ring_capacity_def p'_def)
    have np: "p \<notin> set (live_pos n p' b)" using live_pos_distinct [of p n b] Suc.prems st by simp
    have due: "concat (map (due_at ((cells q)[p := Some (age_action a)])) (live_pos n p' b))
        = concat (map (due_at (cells q)) (live_pos n p' b))"
      using np by (intro arg_cong [where f = concat] map_cong refl) (simp add: due_at_def nth_update_notin)
    show ?thesis
    proof (cases "is_done (age_action a)")
      case True
      let ?q2 = "?q1\<lparr>cpos := p'\<rparr>"
      have pop: "snd (ring_pop ?q1) = ?q2"
        using Suc.prems False by (auto simp: ring_pop_def adv_pop_def adv_ptr_def ring_capacity_def p'_def)
      have "action_loop f b p' False ?q2 = Some (concat (map (due_at (cells ?q2)) (live_pos n p' b)),
          ?q2\<lparr>cells := age_cells (live_pos n p' b) (cells ?q2), cpos := first_left (cells ?q2) (live_pos n p' b) b\<rparr>)"
        using Suc.prems st np by (intro Suc.IH p') (auto simp: nth_update_notin)
      moreover have "first_left (cells ?q2) (live_pos n p' b) b = first_left (cells q) (p # live_pos n p' b) b"
      proof -
        have "dropWhile (\<lambda>i. is_done (age_action (the (cells ?q2 ! i)))) (live_pos n p' b)
            = dropWhile (\<lambda>i. is_done (age_action (the (cells q ! i)))) (live_pos n p' b)"
          using np by (intro dropWhile_cong) (auto simp: nth_update_notin)
        then show ?thesis using True a by (simp add: first_left_def)
      qed
      ultimately show ?thesis
        using False a nx st pop True due by (simp add: call_action_eq age_cells_Cons due_at_def [of _ p])
    next
      case nd: False
      have "action_loop f b p' True ?q1 = Some (concat (map (due_at (cells ?q1)) (live_pos n p' b)),
          ?q1\<lparr>cells := age_cells (live_pos n p' b) (cells ?q1)\<rparr>)"
        using Suc.prems st np p' by (intro action_loop_passed) (auto simp: nth_update_notin)
      then show ?thesis
        using False a nx st nd due Suc.prems(5)
        by (simp add: call_action_eq age_cells_Cons due_at_def [of _ p] first_left_def)
    qed
  qed
qed simp

lemma live_pos_suffix:
  assumes "c < n" "b < n" "dropWhile P (live_pos n c b) = i # is"
  shows "live_pos n i b = i # is"
  using assms
proof (induction "live_pos n c b" arbitrary: c)
  case (Cons j js)
  then have "c \<noteq> b" by (auto simp: live_pos_def)
  then have st: "live_pos n c b = c # live_pos n (if c + 1 < n then c + 1 else 0) b" (is "_ = c # live_pos n ?c' b")
    using Cons.prems live_pos_step by blast
  show ?case
  proof (cases "P c")
    case True
    then show ?thesis using Cons st by (auto split: if_splits)
  next
    case False
    then show ?thesis using Cons.prems(3) st by auto
  qed
qed simp

lemma action_tick_lists:
  assumes "ring_inv q"
  shows "\<exists>q'. action_tick q = Some (fst (tick_spec (ring_list q)), q') \<and> ring_inv q'
     \<and> ring_list q' = snd (tick_spec (ring_list q))"
proof (cases "cells q = []")
  case True
  then show ?thesis using assms
    by (simp add: ring_inv_def action_tick_def ring_list_def live_cells_def tick_spec_def)
next
  case False
  define n where "n = length (cells q)"
  define ps where "ps = live_pos n (cpos q) (bpos q)"
  have b: "cpos q < n" "bpos q < n" using assms False by (simp_all add: ring_inv_def ring_capacity_def n_def)
  have lv: "live_cells q = map ((!) (cells q)) ps"
    using live_cells_pos [of q] b by (simp add: ps_def n_def ring_capacity_def)
  have "None \<notin> (!) (cells q) ` set ps" using live_constructed [OF assms] by (simp add: lv)
  then have some: "\<forall>i \<in> set ps. cells q ! i \<noteq> None" by (metis image_eqI)
  have ds: "distinct ps" using live_pos_distinct [OF b] by (simp add: ps_def)
  have lt: "i < n" if "i \<in> set ps" for i using live_pos_bounds [OF b, of i] that by (simp add: ps_def)
  have "set ps \<subseteq> {..<n}" using lt by blast
  then have "length ps \<le> n" using card_mono [of "{..<n}" "set ps"] distinct_card [OF ds] by simp
  then have "length ps < Suc (ring_capacity q)" by (simp add: ring_capacity_def n_def)
  then have t: "action_tick q = Some (concat (map (due_at (cells q)) ps),
      q\<lparr>cells := age_cells ps (cells q), cpos := first_left (cells q) ps (bpos q)\<rparr>)"
    unfolding action_tick_def ps_def using some
    by (intro action_loop_front [OF n_def [symmetric] b refl refl]) (simp_all add: ps_def)
  have l: "ring_list q = map (\<lambda>i. the (cells q ! i)) ps" by (simp add: ring_list_def lv)
  have fired: "concat (map (due_at (cells q)) ps) = fst (tick_spec (ring_list q))"
    by (simp add: l tick_spec_def comp_def due_at_def [abs_def])
  let ?P = "\<lambda>i. is_done (age_action (the (cells q ! i)))"
  let ?q' = "q\<lparr>cells := age_cells ps (cells q), cpos := first_left (cells q) ps (bpos q)\<rparr>"
  have fp: "live_pos n (first_left (cells q) ps (bpos q)) (bpos q) = dropWhile ?P ps"
  proof (cases "dropWhile ?P ps")
    case (Cons i js)
    then show ?thesis using live_pos_suffix [OF b, of ?P i js] by (simp add: first_left_def ps_def)
  next
    case Nil
    show ?thesis unfolding first_left_def Nil by simp
  qed
  have fb: "first_left (cells q) ps (bpos q) < n"
    using b lt set_dropWhileD [of _ ?P ps] by (auto simp: first_left_def split: list.split)
  have "live_cells ?q' = map ((!) (age_cells ps (cells q))) (dropWhile ?P ps)"
    using live_cells_pos [of ?q'] fb b fp by (simp add: ring_capacity_def n_def)
  also have "\<dots> = map (\<lambda>i. map_option age_action (cells q ! i)) (dropWhile ?P ps)"
    using ds lt set_dropWhileD [of _ ?P ps] by (auto simp: age_cells_nth n_def)
  also have "\<dots> = map (\<lambda>i. Some (age_action (the (cells q ! i)))) (dropWhile ?P ps)"
    using some set_dropWhileD [of _ ?P ps] by (intro map_cong refl) fastforce
  finally have lc: "live_cells ?q' = map (\<lambda>i. Some (age_action (the (cells q ! i)))) (dropWhile ?P ps)" .
  have "ring_list ?q' = snd (tick_spec (ring_list q))"
    unfolding ring_list_def lc l [unfolded ring_list_def] tick_spec_def
    by (simp add: dropWhile_map comp_def)
  moreover have "ring_inv ?q'"
    using fb b lc False age_cells_length [of ps "cells q"]
    by (auto simp: ring_inv_def ring_capacity_def n_def simp del: age_cells_length)
  ultimately show ?thesis using t fired by auto
qed

subsection \<open>Property\<close>

text \<open>Ticks of the queue one after the other: the actions fired in each, and the queue left.\<close>

fun run_ticks :: "nat \<Rightarrow> deferred_action circ \<Rightarrow> (nat list list \<times> deferred_action circ) option" where
  "run_ticks 0 q = Some ([], q)"
| "run_ticks (Suc n) q = (case action_tick q of None \<Rightarrow> None
     | Some (fs, q') \<Rightarrow> map_option (\<lambda>(fss, q''). (fs # fss, q'')) (run_ticks n q'))"

definition fired_at :: "nat \<Rightarrow> deferred_action list \<Rightarrow> nat list" where
  "fired_at d as = concat (map (\<lambda>a. if delay_ticks a = d then (case act_fn a of None \<Rightarrow> [] | Some f \<Rightarrow> [f]) else []) as)"

definition aged_by :: "nat \<Rightarrow> deferred_action \<Rightarrow> deferred_action" where
  "aged_by n a = a\<lparr>delay_ticks := delay_ticks a - n\<rparr>"

lemma tick_spec_fires: "fst (tick_spec as) = fired_at 1 as"
  by (simp add: tick_spec_def fired_at_def due_now_def [abs_def])

lemma fired_at_later: "0 < d \<Longrightarrow> fired_at d (snd (tick_spec as)) = fired_at (Suc d) as"
proof -
  assume d: "0 < d"
  have drop: "fired_at d (dropWhile is_done bs) = fired_at d bs" for bs
    using d by (induction bs) (auto simp: fired_at_def is_done_def)
  have "fired_at d (map age_action as) = fired_at (Suc d) as"
    using d by (induction as) (auto simp: fired_at_def age_action_def)
  then show ?thesis by (simp add: tick_spec_def drop)
qed

lemma dropWhile_aged:
  "dropWhile is_done (map (aged_by n) (dropWhile is_done as)) = dropWhile is_done (map (aged_by n) as)"
  by (induction as) (auto simp: is_done_def aged_by_def)

lemma run_ticks_lists:
  assumes "ring_inv q"
  shows "\<exists>q'. run_ticks n q = Some (map (\<lambda>k. fired_at (Suc k) (ring_list q)) [0..<n], q') \<and> ring_inv q'
     \<and> dropWhile is_done (ring_list q') = dropWhile is_done (map (aged_by n) (ring_list q))
     \<and> (0 < n \<longrightarrow> dropWhile is_done (ring_list q') = ring_list q')"
  using assms
proof (induction n arbitrary: q)
  case 0
  have "map (aged_by 0) as = as" for as by (simp add: aged_by_def map_idI)
  then show ?case using 0 by simp
next
  case (Suc n)
  let ?as = "ring_list q"
  from action_tick_lists [OF Suc.prems] obtain q1
    where q1: "action_tick q = Some (fst (tick_spec ?as), q1)" "ring_inv q1" "ring_list q1 = snd (tick_spec ?as)" by blast
  from Suc.IH [OF q1(2)] obtain q2
    where q2: "run_ticks n q1 = Some (map (\<lambda>k. fired_at (Suc k) (ring_list q1)) [0..<n], q2)" "ring_inv q2"
      "dropWhile is_done (ring_list q2) = dropWhile is_done (map (aged_by n) (ring_list q1))"
      "0 < n \<longrightarrow> dropWhile is_done (ring_list q2) = ring_list q2" by blast
  have later: "map (\<lambda>k. fired_at (Suc k) (ring_list q1)) [0..<n] = map (\<lambda>k. fired_at (Suc k) ?as) [1..<Suc n]"
    unfolding q1(3) map_Suc_upt [symmetric] One_nat_def by (simp add: fired_at_later comp_def del: upt_Suc)
  have up: "[0..<Suc n] = 0 # [1..<Suc n]" by (simp add: upt_conv_Cons del: upt_Suc)
  have age: "map (aged_by n) (map age_action ?as) = map (aged_by (Suc n)) ?as"
    by (simp add: aged_by_def age_action_def)
  have left: "dropWhile is_done (ring_list q2) = dropWhile is_done (map (aged_by (Suc n)) ?as)"
    unfolding q2(3) q1(3) tick_spec_def snd_conv dropWhile_aged age ..
  have "dropWhile is_done (ring_list q2) = ring_list q2"
  proof (cases n)
    case 0
    then have "q2 = q1" using q2(1) by simp
    then show ?thesis by (simp add: q1(3) tick_spec_def)
  qed (use q2(4) in simp)
  then show ?case using q1(1) q2(1,2) left up by (simp add: later tick_spec_fires del: upt_Suc)
qed

text \<open>
  C21. Deferred actions fire once and on time: during \<open>n\<close> ticks, tick \<open>k\<close> calls exactly the actions whose
  delay was \<open>k\<close>, in the order they were queued, and what is left are the actions from the first one with a
  delay above \<open>n\<close> on.
\<close>

theorem deferred_actions_on_time:
  assumes "ring_inv q" "0 < n"
  shows "\<exists>q'. run_ticks n q = Some (map (\<lambda>k. fired_at (Suc k) (ring_list q)) [0..<n], q') \<and> ring_inv q'
     \<and> ring_list q' = dropWhile is_done (map (aged_by n) (ring_list q))"
  using run_ticks_lists [OF assms(1), of n] assms(2) by auto

definition two_actions :: "deferred_action circ" where
  "two_actions = add_action id 1 (Some 9) (add_action id 3 (Some 5) (ring_create 4))"

theorem deferred_actions_on_time_witness:
  "ring_inv two_actions
   \<and> (\<exists>q'. run_ticks 3 two_actions = Some ([[9], [], [5]], q') \<and> ring_inv q' \<and> ring_list q' = [])"
proof -
  have i: "ring_inv two_actions" by code_simp
  have l: "ring_list two_actions = [\<lparr>delay_ticks = 3, act_fn = Some 5\<rparr>, \<lparr>delay_ticks = 1, act_fn = Some 9\<rparr>]" by code_simp
  show ?thesis using deferred_actions_on_time [OF i, of 3] i
    by (simp add: l fired_at_def aged_by_def is_done_def eval_nat_numeral)
qed

end
