(* ===== verification/Scheduler.thy ===== *)
theory Scheduler
  imports Dynamic_Queue Vectors Deferred
begin

text \<open>
  The scheduler: \<open>kernel/sched/scheduler.cpp\<close>, \<open>kernel/sched/task_queue.cpp\<close>,
  \<open>kernel/sched/kthread_ptr.cpp\<close> and the state update of \<open>kernel/sched/thread.cpp\<close>.  Tasks and threads are
  stores indexed by their addresses, 0 being the null pointer; a \<open>kthread_ptr\<close> is the pair of pointers the
  code has.  The five priority queues and the queue of timed sleepers are resettable queues, the untimed
  sleepers a vector.  Register images are opaque numbers.  Outside the model and therefore parameters: the
  translation of a user thread pointer, the time stamp counter, the value of memory that was never
  written, and the effects of deferred actions.  Loops that may not end carry fuel and return
  \<open>Not_returned\<close> when it runs out.
\<close>

datatype sched_error = Pop_out_of_range | Bad_access | Use_after_free | Not_returned

subsection \<open>Tasks and threads\<close>

record kthread =
  task_ptr :: nat
  thread_ptr :: nat

abbreviation null_kthread :: kthread where
  "null_kthread \<equiv> \<lparr>task_ptr = 0, thread_ptr = 0\<rparr>"

record task_t =
  t_block :: bool
  can_interrupt :: bool
  vfork_dirty :: bool
  prio_base :: nat
  skips :: nat
  wait_ticks_delta :: nat
  quantum_val :: nat
  quantum_rem :: nat
  run_split :: nat
  run_time :: nat
  task_pid :: nat
  user_frame :: bool
  t_regs :: nat
  t_fxsv :: nat
  cur_thread :: nat
  next_task :: nat

record thread_t =
  th_self :: nat
  park :: bool
  non_timed_park :: bool
  wait_time_delta :: nat
  th_regs :: nat
  th_fxsv :: nat

abbreviation (input) PVLOW :: nat where "PVLOW \<equiv> 0"
abbreviation (input) PVSYS :: nat where "PVSYS \<equiv> 4"

record sched =
  queues :: "kthread dynq list"
  sleepers :: "kthread dynq"
  non_timed_sleepers :: "kthread vec"
  running :: bool
  total_tasks :: nat
  deferred_actions :: "deferred_action circ"
  tasks :: "nat \<Rightarrow> task_t"
  threads :: "nat \<Rightarrow> thread_t"
  task_base :: nat
  swapped_base :: nat
  thread_base :: nat
  task_change_flag :: bool
  task_lock_flag :: bool
  counts_per_irq :: nat
  counts_per_tick :: nat
  counter :: nat
  fired :: "nat list"

definition upd_task :: "nat \<Rightarrow> (task_t \<Rightarrow> task_t) \<Rightarrow> sched \<Rightarrow> sched" where
  "upd_task p f s = s\<lparr>tasks := (tasks s)(p := f (tasks s p))\<rparr>"

definition upd_thread :: "nat \<Rightarrow> (thread_t \<Rightarrow> thread_t) \<Rightarrow> sched \<Rightarrow> sched" where
  "upd_thread p f s = s\<lparr>threads := (threads s)(p := f (threads s p))\<rparr>"

definition set_queue :: "nat \<Rightarrow> kthread dynq \<Rightarrow> sched \<Rightarrow> sched" where
  "set_queue pv q s = s\<lparr>queues := (queues s)[pv := q]\<rparr>"

definition is_interruptible :: "sched \<Rightarrow> kthread \<Rightarrow> bool" where
  "is_interruptible s k =
     (if thread_ptr k \<noteq> 0 \<and> park (threads s (thread_ptr k)) then non_timed_park (threads s (thread_ptr k))
      else if t_block (tasks s (task_ptr k)) then can_interrupt (tasks s (task_ptr k))
      else False)"

definition is_blocking :: "sched \<Rightarrow> kthread \<Rightarrow> bool" where
  "is_blocking s k =
     (if thread_ptr k \<noteq> 0 then park (threads s (thread_ptr k)) else t_block (tasks s (task_ptr k)))"

definition add_wait_ticks :: "nat \<Rightarrow> kthread \<Rightarrow> sched \<Rightarrow> sched" where
  "add_wait_ticks n k s =
     (if thread_ptr k \<noteq> 0
      then upd_thread (thread_ptr k) (\<lambda>t. t\<lparr>wait_time_delta := u64_add (wait_time_delta t) n\<rparr>) s
      else upd_task (task_ptr k) (\<lambda>t. t\<lparr>wait_ticks_delta := u64_add (wait_ticks_delta t) n\<rparr>) s)"

definition wait_tick :: "kthread \<Rightarrow> sched \<Rightarrow> sched" where
  "wait_tick k s =
     (if thread_ptr k \<noteq> 0
      then upd_thread (thread_ptr k) (\<lambda>t. t\<lparr>wait_time_delta := u64_sub (wait_time_delta t) 1\<rparr>) s
      else upd_task (task_ptr k) (\<lambda>t. t\<lparr>wait_ticks_delta := u64_sub (wait_ticks_delta t) 1\<rparr>) s)"

definition get_wait_delta :: "sched \<Rightarrow> kthread \<Rightarrow> nat" where
  "get_wait_delta s k =
     (if thread_ptr k \<noteq> 0 then wait_time_delta (threads s (thread_ptr k)) else wait_ticks_delta (tasks s (task_ptr k)))"

definition activate :: "kthread \<Rightarrow> sched \<Rightarrow> sched" where
  "activate k s =
     (if \<not> vfork_dirty (tasks s (task_ptr k))
      then (let th = threads s (thread_ptr k)
            in upd_task (task_ptr k) (\<lambda>t. t\<lparr>t_regs := th_regs th, t_fxsv := th_fxsv th, cur_thread := th_self th\<rparr>) s)
      else s)"

definition put_thread_base :: "kthread \<Rightarrow> sched \<Rightarrow> sched" where
  "put_thread_base k s = s\<lparr>thread_base := th_self (threads s (thread_ptr k))\<rparr>"

definition set_blocking :: "bool \<Rightarrow> kthread \<Rightarrow> sched \<Rightarrow> sched" where
  "set_blocking ci k s =
     (if thread_ptr k \<noteq> 0 then upd_thread (thread_ptr k) (\<lambda>t. t\<lparr>park := True, non_timed_park := ci\<rparr>) s
      else upd_task (task_ptr k) (\<lambda>t. t\<lparr>t_block := True, can_interrupt := ci\<rparr>) s)"

definition clear_blocking :: "kthread \<Rightarrow> sched \<Rightarrow> sched" where
  "clear_blocking k s =
     (let s1 = upd_task (task_ptr k) (\<lambda>t. t\<lparr>t_block := False, wait_ticks_delta := 0, can_interrupt := False\<rparr>) s
      in if thread_ptr k \<noteq> 0
         then upd_thread (thread_ptr k) (\<lambda>t. t\<lparr>park := False, wait_time_delta := 0, non_timed_park := False\<rparr>) s1
         else s1)"

definition set_wait_delta :: "nat \<Rightarrow> kthread \<Rightarrow> sched \<Rightarrow> sched" where
  "set_wait_delta n k s =
     (if thread_ptr k \<noteq> 0
      then upd_thread (thread_ptr k) (\<lambda>t. t\<lparr>wait_time_delta := n, non_timed_park := False\<rparr>) s
      else upd_task (task_ptr k) (\<lambda>t. t\<lparr>wait_ticks_delta := n\<rparr>) s)"

text \<open>\<open>write_task_base\<close> writes the base register that is not active, between two \<open>swapgs\<close>.\<close>

definition write_task_base :: "nat \<Rightarrow> sched \<Rightarrow> sched" where
  "write_task_base tk s = s\<lparr>swapped_base := tk\<rparr>"

text \<open>\<open>update_thread_state\<close>; the spin lock around the two assignments is free on a single processor.\<close>

definition update_thread_state :: "nat \<Rightarrow> nat \<Rightarrow> sched \<Rightarrow> sched" where
  "update_thread_state th tk s =
     (if \<not> vfork_dirty (tasks s tk)
      then upd_thread th (\<lambda>t. t\<lparr>th_regs := t_regs (tasks s tk), th_fxsv := t_fxsv (tasks s tk)\<rparr>) s
      else s)"

definition kthread_of :: "(nat \<Rightarrow> nat \<Rightarrow> nat) \<Rightarrow> sched \<Rightarrow> nat \<Rightarrow> kthread" where
  "kthread_of translate s tk =
     (if user_frame (tasks s tk) then \<lparr>task_ptr = tk, thread_ptr = translate tk (cur_thread (tasks s tk))\<rparr>
      else \<lparr>task_ptr = tk, thread_ptr = cur_thread (tasks s tk)\<rparr>)"

subsection \<open>Priority queues\<close>

definition on_skipped :: "nat \<Rightarrow> sched \<Rightarrow> sched" where
  "on_skipped pv s =
     (let q = queues s ! pv in
      if \<not> q_empty q \<and> \<not> q_at_end q then
        (case q_next q of
           Some k \<Rightarrow> upd_task (task_ptr k) (\<lambda>t. t\<lparr>skips := (skips t + 1) mod 128\<rparr>) s
         | None \<Rightarrow> s)
      else s)"

definition skips_threshold :: nat where
  "skips_threshold = 5"

definition skip_flag :: "nat \<Rightarrow> sched \<Rightarrow> bool" where
  "skip_flag pv s =
     (let q = queues s ! pv in
      \<not> q_empty q \<and> \<not> q_at_end q
      \<and> (case q_next q of Some k \<Rightarrow> skips (tasks s (task_ptr k)) > skips_threshold | None \<Rightarrow> False))"

text \<open>
  \<open>transfer\<close> of the next element of a queue to the back of the same queue.  When the buffer has to grow,
  the element is copied from the buffer just released.
\<close>

definition self_transfer :: "kthread dynq \<Rightarrow> sched_error + kthread dynq" where
  "self_transfer q =
     (if qcapacity q < dend q + 1 then Inl Use_after_free
      else
        (case q_next q of
           Some k \<Rightarrow> (let q1 = push_elements [k] q in Inr (snd (erase_elements (dnext q1) 1 q1)))
         | None \<Rightarrow> Inl Bad_access))"

definition transfer_next :: "nat \<Rightarrow> nat \<Rightarrow> sched \<Rightarrow> sched_error + sched" where
  "transfer_next pv to s =
     (let q = queues s ! pv in
      if q_empty q \<or> q_at_end q then Inr s
      else if pv = to then map_sum id (\<lambda>q'. set_queue pv q' s) (self_transfer q)
      else (case q_transfer 1 q (queues s ! to) of (r, q', d') \<Rightarrow> Inr (set_queue to d' (set_queue pv q' s))))"

text \<open>
  The loop of \<open>select_next\<close> over one queue: pop, rewinding at the end, until an element is ready or the
  position is the one the loop started from.
\<close>

fun select_spin :: "nat \<Rightarrow> (kthread \<Rightarrow> bool) \<Rightarrow> nat \<Rightarrow> kthread dynq \<Rightarrow> sched_error + kthread \<times> kthread dynq" where
  "select_spin 0 blocked i q = Inl Not_returned"
| "select_spin (Suc f) blocked i q =
     (let q1 = (if q_at_end q then q_restart q else q) in
      case q_pop q1 of
        (None, q2) \<Rightarrow> Inl Pop_out_of_range
      | (Some r, q2) \<Rightarrow> (if blocked r \<and> i \<noteq> dnext q2 then select_spin f blocked i q2 else Inr (r, q2)))"

text \<open>
  The aging loop: for every level below the selected one it looks at the queue of the selected level, and
  moves the next element of that queue to the level above the one the loop is at.
\<close>

fun age_levels :: "nat \<Rightarrow> nat list \<Rightarrow> sched \<Rightarrow> sched_error + sched" where
  "age_levels pv [] s = Inr s"
| "age_levels pv (qv # qvs) s =
     (let s1 = on_skipped pv s in
      if skip_flag pv s1 then
        (case transfer_next pv (qv + 1) s1 of
           Inl e \<Rightarrow> Inl e
         | Inr s2 \<Rightarrow>
             (case q_back (queues s2 ! (qv + 1)) of
                Some b \<Rightarrow> age_levels pv qvs (upd_task (task_ptr b) (\<lambda>t. t\<lparr>skips := 0\<rparr>) s2)
              | None \<Rightarrow> Inl Bad_access))
      else age_levels pv qvs s1)"

definition demote :: "nat \<Rightarrow> kthread \<Rightarrow> sched \<Rightarrow> sched_error + sched" where
  "demote pv r s =
     (if prio_base (tasks s (task_ptr r)) \<noteq> pv \<and> pv \<noteq> PVSYS
      then (if pv = 0 then Inl Bad_access
            else transfer_next pv (pv - 1) (set_queue pv (q_unpop (queues s ! pv)) s))
      else Inr s)"

definition take_task :: "nat \<Rightarrow> kthread \<Rightarrow> sched \<Rightarrow> sched_error + kthread \<times> sched" where
  "take_task pv r s =
     (case demote pv r (upd_task (task_ptr r) (\<lambda>t. t\<lparr>skips := 0\<rparr>) s) of
        Inl e \<Rightarrow> Inl e
      | Inr s1 \<Rightarrow> map_sum id (Pair r) (age_levels pv (rev [0..<pv]) s1))"

fun select_levels :: "nat \<Rightarrow> nat list \<Rightarrow> sched \<Rightarrow> sched_error + kthread \<times> sched" where
  "select_levels fuel [] s = Inr (null_kthread, s)"
| "select_levels fuel (pv # pvs) s =
     (let q = queues s ! pv in
      if q_empty q then select_levels fuel pvs s
      else
        (case select_spin fuel (is_blocking s) (dnext q) q of
           Inl e \<Rightarrow> Inl e
         | Inr (r, q1) \<Rightarrow>
             (let s1 = set_queue pv q1 s in
              if is_blocking s r then select_levels fuel pvs s1 else take_task pv r s1)))"

definition select_next :: "nat \<Rightarrow> sched \<Rightarrow> sched_error + kthread \<times> sched" where
  "select_next fuel s =
     (if total_tasks s = 0 then Inr (null_kthread, s) else select_levels fuel (rev [0..<5]) s)"

subsection \<open>Registration\<close>

definition register_task :: "kthread \<Rightarrow> sched \<Rightarrow> sched" where
  "register_task k s =
     (let pv = prio_base (tasks s (task_ptr k))
      in (set_queue pv (q_push k (queues s ! pv)) s)\<lparr>total_tasks := total_tasks s + 1\<rparr>)"

fun erase_from_levels :: "(kthread \<Rightarrow> bool) \<Rightarrow> nat list \<Rightarrow> sched \<Rightarrow> nat \<times> sched" where
  "erase_from_levels P [] s = (0, s)"
| "erase_from_levels P (pv # pvs) s =
     (case q_find P True (queues s ! pv) of
        None \<Rightarrow> erase_from_levels P pvs s
      | Some i \<Rightarrow>
          (let (n, q') = erase_one i (queues s ! pv);
               (m, s') = erase_from_levels P pvs (set_queue pv q' s)
           in ((if n \<noteq> 0 then 1 else 0) + m, s')))"

definition unregister_all :: "nat \<Rightarrow> sched \<Rightarrow> bool \<times> sched" where
  "unregister_all tk s =
     (let (result, s1) = erase_from_levels (\<lambda>k. task_ptr k = tk) [prio_base (tasks s tk)..<5] s
      in (result \<noteq> 0,
          if total_tasks s1 \<noteq> 0 \<and> result \<le> total_tasks s1 then s1\<lparr>total_tasks := total_tasks s1 - result\<rparr> else s1))"

fun erase_first_level :: "kthread \<Rightarrow> nat list \<Rightarrow> sched \<Rightarrow> bool \<times> sched" where
  "erase_first_level k [] s = (False, s)"
| "erase_first_level k (pv # pvs) s =
     (case q_find (\<lambda>x. x = k) True (queues s ! pv) of
        None \<Rightarrow> erase_first_level k pvs s
      | Some i \<Rightarrow> (case erase_one i (queues s ! pv) of (n, q') \<Rightarrow> (n \<noteq> 0, set_queue pv q' s)))"

definition unregister_task :: "kthread \<Rightarrow> sched \<Rightarrow> bool \<times> sched" where
  "unregister_task k s =
     (let (result, s1) = erase_first_level k [prio_base (tasks s (task_ptr k))..<5] s
      in (result, if total_tasks s1 \<noteq> 0 \<and> result then s1\<lparr>total_tasks := total_tasks s1 - 1\<rparr> else s1))"

fun set_main_thread_levels :: "nat \<Rightarrow> nat \<Rightarrow> nat list \<Rightarrow> sched \<Rightarrow> sched" where
  "set_main_thread_levels tk th [] s = s"
| "set_main_thread_levels tk th (pv # pvs) s =
     (let q = queues s ! pv in
      case q_find (\<lambda>x. x = \<lparr>task_ptr = tk, thread_ptr = 0\<rparr>) False q of
        None \<Rightarrow> set_main_thread_levels tk th pvs s
      | Some i \<Rightarrow> set_main_thread_levels tk th pvs
          (set_queue pv (q\<lparr>dbuf := (dbuf q)[i := Some \<lparr>task_ptr = tk, thread_ptr = th\<rparr>]\<rparr>) s))"

definition set_main_thread :: "nat \<Rightarrow> nat \<Rightarrow> sched \<Rightarrow> sched" where
  "set_main_thread tk th s = set_main_thread_levels tk th [prio_base (tasks s tk)..<5] s"

subsection \<open>Waiting\<close>

text \<open>The elements from the next one to the end; \<open>None\<close> when the position is behind the end.\<close>

definition sleeper_cells :: "kthread dynq \<Rightarrow> kthread option list option" where
  "sleeper_cells q = (if dnext q \<le> dend q then Some (take (dend q - dnext q) (drop (dnext q) (dbuf q))) else None)"

fun sum_waits :: "sched \<Rightarrow> kthread option list \<Rightarrow> nat \<Rightarrow> nat" where
  "sum_waits s [] acc = acc"
| "sum_waits s (c # cs) acc = sum_waits s cs (case c of Some k \<Rightarrow> u64_add acc (get_wait_delta s k) | None \<Rightarrow> acc)"

definition cumulative_remaining_ticks :: "sched \<Rightarrow> nat option" where
  "cumulative_remaining_ticks s = map_option (\<lambda>cs. sum_waits s cs 0) (sleeper_cells (sleepers s))"

definition next_remaining_wait_ticks :: "sched \<Rightarrow> nat" where
  "next_remaining_wait_ticks s =
     (let q = sleepers s in
      if \<not> q_empty q \<and> \<not> q_at_end q then (case q_next q of Some k \<Rightarrow> get_wait_delta s k | None \<Rightarrow> 0) else 0)"

text \<open>The first sleeper that wakes after the given time, and the ticks that pass before its own wait.\<close>

fun wait_position :: "sched \<Rightarrow> nat \<Rightarrow> kthread option list \<Rightarrow> nat \<Rightarrow> nat \<Rightarrow> (nat \<times> nat) option" where
  "wait_position s time [] i cum = None"
| "wait_position s time (c # cs) i cum =
     (case c of
        None \<Rightarrow> wait_position s time cs (i + 1) cum
      | Some k \<Rightarrow>
          (let cwait = get_wait_delta s k in
           if u64_add cwait cum > time then Some (i, cum) else wait_position s time cs (i + 1) (u64_add cum cwait)))"

definition set_wait_time :: "kthread \<Rightarrow> nat \<Rightarrow> bool \<Rightarrow> sched \<Rightarrow> sched_error + bool \<times> sched" where
  "set_wait_time k time ci s0 =
     (let s = set_blocking ci k s0 in
      case sleeper_cells (sleepers s) of
        None \<Rightarrow> Inl Bad_access
      | Some cs \<Rightarrow>
          (let total_ticks = sum_waits s cs 0;
               push_back = (let s1 = set_wait_delta (u64_sub time total_ticks) k s
                            in (True, s1\<lparr>sleepers := q_push k (sleepers s1)\<rparr>))
           in if time < total_ticks then
                (case wait_position s time cs (dnext (sleepers s)) 0 of
                   Some (i, cum) \<Rightarrow>
                     (let s1 = set_wait_delta (u64_sub time cum) k s;
                          (res, q') = q_insert i k (sleepers s1)
                      in Inr (case res of Some p \<Rightarrow> p \<noteq> dend q' | None \<Rightarrow> False, s1\<lparr>sleepers := q'\<rparr>))
                 | None \<Rightarrow> Inr push_back)
              else Inr push_back))"

definition set_untimed_wait :: "kthread \<Rightarrow> sched \<Rightarrow> (bool \<times> sched) option" where
  "set_untimed_wait k s =
     map_option (\<lambda>v. (True, set_blocking True k (s\<lparr>non_timed_sleepers := v\<rparr>))) (vec_push_back k (non_timed_sleepers s))"

definition set_wait_untimed :: "kthread \<Rightarrow> sched \<Rightarrow> (bool \<times> sched) option" where
  "set_wait_untimed k s = (if \<not> is_blocking s k then set_untimed_wait k s else Some (False, s))"

definition set_wait_timed :: "(nat \<Rightarrow> nat) \<Rightarrow> kthread \<Rightarrow> nat \<Rightarrow> bool \<Rightarrow> sched \<Rightarrow> sched_error + bool \<times> sched" where
  "set_wait_timed compute_ticks k time ci s =
     (if \<not> is_blocking s k then set_wait_time k (compute_ticks time) ci s else Inr (False, s))"

text \<open>\<open>task_wait_queue::interrupt_wait\<close> on the sleeper at an offset.\<close>

definition interrupt_sleeper :: "nat \<Rightarrow> sched \<Rightarrow> bool \<times> sched" where
  "interrupt_sleeper p s =
     (let q = sleepers s in
      case (if p < dend q then dbuf q ! p else None) of
        None \<Rightarrow> (False, s)
      | Some k \<Rightarrow>
          (if \<not> is_interruptible s k then (False, s)
           else
             (let s1 = (if p + 1 < dend q
                        then (case dbuf q ! (p + 1) of Some k' \<Rightarrow> add_wait_ticks (get_wait_delta s k) k' s | None \<Rightarrow> s)
                        else s);
                  s2 = clear_blocking k s1;
                  (n, q') = erase_one p q
              in (n \<noteq> 0, s2\<lparr>sleepers := q'\<rparr>))))"

definition interrupt_wait :: "kthread \<Rightarrow> sched \<Rightarrow> (bool \<times> sched) option" where
  "interrupt_wait k s =
     (case q_find (\<lambda>x. x = k) False (sleepers s) of
        Some i \<Rightarrow> Some (interrupt_sleeper i s)
      | None \<Rightarrow>
          (let j = vec_find k (non_timed_sleepers s) in
           if j \<noteq> vlen (non_timed_sleepers s)
           then map_option (\<lambda>(i, v). (True, (clear_blocking k s)\<lparr>non_timed_sleepers := v\<rparr>)) (vec_erase j (non_timed_sleepers s))
           else Some (False, s)))"

text \<open>
  \<open>interrupt_wait\<close> for all threads of a task.  Erasing a timed sleeper replaces the buffer the loop
  iterates over; erasing the last untimed sleeper leaves the iterator behind the end.
\<close>

fun interrupt_timed :: "nat \<Rightarrow> nat list \<Rightarrow> sched \<Rightarrow> sched_error + bool \<times> sched" where
  "interrupt_timed tk [] s = Inr (False, s)"
| "interrupt_timed tk (p # ps) s =
     (case dbuf (sleepers s) ! p of
        None \<Rightarrow> Inl Bad_access
      | Some k \<Rightarrow>
          (if task_ptr k \<noteq> tk then interrupt_timed tk ps s
           else
             (case interrupt_sleeper p s of
                (True, s1) \<Rightarrow> Inl Use_after_free
              | (False, s1) \<Rightarrow> map_sum id (\<lambda>(r, s2). (True, s2)) (interrupt_timed tk ps s1))))"

fun interrupt_untimed :: "nat \<Rightarrow> nat \<Rightarrow> nat \<Rightarrow> sched \<Rightarrow> sched_error + bool \<times> sched" where
  "interrupt_untimed 0 tk j s = Inl Not_returned"
| "interrupt_untimed (Suc f) tk j s =
     (let v = non_timed_sleepers s in
      if j = vlen v then Inr (False, s)
      else if j > vlen v then Inl Bad_access
      else
        (case vcells v ! j of
           None \<Rightarrow> Inl Bad_access
         | Some k \<Rightarrow>
             (if task_ptr k \<noteq> tk then interrupt_untimed f tk (j + 1) s
              else
                (case vec_erase j v of
                   None \<Rightarrow> Inl Bad_access
                 | Some (i, v') \<Rightarrow> map_sum id (\<lambda>(r, s2). (True, s2))
                     (interrupt_untimed f tk (j + 1) ((clear_blocking k s)\<lparr>non_timed_sleepers := v'\<rparr>))))))"

definition interrupt_wait_task :: "nat \<Rightarrow> sched \<Rightarrow> sched_error + bool \<times> sched" where
  "interrupt_wait_task tk s =
     (case interrupt_timed tk [0..<dend (sleepers s)] s of
        Inl e \<Rightarrow> Inl e
      | Inr (r1, s1) \<Rightarrow> map_sum id (\<lambda>(r2, s2). (r1 \<or> r2, s2))
          (interrupt_untimed (Suc (vlen (non_timed_sleepers s1))) tk 0 s1))"

definition tick_wait :: "sched \<Rightarrow> sched" where
  "tick_wait s =
     (let q = sleepers s in
      if q_empty q \<or> q_at_end q then s
      else (case q_next q of Some k \<Rightarrow> wait_tick k s | None \<Rightarrow> s))"

subsection \<open>Ticks\<close>

text \<open>
  The waking loop of \<open>on_tick\<close>.  The variable \<open>front_sleeper\<close> is a reference to the cell the position
  was at before the loop; assigning to it overwrites that cell.  Behind the last sleeper the loop reads
  memory that was never written, here \<open>junk\<close>.
\<close>

definition next_or :: "kthread \<Rightarrow> kthread dynq \<Rightarrow> kthread" where
  "next_or junk q = (case q_next q of Some k \<Rightarrow> k | None \<Rightarrow> junk)"

fun wake_loop :: "nat \<Rightarrow> kthread \<Rightarrow> nat \<Rightarrow> kthread \<Rightarrow> sched \<Rightarrow> sched_error + sched" where
  "wake_loop 0 junk slot front s = Inl Not_returned"
| "wake_loop (Suc f) junk slot front s =
     (if task_ptr front \<noteq> 0 \<and> get_wait_delta s front = 0 then
        (case q_pop (sleepers s) of
           (None, q1) \<Rightarrow> Inl Pop_out_of_range
         | (Some wakee, q1) \<Rightarrow>
             (let s1 = clear_blocking wakee (s\<lparr>sleepers := q1\<rparr>);
                  front1 = next_or junk q1
              in wake_loop f junk slot front1
                   (s1\<lparr>sleepers := q1\<lparr>dbuf := (dbuf q1)[slot := Some front1]\<rparr>\<rparr>)))
      else Inr s)"

definition wake_sleepers :: "kthread \<Rightarrow> sched \<Rightarrow> sched_error + sched" where
  "wake_sleepers junk s0 =
     (let s = tick_wait s0; q = sleepers s in
      if \<not> q_at_end q then wake_loop (Suc (Suc (dend q - dnext q))) junk (dnext q) (next_or junk q) s
      else Inr s)"

definition do_task_change :: "nat \<Rightarrow> kthread \<Rightarrow> kthread \<Rightarrow> sched \<Rightarrow> sched" where
  "do_task_change ts cur nxt s =
     (if cur = nxt then s
      else
        (let s1 = upd_task (task_ptr nxt) (\<lambda>t. t\<lparr>quantum_rem := quantum_val t\<rparr>) s;
             s2 = upd_task (task_ptr cur) (\<lambda>t. t\<lparr>next_task := task_ptr nxt\<rparr>) s1;
             s3 = (if thread_ptr cur \<noteq> 0 then update_thread_state (thread_ptr cur) (task_ptr cur) s2 else s2);
             s4 = (if thread_ptr nxt \<noteq> 0 then activate nxt s3 else s3);
             s5 = s4\<lparr>task_change_flag := True\<rparr>;
             s6 = upd_task (task_ptr nxt) (\<lambda>t. t\<lparr>run_split := ts\<rparr>) s5
         in upd_task (task_ptr cur) (\<lambda>t. t\<lparr>run_time := u64_add (run_time t) (u64_sub ts (run_split t))\<rparr>) s6))"

definition tick_deferred :: "sched \<Rightarrow> sched option" where
  "tick_deferred s =
     (if ring_length (deferred_actions s) \<noteq> 0
      then map_option (\<lambda>(fs, q). s\<lparr>deferred_actions := q, fired := fired s @ fs\<rparr>) (action_tick (deferred_actions s))
      else Some s)"

text \<open>The end of the time slice of the running task.\<close>

definition tick_quantum :: "nat \<Rightarrow> (nat \<Rightarrow> nat \<Rightarrow> nat) \<Rightarrow> nat \<Rightarrow> sched \<Rightarrow> sched_error + sched" where
  "tick_quantum fuel translate ts s =
     (let cptr = task_base s;
          cur = kthread_of translate s cptr;
          s1 = (if quantum_rem (tasks s cptr) \<noteq> 0 then upd_task cptr (\<lambda>t. t\<lparr>quantum_rem := quantum_rem t - 1\<rparr>) s else s)
      in if quantum_rem (tasks s1 cptr) = 0 \<or> is_blocking s1 cur then
           (case select_next fuel s1 of
              Inl e \<Rightarrow> Inl e
            | Inr (nxt, s2) \<Rightarrow>
                Inr (if task_ptr nxt \<noteq> 0 then do_task_change ts cur nxt s2
                     else upd_task cptr (\<lambda>t. t\<lparr>quantum_rem := quantum_val t\<rparr>) s2))
         else Inr s1)"

definition on_tick :: "nat \<Rightarrow> (nat \<Rightarrow> nat \<Rightarrow> nat) \<Rightarrow> kthread \<Rightarrow> nat \<Rightarrow> sched \<Rightarrow> sched_error + sched" where
  "on_tick fuel translate junk ts s0 =
     (case tick_deferred s0 of
        None \<Rightarrow> Inl Bad_access
      | Some s \<Rightarrow>
          (if total_tasks s = 0 then Inr s
           else if task_lock_flag s then Inr s
           else
             (case wake_sleepers junk s of
                Inl e \<Rightarrow> Inl e
              | Inr s1 \<Rightarrow> tick_quantum fuel translate ts s1)))"

text \<open>\<open>scheduler_times\<close>: the timer interrupt is divided down to scheduler ticks; the counters have 32 bits.\<close>

definition times_init :: "nat \<Rightarrow> nat \<Rightarrow> sched \<Rightarrow> sched" where
  "times_init freq15 freq16 s =
     (let f = (if freq15 \<noteq> 0 then freq15 else freq16) in s\<lparr>counts_per_tick := f, counts_per_irq := magnitude f\<rparr>)"

definition times_tick :: "sched \<Rightarrow> (bool \<times> sched) option" where
  "times_tick s =
     (let c = (counter s + counts_per_irq s) mod 2 ^ 32 in
      if counts_per_tick s = 0 then None
      else Some (c \<ge> counts_per_tick s, s\<lparr>counter := c mod counts_per_tick s\<rparr>))"

definition timer_irq :: "nat \<Rightarrow> (nat \<Rightarrow> nat \<Rightarrow> nat) \<Rightarrow> kthread \<Rightarrow> nat \<Rightarrow> sched \<Rightarrow> sched_error + sched" where
  "timer_irq fuel translate junk ts s =
     (if running s then
        (case times_tick s of
           None \<Rightarrow> Inl Bad_access
         | Some (t, s1) \<Rightarrow> if t then on_tick fuel translate junk ts s1 else Inr s1)
      else Inr s)"

definition q_reserve :: "nat \<Rightarrow> 'a dynq \<Rightarrow> 'a dynq" where
  "q_reserve n q = (if qcapacity q < n then q_grow_buffer (n - qcapacity q) q else q)"

definition sched_init :: "nat \<Rightarrow> nat \<Rightarrow> sched \<Rightarrow> sched" where
  "sched_init freq15 freq16 s =
     (let s1 = s\<lparr>sleepers := q_reserve 16 (sleepers s), non_timed_sleepers := vec_reserve 16 (non_timed_sleepers s),
                 queues := map (q_reserve 16) (queues s),
                 deferred_actions := create_if_empty 4 (deferred_actions s), task_change_flag := False\<rparr>
      in (times_init freq15 freq16 s1)\<lparr>total_tasks := 0\<rparr>)"

subsection \<open>Yielding\<close>

definition yield :: "nat \<Rightarrow> (nat \<Rightarrow> nat \<Rightarrow> nat) \<Rightarrow> sched \<Rightarrow> sched_error + kthread \<times> sched" where
  "yield fuel translate s =
     (let cptr = next_task (tasks s (task_base s));
          cur = kthread_of translate s cptr;
          s1 = upd_task cptr (\<lambda>t. t\<lparr>quantum_rem := 0\<rparr>) s;
          s2 = (if thread_ptr cur \<noteq> 0 then update_thread_state (thread_ptr cur) cptr s1 else s1)
      in case select_next fuel s2 of
           Inl e \<Rightarrow> Inl e
         | Inr (nxt0, s3) \<Rightarrow>
             (let nxt = (if task_ptr nxt0 = 0 then cur else nxt0);
                  s4 = (if task_ptr nxt0 = 0 then s3
                        else
                          (let t1 = (if task_ptr nxt \<noteq> cptr then write_task_base (task_ptr nxt) s3 else s3);
                               t2 = (if thread_ptr nxt \<noteq> 0 then activate nxt t1 else t1)
                           in if thread_ptr cur \<noteq> thread_ptr nxt then put_thread_base nxt t2 else t2))
              in Inr (nxt, upd_task (task_ptr nxt) (\<lambda>t. t\<lparr>quantum_rem := quantum_val t\<rparr>) s4)))"

definition fallthrough_yield :: "nat \<Rightarrow> sched \<Rightarrow> sched_error + kthread \<times> sched" where
  "fallthrough_yield fuel s =
     (if total_tasks s = 0 then Inr (null_kthread, s)
      else
        (case select_next fuel s of
           Inl e \<Rightarrow> Inl e
         | Inr (nxt, s1) \<Rightarrow>
             (let s2 = (if task_ptr nxt \<noteq> 0 then upd_task (task_ptr nxt) (\<lambda>t. t\<lparr>quantum_rem := quantum_val t\<rparr>) s1 else s1)
              in Inr (nxt, if task_ptr nxt \<noteq> 0 \<and> thread_ptr nxt \<noteq> 0 then activate nxt s2 else s2))))"

definition remove_worker_task ::
    "nat \<Rightarrow> (nat \<Rightarrow> nat \<Rightarrow> nat) \<Rightarrow> nat \<Rightarrow> nat \<Rightarrow> kthread \<Rightarrow> sched \<Rightarrow> sched_error + sched" where
  "remove_worker_task fuel translate ts kproc w s =
     (let cptr = task_base s; cur = kthread_of translate s cptr in
      case (if cptr = task_ptr w
            then (case fallthrough_yield fuel s of
                    Inl e \<Rightarrow> Inl e
                  | Inr (nxt, s1) \<Rightarrow> Inr (if task_ptr nxt \<noteq> 0 \<and> task_ptr nxt \<noteq> cptr then do_task_change ts cur nxt s1 else s1))
            else Inr s) of
        Inl e \<Rightarrow> Inl e
      | Inr s2 \<Rightarrow>
          (let s3 = snd (unregister_all (task_ptr w) s2)
           in Inr (if total_tasks s3 = 0 then s3\<lparr>task_base := kproc\<rparr> else s3)))"

definition active_pid :: "sched \<Rightarrow> nat" where
  "active_pid s =
     (let cptr = task_base s;
          c = (if next_task (tasks s cptr) \<noteq> 0 \<and> task_lock_flag s then next_task (tasks s cptr) else cptr)
      in task_pid (tasks s c))"

end
