(* ===== verification/Scheduling.thy ===== *)
theory Scheduling
  imports Scheduler
begin

text \<open>
  Properties of the scheduler: which task is selected and when the search does not end, and when the
  sleepers wake.
\<close>

subsection \<open>The search in one queue\<close>

text \<open>The search only moves the read position, so its states are the positions of one queue.\<close>

lemma nonempty_queue:
  assumes "dynq_inv q" "\<not> q_empty q"
  shows "0 < dend q" "dend q \<le> qcapacity q" "length (q_all q) = dend q"
    "k < dend q \<Longrightarrow> dbuf q ! k = Some (q_all q ! k)"
proof -
  show n: "0 < dend q" using assms by (simp add: q_empty_def qsize_def)
  show le: "dend q \<le> qcapacity q" using assms by (simp add: dynq_inv_def)
  show "length (q_all q) = dend q" using assms by (simp add: q_all_length)
  show "dbuf q ! k = Some (q_all q ! k)" if "k < dend q"
  proof -
    have "take (dend q) (dbuf q) ! k \<in> set (take (dend q) (dbuf q))"
      using that le by (intro nth_mem) (simp add: qcapacity_def)
    then have "dbuf q ! k \<noteq> None" using that assms(1) by (metis dynq_inv_def nth_take)
    then show ?thesis using that le by (simp add: q_all_def qcapacity_def)
  qed
qed

lemma select_spin_step:
  assumes "dynq_inv q" "\<not> q_empty q" "j \<le> dend q" and j': "j' = (if j = dend q then 0 else j)"
  shows "select_spin (Suc f) bl i (q\<lparr>dnext := j\<rparr>)
    = (if bl (q_all q ! j') \<and> i \<noteq> j' + 1 then select_spin f bl i (q\<lparr>dnext := j' + 1\<rparr>)
       else Inr (q_all q ! j', q\<lparr>dnext := j' + 1\<rparr>))"
proof -
  note n = nonempty_queue [OF assms(1,2)]
  have "j' < dend q" using assms(3) n(1) by (simp add: j')
  moreover have "(if q_at_end (q\<lparr>dnext := j\<rparr>) then q_restart (q\<lparr>dnext := j\<rparr>) else q\<lparr>dnext := j\<rparr>) = q\<lparr>dnext := j'\<rparr>"
    using assms(3) n(1,2)
    by (auto simp: j' q_at_end_def qrem_def ptr_diff_def q_restart_def q_out_of_range_def qcapacity_def)
  ultimately show ?thesis using n(4) by (simp add: q_pop_def)
qed

declare select_spin.simps(2) [simp del]

lemma select_spin_wrapped:
  assumes "dynq_inv q" "\<not> q_empty q" "i \<le> dend q" "j < i" "i - j \<le> f"
    "find (\<lambda>k. \<not> bl k) (take (i - j) (drop j (q_all q))) = Some r"
  shows "\<exists>m < dend q. select_spin f bl i (q\<lparr>dnext := j\<rparr>) = Inr (r, q\<lparr>dnext := m + 1\<rparr>) \<and> q_all q ! m = r"
  using assms(4-6)
proof (induction f arbitrary: j)
  case (Suc f)
  have lt: "j < dend q" "j \<noteq> dend q" using Suc.prems(1) assms(3) by simp_all
  have hd: "take (i - j) (drop j (q_all q)) = q_all q ! j # take (i - Suc j) (drop (Suc j) (q_all q))"
    using lt Suc.prems(1) nonempty_queue(3) [OF assms(1,2)]
    by (simp add: Cons_nth_drop_Suc [symmetric] Suc_diff_Suc [symmetric])
  note st = select_spin_step [OF assms(1,2) less_imp_le [OF lt(1)] refl, of f bl i, simplified lt(2) if_False]
  show ?case
  proof (cases "bl (q_all q ! j)")
    case True
    then have fd: "find (\<lambda>k. \<not> bl k) (take (i - Suc j) (drop (Suc j) (q_all q))) = Some r"
      using Suc.prems(3) hd by simp
    then have "i \<noteq> Suc j" by auto
    then show ?thesis using Suc.IH [of "Suc j"] Suc.prems fd True by (simp add: st)
  next
    case False
    then show ?thesis using Suc.prems(3) hd lt by (auto simp: st)
  qed
qed simp

lemma select_spin_ready:
  assumes "dynq_inv q" "\<not> q_empty q" "i \<le> j" "j \<le> dend q" "dend q - j + i < f"
    "find (\<lambda>k. \<not> bl k) (drop j (q_all q) @ take i (q_all q)) = Some r"
  shows "\<exists>m < dend q. select_spin f bl i (q\<lparr>dnext := j\<rparr>) = Inr (r, q\<lparr>dnext := m + 1\<rparr>) \<and> q_all q ! m = r"
  using assms(3-6)
proof (induction f arbitrary: j)
  case (Suc f)
  note n = nonempty_queue [OF assms(1,2)]
  show ?case
  proof (cases "j = dend q")
    case True
    then have fd: "find (\<lambda>k. \<not> bl k) (take i (q_all q)) = Some r" using Suc.prems(4) n(3) by simp
    then have i: "0 < i" by (cases i) auto
    have "select_spin (Suc f) bl i (q\<lparr>dnext := j\<rparr>) = select_spin (Suc f) bl i (q\<lparr>dnext := 0\<rparr>)"
      using select_spin_step [OF assms(1,2) Suc.prems(2) refl, of f bl i] n(1) True
        select_spin_step [OF assms(1,2) le0 refl, of f bl i] by simp
    then show ?thesis
      using select_spin_wrapped [OF assms(1,2), of i 0 "Suc f" bl r] fd i Suc.prems True by simp
  next
    case False
    then have lt: "j < dend q" using Suc.prems(2) by simp
    have hd: "drop j (q_all q) = q_all q ! j # drop (Suc j) (q_all q)"
      using lt n(3) by (simp add: Cons_nth_drop_Suc)
    note st = select_spin_step [OF assms(1,2) Suc.prems(2) refl, of f bl i, simplified False if_False]
    show ?thesis
    proof (cases "bl (q_all q ! j)")
      case True
      have "i \<noteq> j + 1" using Suc.prems(1) by simp
      then show ?thesis using Suc.IH [of "Suc j"] Suc.prems lt True hd by (simp add: st)
    next
      case False
      then show ?thesis using Suc.prems(4) hd lt by (auto simp: st)
    qed
  qed
qed simp

text \<open>When every task is blocked, the search goes round and comes back to where it started.\<close>

lemma select_spin_blocked_wrapped:
  assumes "dynq_inv q" "\<not> q_empty q" "\<forall>k \<in> set (q_all q). bl k" "i \<le> dend q" "j < i" "i - j \<le> f"
  shows "select_spin f bl i (q\<lparr>dnext := j\<rparr>) = Inr (q_all q ! (i - 1), q\<lparr>dnext := i\<rparr>)"
  using assms(5,6)
proof (induction f arbitrary: j)
  case (Suc f)
  have lt: "j < dend q" "j \<noteq> dend q" using Suc.prems(1) assms(4) by simp_all
  have b: "bl (q_all q ! j)" using assms(3) lt nonempty_queue(3) [OF assms(1,2)] by simp
  show ?case
    using select_spin_step [OF assms(1,2) less_imp_le [OF lt(1)] refl, of f bl i] lt(2) b Suc
    by (cases "i = Suc j") auto
qed simp

lemma select_spin_blocked:
  assumes "dynq_inv q" "\<not> q_empty q" "\<forall>k \<in> set (q_all q). bl k" "0 < i" "i \<le> j" "j \<le> dend q" "dend q - j + i < f"
  shows "select_spin f bl i (q\<lparr>dnext := j\<rparr>) = Inr (q_all q ! (i - 1), q\<lparr>dnext := i\<rparr>)"
  using assms(5-7)
proof (induction f arbitrary: j)
  case (Suc f)
  note n = nonempty_queue [OF assms(1,2)]
  show ?case
  proof (cases "j = dend q")
    case True
    have "select_spin (Suc f) bl i (q\<lparr>dnext := j\<rparr>) = select_spin (Suc f) bl i (q\<lparr>dnext := 0\<rparr>)"
      using select_spin_step [OF assms(1,2) Suc.prems(2) refl, of f bl i] n(1) True
        select_spin_step [OF assms(1,2) le0 refl, of f bl i] by simp
    then show ?thesis
      using select_spin_blocked_wrapped [OF assms(1-3), of i 0 "Suc f"] assms(4) Suc.prems True by simp
  next
    case False
    then have lt: "j < dend q" using Suc.prems(2) by simp
    have b: "bl (q_all q ! j)" using assms(3) lt n(3) by simp
    then show ?thesis
      using select_spin_step [OF assms(1,2) Suc.prems(2) refl, of f bl i] False Suc lt by auto
  qed
qed simp

text \<open>Started at the first element it never stops.\<close>

lemma select_spin_forever:
  assumes "dynq_inv q" "\<not> q_empty q" "\<forall>k \<in> set (q_all q). bl k" "j \<le> dend q"
  shows "select_spin f bl 0 (q\<lparr>dnext := j\<rparr>) = Inl Not_returned"
  using assms(4)
proof (induction f arbitrary: j)
  case (Suc f)
  note n = nonempty_queue [OF assms(1,2)]
  show ?case
    using select_spin_step [OF assms(1,2) Suc.prems refl, of f bl 0] Suc n(1,3) assms(3) by auto
qed simp

subsection \<open>Selecting a task\<close>

definition idle_level :: "sched \<Rightarrow> kthread dynq \<Rightarrow> bool" where
  "idle_level s q \<longleftrightarrow> q_empty q \<or> (dynq_inv q \<and> stale_part q \<noteq> [] \<and> (\<forall>k \<in> set (q_all q). is_blocking s k))"

lemma stale_length: "dynq_inv q \<Longrightarrow> length (stale_part q) = dnext q"
  by (simp add: dynq_inv_def stale_part_def qcapacity_def)

lemma select_levels_idle:
  assumes "\<forall>lv \<in> set pvs. idle_level s (queues s ! lv) \<and> dend (queues s ! lv) < fuel"
  shows "select_levels fuel (pvs @ rest) s = select_levels fuel rest s"
  using assms
proof (induction pvs)
  case (Cons lv pvs)
  let ?q = "queues s ! lv"
  show ?case
  proof (cases "q_empty ?q")
    case False
    then have q: "dynq_inv ?q" "stale_part ?q \<noteq> []" "\<forall>k \<in> set (q_all ?q). is_blocking s k"
      using Cons.prems by (auto simp: idle_level_def)
    have i: "0 < dnext ?q" using q(2) by (simp add: stale_length [OF q(1), symmetric])
    have le: "dnext ?q \<le> dend ?q" using q(1) by (simp add: dynq_inv_def)
    have "select_spin fuel (is_blocking s) (dnext ?q) (?q\<lparr>dnext := dnext ?q\<rparr>) = Inr (q_all ?q ! (dnext ?q - 1), ?q\<lparr>dnext := dnext ?q\<rparr>)"
      using select_spin_blocked [OF q(1) False q(3) i order_refl le, of fuel] Cons.prems le by simp
    moreover have "q_all ?q ! (dnext ?q - 1) \<in> set (q_all ?q)"
      using i le nonempty_queue(3) [OF q(1) False] by simp
    ultimately show ?thesis
      using Cons False q(3) by (simp add: set_queue_def)
  qed (use Cons in simp)
qed simp

text \<open>No task of the queue is near the threshold of skips, and all of them are at their own level.\<close>

definition calm_level :: "sched \<Rightarrow> nat \<Rightarrow> bool" where
  "calm_level s pv \<longleftrightarrow> (\<forall>k \<in> set (q_all (queues s ! pv)). skips (tasks s (task_ptr k)) + pv \<le> skips_threshold
     \<and> (prio_base (tasks s (task_ptr k)) = pv \<or> pv = PVSYS))"

lemma next_in_queue:
  assumes "dynq_inv q" "\<not> q_at_end q" "q_next q = Some k"
  shows "k \<in> set (q_all q)"
proof -
  have lt: "dnext q < dend q" using assms(1,2) by (auto simp: dynq_inv_def q_at_end_def qrem_def ptr_diff_def)
  then have ne: "\<not> q_empty q" by (simp add: q_empty_def qsize_def)
  note n = nonempty_queue [OF assms(1) ne]
  show ?thesis using assms(3) lt n by (auto simp: q_next_def split: if_splits)
qed

lemma age_levels_calm:
  assumes "dynq_inv (queues s ! pv)"
    "\<forall>k \<in> set (q_all (queues s ! pv)). skips (tasks s (task_ptr k)) + length qvs \<le> skips_threshold"
  shows "\<exists>T. age_levels pv qvs s = Inr (s\<lparr>tasks := T\<rparr>) \<and> (\<forall>p. \<exists>n. T p = (tasks s p)\<lparr>skips := n\<rparr>)"
  using assms
proof (induction qvs arbitrary: s)
  case Nil
  have "\<exists>n. tasks s p = (tasks s p)\<lparr>skips := n\<rparr>" for p by (rule exI [of _ "skips (tasks s p)"]) simp
  then show ?case by (intro exI [of _ "tasks s"]) simp
next
  case (Cons qv qvs)
  let ?q = "queues s ! pv"
  define s1 where "s1 = on_skipped pv s"
  have s1: "\<exists>T. s1 = s\<lparr>tasks := T\<rparr> \<and> (\<forall>p. \<exists>n. T p = (tasks s p)\<lparr>skips := n\<rparr>)
      \<and> (\<forall>p. skips (T p) \<le> skips (tasks s p) + 1)"
  proof (cases "\<not> q_empty ?q \<and> \<not> q_at_end ?q \<and> (\<exists>k. q_next ?q = Some k)")
    case True
    then obtain k where k: "q_next ?q = Some k" by blast
    let ?T = "(tasks s)(task_ptr k := (tasks s (task_ptr k))\<lparr>skips := (skips (tasks s (task_ptr k)) + 1) mod 128\<rparr>)"
    have "s1 = s\<lparr>tasks := ?T\<rparr>" using True k by (simp add: s1_def on_skipped_def upd_task_def)
    moreover have "\<exists>n. ?T p = (tasks s p)\<lparr>skips := n\<rparr>" for p
      by (cases "p = task_ptr k") (auto intro: exI [of _ "skips (tasks s p)"])
    moreover have "skips (?T p) \<le> skips (tasks s p) + 1" for p by simp
    ultimately show ?thesis by blast
  next
    case False
    then have "s1 = s\<lparr>tasks := tasks s\<rparr>" by (auto simp: s1_def on_skipped_def Let_def split: option.splits)
    moreover have "\<exists>n. tasks s p = (tasks s p)\<lparr>skips := n\<rparr>" for p by (rule exI [of _ "skips (tasks s p)"]) simp
    ultimately show ?thesis by (intro exI [of _ "tasks s"]) simp
  qed
  then obtain T where T: "s1 = s\<lparr>tasks := T\<rparr>" "\<forall>p. \<exists>n. T p = (tasks s p)\<lparr>skips := n\<rparr>"
      "\<forall>p. skips (T p) \<le> skips (tasks s p) + 1" by blast
  have le: "skips (T (task_ptr k)) + length qvs \<le> skips_threshold" if "k \<in> set (q_all ?q)" for k
  proof -
    have "skips (T (task_ptr k)) \<le> skips (tasks s (task_ptr k)) + 1" using T(3) by blast
    moreover have "skips (tasks s (task_ptr k)) + Suc (length qvs) \<le> skips_threshold" using Cons.prems(2) that by simp
    ultimately show ?thesis by linarith
  qed
  have nf: "\<not> skip_flag pv s1"
  proof
    assume "skip_flag pv s1"
    then obtain k where "\<not> q_at_end ?q" "q_next ?q = Some k" "skips (T (task_ptr k)) > skips_threshold"
      by (auto simp: skip_flag_def T(1) Let_def split: option.splits)
    then show False using le next_in_queue [OF Cons.prems(1)] by fastforce
  qed
  obtain T' where T': "age_levels pv qvs s1 = Inr (s1\<lparr>tasks := T'\<rparr>)" "\<forall>p. \<exists>n. T' p = (T p)\<lparr>skips := n\<rparr>"
    using Cons.IH [of s1] Cons.prems(1) le by (auto simp: T(1))
  have "\<exists>n. T' p = (tasks s p)\<lparr>skips := n\<rparr>" for p
  proof -
    obtain n m where "T' p = (T p)\<lparr>skips := n\<rparr>" "T p = (tasks s p)\<lparr>skips := m\<rparr>" using T(2) T'(2) by blast
    then have "T' p = (tasks s p)\<lparr>skips := n\<rparr>" by simp
    then show ?thesis by blast
  qed
  then show ?case using T'(1) nf by (auto simp: s1_def [symmetric] Let_def T(1))
qed

lemma levels_split: "pv < 5 \<Longrightarrow> rev [0..<5] = rev [pv + 1..<5] @ pv # rev [0..<pv]"
proof -
  assume "pv < 5"
  then have "[0..<5] = [0..<pv] @ pv # [pv + 1..<5]"
    using upt_add_eq_append [of 0 pv "5 - pv"] by (simp add: upt_conv_Cons)
  then show ?thesis by simp
qed

lemma live_stale_rotate:
  assumes "dynq_inv q"
  shows "live_part q @ stale_part q = drop (dnext q) (q_all q) @ take (dnext q) (q_all q)"
  using q_all_parts [OF assms] stale_length [OF assms] by simp

definition enough_fuel :: "nat \<Rightarrow> sched \<Rightarrow> bool" where
  "enough_fuel fuel s \<longleftrightarrow> (\<forall>lv < 5. dend (queues s ! lv) < fuel)"

lemma take_task_calm:
  assumes "dynq_inv (queues s ! pv)" "calm_level s pv" "r \<in> set (q_all (queues s ! pv))"
  shows "\<exists>s'. take_task pv r s = Inr (r, s') \<and> queues s' = queues s"
proof -
  let ?s1 = "upd_task (task_ptr r) (\<lambda>t. t\<lparr>skips := 0\<rparr>) s"
  have q: "queues ?s1 = queues s" by (simp add: upd_task_def)
  have "demote pv r ?s1 = Inr ?s1"
    using assms(2,3) by (auto simp: demote_def upd_task_def calm_level_def)
  moreover have "\<exists>T. age_levels pv (rev [0..<pv]) ?s1 = Inr (?s1\<lparr>tasks := T\<rparr>)
      \<and> (\<forall>p. \<exists>n. T p = (tasks ?s1 p)\<lparr>skips := n\<rparr>)"
    using assms(1,2) by (intro age_levels_calm) (auto simp: q upd_task_def calm_level_def skips_threshold_def)
  ultimately show ?thesis using q by (auto simp: take_task_def)
qed

lemma select_next_level:
  assumes "total_tasks s \<noteq> 0" "pv < 5" "\<forall>lv. pv < lv \<and> lv < 5 \<longrightarrow> idle_level s (queues s ! lv)" "enough_fuel fuel s"
  shows "select_next fuel s = select_levels fuel (pv # rev [0..<pv]) s"
proof -
  have "\<forall>lv \<in> set (rev [pv + 1..<5]). idle_level s (queues s ! lv) \<and> dend (queues s ! lv) < fuel"
    using assms(3,4) by (auto simp: enough_fuel_def)
  from select_levels_idle [OF this, of "pv # rev [0..<pv]"] show ?thesis
    unfolding select_next_def levels_split [OF assms(2)] using assms(1) by simp
qed

definition base_task :: task_t where
  "base_task = \<lparr>t_block = False, can_interrupt = False, vfork_dirty = False, prio_base = 1, skips = 0, wait_ticks_delta = 0,
     quantum_val = 3, quantum_rem = 3, run_split = 0, run_time = 0, task_pid = 1, user_frame = False, t_regs = 0, t_fxsv = 0,
     cur_thread = 0, next_task = 0\<rparr>"

definition base_thread :: thread_t where
  "base_thread = \<lparr>th_self = 0, park = False, non_timed_park = False, wait_time_delta = 0, th_regs = 0, th_fxsv = 0\<rparr>"

definition base_sched :: "(nat \<Rightarrow> task_t) \<Rightarrow> sched" where
  "base_sched ts = \<lparr>queues = replicate 5 (new_queue False), sleepers = new_queue True, non_timed_sleepers = new_vec,
     running = True, total_tasks = 0, deferred_actions = ring_create 4, tasks = ts, threads = \<lambda>_. base_thread,
     task_base = 1, swapped_base = 1, thread_base = 0, task_change_flag = False, task_lock_flag = False,
     counts_per_irq = 1, counts_per_tick = 1, counter = 0, fired = []\<rparr>"

text \<open>Two tasks of normal priority, the first of them blocked.\<close>

definition two_tasks :: sched where
  "two_tasks = register_task \<lparr>task_ptr = 2, thread_ptr = 0\<rparr> (register_task \<lparr>task_ptr = 1, thread_ptr = 0\<rparr>
     (base_sched (\<lambda>p. if p = 1 then base_task\<lparr>t_block := True\<rparr> else base_task)))"



text \<open>One blocked task of normal priority that the search has not been started on.\<close>

definition one_blocked :: sched where
  "one_blocked = register_task \<lparr>task_ptr = 1, thread_ptr = 0\<rparr> (base_sched (\<lambda>p. base_task\<lparr>t_block := True\<rparr>))"

text \<open>
  The search hangs: when the highest level that is not idle holds only blocked tasks and its read
  position is at the first one, no number of iterations ends the loop of \<open>select_next\<close>, because after a pop
  the position is never again the one it started from.
\<close>

theorem select_next_hangs:
  assumes "total_tasks s \<noteq> 0" "pv < 5" "dynq_inv (queues s ! pv)"
    "\<forall>lv. pv < lv \<and> lv < 5 \<longrightarrow> idle_level s (queues s ! lv)" "enough_fuel fuel s"
    "\<not> q_empty (queues s ! pv)" "stale_part (queues s ! pv) = []" "\<forall>k \<in> set (q_all (queues s ! pv)). is_blocking s k"
  shows "select_next fuel s = Inl Not_returned"
proof -
  let ?q = "queues s ! pv"
  have z: "dnext ?q = 0" using assms(7) stale_length [OF assms(3)] by simp
  have "select_spin fuel (is_blocking s) 0 (?q\<lparr>dnext := dnext ?q\<rparr>) = Inl Not_returned"
    by (rule select_spin_forever [OF assms(3,6,8)]) (simp add: z)
  then have "select_spin fuel (is_blocking s) 0 ?q = Inl Not_returned" by simp
  then show ?thesis using select_next_level [OF assms(1,2,4,5)] assms(6) z by simp
qed

theorem select_next_hangs_witness: "select_next (2 ^ 32) one_blocked = Inl Not_returned"
proof -
  let ?q = "queues one_blocked ! 1"
  have q: "?q = \<lparr>dbuf = [Some \<lparr>task_ptr = 1, thread_ptr = 0\<rparr>], dnext = 0, dend = 1,
      op_cnt = 1, stale_op_thresh = 3, stale_size_thresh = 16, enable_trim = False\<rparr>"
    by code_simp
  have o: "queues one_blocked = (replicate 5 (new_queue False))[1 := ?q]" by code_simp
  have t: "total_tasks one_blocked \<noteq> 0" by code_simp
  have parts: "dynq_inv ?q" "stale_part ?q = []" "\<not> q_empty ?q"
    unfolding q by (simp_all add: dynq_inv_def qcapacity_def q_empty_def qsize_def stale_part_def)
  have idle: "\<forall>lv. 1 < lv \<and> lv < 5 \<longrightarrow> idle_level one_blocked (queues one_blocked ! lv)"
    by (subst o) (simp add: idle_level_def q_empty_def qsize_def new_queue_def)
  have fuel: "enough_fuel (2 ^ 32) one_blocked" unfolding enough_fuel_def
    by (subst o) (auto simp: q [simplified] new_queue_def nth_list_update)
  have bl: "\<forall>k \<in> set (q_all ?q). is_blocking one_blocked k" unfolding q_all_def by code_simp
  show ?thesis using select_next_hangs [OF t _ parts(1) idle fuel parts(3,2) bl] by simp
qed

subsection \<open>Sleepers\<close>

text \<open>Two sleepers share neither the task nor the thread.\<close>

definition apart :: "kthread \<Rightarrow> kthread \<Rightarrow> bool" where
  "apart k k' \<longleftrightarrow> task_ptr k \<noteq> task_ptr k' \<and> (thread_ptr k \<noteq> thread_ptr k' \<or> thread_ptr k = 0)"

fun separate :: "kthread list \<Rightarrow> bool" where
  "separate [] \<longleftrightarrow> True"
| "separate (k # ks) \<longleftrightarrow> task_ptr k \<noteq> 0 \<and> (\<forall>k' \<in> set ks. apart k k') \<and> separate ks"

named_theorems sleep_simps \<open>what the operations on one sleeper do to itself and to others\<close>

lemma waking_self [sleep_simps]: "\<not> is_blocking (clear_blocking k s) k"
  by (simp add: is_blocking_def clear_blocking_def upd_task_def upd_thread_def Let_def)

lemma waking_others [sleep_simps]:
  "apart k k' \<Longrightarrow> is_blocking (clear_blocking k s) k' = is_blocking s k'"
  "apart k k' \<Longrightarrow> get_wait_delta (clear_blocking k s) k' = get_wait_delta s k'"
  by (auto simp: apart_def is_blocking_def get_wait_delta_def clear_blocking_def upd_task_def upd_thread_def Let_def)

lemma waking_monotone: "is_blocking (clear_blocking k s) k' \<Longrightarrow> is_blocking s k'"
  by (auto simp: is_blocking_def clear_blocking_def upd_task_def upd_thread_def Let_def split: if_splits)

lemma ticking_self [sleep_simps]: "get_wait_delta (wait_tick k s) k = u64_sub (get_wait_delta s k) 1"
  by (simp add: get_wait_delta_def wait_tick_def upd_task_def upd_thread_def)

lemma ticking_others [sleep_simps]:
  "is_blocking (wait_tick k s) k' = is_blocking s k'"
  "apart k k' \<Longrightarrow> get_wait_delta (wait_tick k s) k' = get_wait_delta s k'"
  by (auto simp: apart_def is_blocking_def get_wait_delta_def wait_tick_def upd_task_def upd_thread_def)

lemma sleepers_unused [sleep_simps]:
  "is_blocking (s\<lparr>sleepers := q\<rparr>) k = is_blocking s k"
  "get_wait_delta (s\<lparr>sleepers := q\<rparr>) k = get_wait_delta s k"
  "sleepers (clear_blocking k s) = sleepers s" "sleepers (wait_tick k s) = sleepers s"
  "sleepers (set_blocking ci k s) = sleepers s" "sleepers (set_wait_delta n k s) = sleepers s"
  by (simp_all add: is_blocking_def get_wait_delta_def clear_blocking_def wait_tick_def set_blocking_def
      set_wait_delta_def upd_task_def upd_thread_def Let_def)

definition tail_clear :: "'a dynq \<Rightarrow> bool" where
  "tail_clear q \<longleftrightarrow> (\<forall>c \<in> set (drop (dend q) (dbuf q)). c = None)"

lemma next_or_is:
  assumes "queue_is q st lv" "tail_clear q"
  shows "next_or junk q = (case lv of [] \<Rightarrow> junk | k # _ \<Rightarrow> k)"
proof (cases lv)
  case Nil
  have "dbuf q ! dnext q = None" if "dnext q < qcapacity q"
  proof -
    have "drop (dend q) (dbuf q) ! 0 \<in> set (drop (dend q) (dbuf q))"
      using that queue_isD [OF assms(1)] Nil by (intro nth_mem) (simp add: qcapacity_def)
    then show ?thesis using assms(2) that queue_isD [OF assms(1)] Nil
      by (simp add: tail_clear_def qcapacity_def)
  qed
  then show ?thesis by (simp add: Nil next_or_def q_next_def)
next
  case (Cons k lv')
  have "q_pop q = (Some k, snd (q_pop q))" using q_pop_is(1) [of q st k lv'] assms(1) Cons by simp
  then have "dbuf q ! dnext q = Some k" "dnext q < dend q" by (auto simp: q_pop_def split: if_splits)
  then show ?thesis using queue_isD(4) [OF assms(1)] Cons by (simp add: next_or_def q_next_def)
qed

lemma slot_write_is:
  assumes "queue_is q st lv" "slot < length st" "tail_clear q"
  shows "queue_is (q\<lparr>dbuf := (dbuf q)[slot := Some x]\<rparr>) (st[slot := x]) lv"
    "tail_clear (q\<lparr>dbuf := (dbuf q)[slot := Some x]\<rparr>)"
proof -
  note d = queue_isD [OF assms(1)]
  show "queue_is (q\<lparr>dbuf := (dbuf q)[slot := Some x]\<rparr>) (st[slot := x]) lv"
    by (rule queue_isI) (use d assms(2) in \<open>simp_all add: take_update_swap qcapacity_def map_update list_update_append\<close>)
  show "tail_clear (q\<lparr>dbuf := (dbuf q)[slot := Some x]\<rparr>)"
    using assms(2,3) d by (simp add: tail_clear_def)
qed

text \<open>The waking loop: it wakes the sleepers with nothing left to wait, and touches no other.\<close>

lemma wake_loop_is:
  assumes "queue_is (sleepers s) st lv" "tail_clear (sleepers s)" "separate lv" "slot \<le> length st" "length lv < f"
    "task_ptr junk = 0"
  shows "\<exists>s' st'. wake_loop f junk slot (case lv of [] \<Rightarrow> junk | k # _ \<Rightarrow> k) s = Inr s'
     \<and> queue_is (sleepers s') st' (dropWhile (\<lambda>k. get_wait_delta s k = 0) lv) \<and> tail_clear (sleepers s')
     \<and> (\<forall>k \<in> set (dropWhile (\<lambda>k. get_wait_delta s k = 0) lv).
          is_blocking s' k = is_blocking s k \<and> get_wait_delta s' k = get_wait_delta s k)
     \<and> (\<forall>k \<in> set (takeWhile (\<lambda>k. get_wait_delta s k = 0) lv). \<not> is_blocking s' k)
     \<and> (\<forall>k. is_blocking s' k \<longrightarrow> is_blocking s k)"
  using assms(1-5)
proof (induction lv arbitrary: s st f)
  case Nil
  then obtain f' where "f = Suc f'" by (cases f) auto
  then show ?case using Nil assms(6) by auto
next
  case (Cons k lv)
  obtain f' where f: "f = Suc f'" using Cons.prems(5) by (cases f) auto
  show ?case
  proof (cases "get_wait_delta s k = 0")
    case False
    then show ?thesis using Cons.prems f by auto
  next
    case True
    let ?q1 = "snd (q_pop (sleepers s))"
    note p = q_pop_is [OF Cons.prems(1)]
    have tc: "tail_clear ?q1" using Cons.prems(2) by (simp add: q_pop_def tail_clear_def)
    let ?front = "case lv of [] \<Rightarrow> junk | k # _ \<Rightarrow> k"
    have fr: "next_or junk ?q1 = ?front" using next_or_is [OF p(2) tc] .
    define q2 where "q2 = ?q1\<lparr>dbuf := (dbuf ?q1)[slot := Some ?front]\<rparr>"
    have sl: "slot < length (st @ [k])" using Cons.prems(4) by simp
    have q2: "queue_is q2 ((st @ [k])[slot := ?front]) lv" "tail_clear q2"
      using slot_write_is [OF p(2) sl tc, of ?front] by (simp_all add: q2_def)
    define s1 where "s1 = (clear_blocking k (s\<lparr>sleepers := ?q1\<rparr>))\<lparr>sleepers := q2\<rparr>"
    have ap: "\<forall>k' \<in> set lv. apart k k'" and k0: "task_ptr k \<noteq> 0" and sp: "separate lv" using Cons.prems(3) by auto
    have same: "is_blocking s1 k' = is_blocking s k'" "get_wait_delta s1 k' = get_wait_delta s k'" if "k' \<in> set lv" for k'
      using ap that by (simp_all add: s1_def sleep_simps)
    have mono: "is_blocking s k'" if "is_blocking s1 k'" for k'
      using that waking_monotone by (auto simp: s1_def sleep_simps) (metis sleepers_unused(1))
    have self: "\<not> is_blocking s1 k" by (simp add: s1_def sleep_simps)
    have dw: "dropWhile (\<lambda>k. get_wait_delta s1 k = 0) lv = dropWhile (\<lambda>k. get_wait_delta s k = 0) lv"
      "takeWhile (\<lambda>k. get_wait_delta s1 k = 0) lv = takeWhile (\<lambda>k. get_wait_delta s k = 0) lv"
      by (intro dropWhile_cong takeWhile_cong refl; simp add: same)+
    have "\<exists>s' st'. wake_loop f' junk slot ?front s1 = Inr s'
     \<and> queue_is (sleepers s') st' (dropWhile (\<lambda>k. get_wait_delta s1 k = 0) lv) \<and> tail_clear (sleepers s')
     \<and> (\<forall>k \<in> set (dropWhile (\<lambda>k. get_wait_delta s1 k = 0) lv).
          is_blocking s' k = is_blocking s1 k \<and> get_wait_delta s' k = get_wait_delta s1 k)
     \<and> (\<forall>k \<in> set (takeWhile (\<lambda>k. get_wait_delta s1 k = 0) lv). \<not> is_blocking s' k)
     \<and> (\<forall>k. is_blocking s' k \<longrightarrow> is_blocking s1 k)"
      using q2 sp Cons.prems(4,5) f
      by (intro Cons.IH [where st = "(st @ [k])[slot := ?front]"]) (simp_all add: s1_def)
    then obtain s' st' where w: "wake_loop f' junk slot ?front s1 = Inr s'"
      "queue_is (sleepers s') st' (dropWhile (\<lambda>k. get_wait_delta s k = 0) lv)" "tail_clear (sleepers s')"
      "\<forall>k \<in> set (dropWhile (\<lambda>k. get_wait_delta s k = 0) lv).
          is_blocking s' k = is_blocking s1 k \<and> get_wait_delta s' k = get_wait_delta s1 k"
      "\<forall>k \<in> set (takeWhile (\<lambda>k. get_wait_delta s k = 0) lv). \<not> is_blocking s' k"
      "\<forall>k. is_blocking s' k \<longrightarrow> is_blocking s1 k"
      unfolding dw by blast
    have "fst (q_pop (sleepers s)) = Some k" using p(1) by (metis fst_conv)
    then have step: "wake_loop f junk slot k s = wake_loop f' junk slot ?front s1"
      unfolding f wake_loop.simps using True k0 fr by (simp add: s1_def q2_def Let_def case_prod_beta)
    have "\<forall>k' \<in> set (dropWhile (\<lambda>k. get_wait_delta s k = 0) lv).
        is_blocking s' k' = is_blocking s k' \<and> get_wait_delta s' k' = get_wait_delta s k'"
      using w(4) same set_dropWhileD [of _ "\<lambda>k. get_wait_delta s k = 0" lv] by metis
    moreover have "\<forall>k. is_blocking s' k \<longrightarrow> is_blocking s k" using w(6) mono by blast
    moreover have "\<not> is_blocking s' k" using w(6) self by blast
    ultimately show ?thesis using step w(1,2,3,5) True by (intro exI [of _ s'] exI [of _ st']) simp
  qed
qed

text \<open>
  The queue of sleepers in order: \<open>ds\<close> are the waits, each relative to the sleeper before, and nobody at
  the front has its wait behind it.
\<close>

definition asleep :: "sched \<Rightarrow> kthread list \<Rightarrow> nat list \<Rightarrow> bool" where
  "asleep s lv ds \<longleftrightarrow> (\<exists>st. queue_is (sleepers s) st lv) \<and> tail_clear (sleepers s) \<and> separate lv
     \<and> map (get_wait_delta s) lv = ds \<and> (\<forall>k \<in> set lv. is_blocking s k) \<and> (\<forall>d \<in> set ds. d < 2 ^ 64)
     \<and> (ds \<noteq> [] \<longrightarrow> 0 < hd ds)"

lemma separate_dropWhile: "separate lv \<Longrightarrow> separate (dropWhile P lv)"
  by (induction lv) auto

lemma dropWhile_not_hd: "dropWhile P xs \<noteq> [] \<Longrightarrow> \<not> P (hd (dropWhile P xs))"
  by (induction xs) auto

lemma wake_sleepers_is:
  assumes "asleep s lv ds" "task_ptr junk = 0" and ds1: "ds1 = (case ds of [] \<Rightarrow> [] | d # ds' \<Rightarrow> (d - 1) # ds')"
    and m: "m = length (takeWhile (\<lambda>d. d = 0) ds1)"
  shows "\<exists>s'. wake_sleepers junk s = Inr s' \<and> asleep s' (drop m lv) (drop m ds1)
     \<and> (\<forall>k \<in> set (take m lv). \<not> is_blocking s' k) \<and> (\<forall>k. is_blocking s' k \<longrightarrow> is_blocking s k)"
proof (cases lv)
  case Nil
  then obtain st where "queue_is (sleepers s) st []" "ds = []" using assms(1) by (auto simp: asleep_def)
  then have q: "q_at_end (sleepers s)" "ds = []"
    using queue_isD(2,3) [of "sleepers s" st "[]"] by (simp_all add: q_at_end_def qrem_def ptr_diff_def)
  then have "wake_sleepers junk s = Inr s" by (simp add: wake_sleepers_def tick_wait_def)
  then show ?thesis using assms(1) q Nil ds1 m by auto
next
  case (Cons k lv')
  obtain st where st: "queue_is (sleepers s) st (k # lv')" using assms(1) Cons by (auto simp: asleep_def)
  obtain d ds' where ds: "ds = d # ds'" "get_wait_delta s k = d" "map (get_wait_delta s) lv' = ds'" "0 < d" "d < 2 ^ 64"
    using assms(1) Cons by (auto simp: asleep_def)
  have tc: "tail_clear (sleepers s)" and sp: "separate lv" and ap: "\<forall>k' \<in> set lv'. apart k k'"
    using assms(1) Cons by (auto simp: asleep_def)
  note qd = queue_isD [OF st]
  have live: "\<not> q_empty (sleepers s)" "\<not> q_at_end (sleepers s)" "dend (sleepers s) - dnext (sleepers s) = length lv"
    using qd Cons by (simp_all add: q_empty_def qsize_def q_at_end_def qrem_def ptr_diff_def)
  have nx: "q_next (sleepers s) = Some k"
    using q_pop_is(1) [OF st] qd by (auto simp: q_next_def q_pop_def split: if_splits)
  define s1 where "s1 = wait_tick k s"
  have tw: "tick_wait s = s1" using live nx by (simp add: tick_wait_def s1_def)
  have rest: "map (get_wait_delta s1) lv' = ds'"
    unfolding ds(3) [symmetric] using ap by (simp add: s1_def sleep_simps)
  have s1: "sleepers s1 = sleepers s" "\<And>k'. is_blocking s1 k' = is_blocking s k'" "map (get_wait_delta s1) lv = ds1"
    using ds rest by (simp_all add: s1_def sleep_simps Cons ds1 u64_sub_id)
  have m': "m = length (takeWhile (\<lambda>k. get_wait_delta s1 k = 0) lv)"
    unfolding m s1(3) [symmetric] takeWhile_map by (simp add: comp_def)
  have dw: "dropWhile (\<lambda>k. get_wait_delta s1 k = 0) lv = drop m lv" "takeWhile (\<lambda>k. get_wait_delta s1 k = 0) lv = take m lv"
    unfolding m' by (rule dropWhile_eq_drop, rule takeWhile_eq_take)
  have w: "wake_sleepers junk s = wake_loop (Suc (Suc (length lv))) junk (dnext (sleepers s)) (next_or junk (sleepers s)) s1"
    using live by (simp add: wake_sleepers_def tw s1(1) Let_def)
  have fr: "next_or junk (sleepers s) = (case lv of [] \<Rightarrow> junk | k # _ \<Rightarrow> k)"
    using next_or_is [OF st tc] Cons by simp
  obtain s' st' where s': "wake_sleepers junk s = Inr s'" "queue_is (sleepers s') st' (drop m lv)" "tail_clear (sleepers s')"
      "\<forall>k \<in> set (drop m lv). is_blocking s' k = is_blocking s1 k \<and> get_wait_delta s' k = get_wait_delta s1 k"
      "\<forall>k \<in> set (take m lv). \<not> is_blocking s' k" "\<forall>k. is_blocking s' k \<longrightarrow> is_blocking s1 k"
    using wake_loop_is [of s1 st lv "dnext (sleepers s)" "Suc (Suc (length lv))" junk] st tc sp assms(2) qd Cons
    unfolding w fr dw s1(1) by auto
  have del: "map (get_wait_delta s') (drop m lv) = drop m ds1"
  proof -
    have "map (get_wait_delta s') (drop m lv) = map (get_wait_delta s1) (drop m lv)" using s'(4) by simp
    also have "\<dots> = drop m ds1" by (metis drop_map s1(3))
    finally show ?thesis .
  qed
  have e: "drop m ds1 = dropWhile (\<lambda>d. d = 0) ds1" unfolding m by (rule dropWhile_eq_drop [symmetric])
  have "separate (drop m lv)" using separate_dropWhile [OF sp] dw(1) by metis
  moreover have "\<forall>k \<in> set (drop m lv). is_blocking s' k"
    using s'(4) s1(2) assms(1) by (auto simp: asleep_def dest: in_set_dropD)
  moreover have "\<forall>d \<in> set (drop m ds1). d < 2 ^ 64"
    using assms(1) ds set_drop_subset [of m ds1] by (auto simp: asleep_def ds1)
  moreover have "0 < hd (drop m ds1)" if "drop m ds1 \<noteq> []"
    using dropWhile_not_hd [of "\<lambda>d. d = 0" ds1] that unfolding e by simp
  ultimately have "asleep s' (drop m lv) (drop m ds1)"
    using s'(2,3) del unfolding asleep_def by blast
  then show ?thesis using s'(1,5,6) s1(2) by auto
qed

text \<open>The part of several ticks that concerns the sleepers.\<close>

fun run_wakes :: "kthread \<Rightarrow> nat \<Rightarrow> sched \<Rightarrow> sched_error + sched" where
  "run_wakes junk 0 s = Inr s"
| "run_wakes junk (Suc n) s = (case wake_sleepers junk s of Inl e \<Rightarrow> Inl e | Inr s' \<Rightarrow> run_wakes junk n s')"

lemma awake_stays:
  assumes "asleep s lv ds" "task_ptr junk = 0" "\<not> is_blocking s k"
  shows "\<exists>s'. run_wakes junk n s = Inr s' \<and> \<not> is_blocking s' k"
  using assms(1,3)
proof (induction n arbitrary: s lv ds)
  case (Suc n)
  from wake_sleepers_is [OF Suc.prems(1) assms(2) refl refl]
  obtain s1 lv1 ds1 where s1: "wake_sleepers junk s = Inr s1" "asleep s1 lv1 ds1" "\<forall>k. is_blocking s1 k \<longrightarrow> is_blocking s k"
    by blast
  then show ?case using Suc.IH [OF s1(2)] Suc.prems(2) by auto
qed simp

lemma takeWhile_zero_sum: "sum_list (takeWhile (\<lambda>d. d = 0) ds) = (0::nat)"
  by (induction ds) auto

lemma sleepers_wake:
  assumes "asleep s lv ds" "task_ptr junk = 0" "j < length lv"
  shows "\<exists>s'. run_wakes junk n s = Inr s' \<and> (is_blocking s' (lv ! j) \<longleftrightarrow> n < sum_list (take (Suc j) ds))"
  using assms(1,3)
proof (induction n arbitrary: s lv ds j)
  case 0
  have len: "length ds = length lv" using "0.prems"(1) by (auto simp: asleep_def)
  then have "ds \<noteq> []" using "0.prems"(2) by auto
  moreover have "hd ds \<le> sum_list (take (Suc j) ds)" using \<open>ds \<noteq> []\<close> by (cases ds) auto
  ultimately have "0 < sum_list (take (Suc j) ds)" using "0.prems"(1) by (auto simp: asleep_def)
  then show ?case using 0 by (auto simp: asleep_def)
next
  case (Suc n)
  have len: "length ds = length lv" using Suc.prems(1) by (auto simp: asleep_def)
  then obtain d ds' where ds: "ds = d # ds'" using Suc.prems(2) by (cases ds) auto
  have d: "0 < d" using Suc.prems(1) ds by (simp add: asleep_def)
  define ds1 where "ds1 = (d - 1) # ds'"
  define m where "m = length (takeWhile (\<lambda>d. d = 0) ds1)"
  from wake_sleepers_is [OF Suc.prems(1) assms(2), of ds1 m]
  obtain s1 where s1: "wake_sleepers junk s = Inr s1" "asleep s1 (drop m lv) (drop m ds1)"
      "\<forall>k \<in> set (take m lv). \<not> is_blocking s1 k" "\<forall>k. is_blocking s1 k \<longrightarrow> is_blocking s k"
    by (auto simp: ds ds1_def m_def)
  have z: "sum_list (take m ds1) = 0"
    unfolding m_def takeWhile_eq_take [symmetric] by (rule takeWhile_zero_sum)
  have sum: "sum_list (take (Suc j) ds) = Suc (sum_list (take (Suc j) ds1))" using d by (simp add: ds ds1_def)
  show ?case
  proof (cases "j < m")
    case True
    have "m \<le> length ds1" unfolding m_def by (rule length_takeWhile_le)
    then have "lv ! j \<in> set (take m lv)" using True len nth_mem [of j "take m lv"] by (simp add: ds ds1_def)
    then have "\<not> is_blocking s1 (lv ! j)" using s1(3) by blast
    moreover have "sum_list (take (Suc j) ds) = 1"
    proof -
      have "take (Suc j) ds1 = take (Suc j) (take m ds1)" using True by (simp add: min_def)
      moreover have "sum_list (take (Suc j) xs) \<le> sum_list xs" for xs :: "nat list"
        by (metis append_take_drop_id le_add1 sum_list_append)
      ultimately have "sum_list (take (Suc j) ds1) = 0" using z by (metis le_zero_eq)
      then show ?thesis by (simp only: sum One_nat_def)
    qed
    ultimately show ?thesis using awake_stays [OF s1(2) assms(2), of "lv ! j" n] s1(1) by auto
  next
    case False
    have "take (Suc j) ds1 = take m ds1 @ take (Suc (j - m)) (drop m ds1)"
      using False take_add [of m "Suc (j - m)" ds1] by simp
    then have "sum_list (take (Suc j) ds1) = sum_list (take (Suc (j - m)) (drop m ds1))" using z by simp
    moreover have "drop m lv ! (j - m) = lv ! j" "j - m < length (drop m lv)" using False Suc.prems(2) by simp_all
    ultimately show ?thesis using Suc.IH [OF s1(2), of "j - m"] s1(1) sum by auto
  qed
qed

subsection \<open>Going to sleep\<close>

lemma sleeper_cells_is: "queue_is q st lv \<Longrightarrow> sleeper_cells q = Some (map Some lv)"
proof -
  assume a: "queue_is q st lv"
  note d = queue_isD [OF a]
  have "drop (length st) (take (dend q) (dbuf q)) = map Some lv" by (simp add: d(1))
  then show ?thesis using d(2,3) by (simp add: sleeper_cells_def drop_take)
qed

lemma sum_waits_is:
  "acc + sum_list (map (get_wait_delta s) lv) < 2 ^ 64 \<Longrightarrow>
   sum_waits s (map Some lv) acc = acc + sum_list (map (get_wait_delta s) lv)"
  by (induction lv arbitrary: acc) (simp_all add: u64_add_id add.assoc)

lemma push_tail_clear:
  fixes q :: "'a dynq"
  assumes "queue_is q st lv" "tail_clear q"
  shows "tail_clear (q_push k q)"
proof -
  have trim: "tail_clear (on_modify_queue q')" if "tail_clear q'" for q' :: "'a dynq"
    using that by (auto simp: on_modify_queue_def trim_stale_def erase_before_next_def tail_clear_def qdestroy_def
        dest: in_set_dropD)
  define q1 where "q1 = (if qcapacity q \<le> dend q + length [k] then q_grow_buffer (length [k] - (qcapacity q - dend q)) q else q)"
  have len: "dend q1 = dend q" "dend q \<le> length (dbuf q1)"
    using queue_isD(4) [OF assms(1)] by (auto simp: q1_def q_grow_buffer_def qcapacity_def)
  have "tail_clear q1" using assms(2) by (auto simp: q1_def q_grow_buffer_def tail_clear_def dest: in_set_dropD)
  then have "\<forall>c \<in> set (drop (dend q + 1) (dbuf q1)). c = None"
    using set_drop_subset_set_drop [of "dend q" "dend q + 1" "dbuf q1"] len by (auto simp: tail_clear_def)
  then have "tail_clear (q1\<lparr>dbuf := take (dend q1) (dbuf q1) @ map Some [k] @ drop (dend q1 + 1) (dbuf q1),
      dend := dend q1 + 1, op_cnt := op_cnt q1 + 1\<rparr>)"
    using len by (simp add: tail_clear_def)
  from trim [OF this] show ?thesis
    unfolding q_push_def push_elements_def Let_def q1_def [symmetric] by simp
qed

lemma sleeping_self [sleep_simps]:
  "is_blocking (set_wait_delta n k (set_blocking ci k s)) k"
  "get_wait_delta (set_wait_delta n k s) k = n"
  by (simp_all add: is_blocking_def get_wait_delta_def set_blocking_def set_wait_delta_def upd_task_def upd_thread_def)

lemma sleeping_others [sleep_simps]:
  "apart k' k \<Longrightarrow> is_blocking (set_wait_delta n k s) k' = is_blocking s k'"
  "apart k' k \<Longrightarrow> is_blocking (set_blocking ci k s) k' = is_blocking s k'"
  "apart k' k \<Longrightarrow> get_wait_delta (set_wait_delta n k s) k' = get_wait_delta s k'"
  "get_wait_delta (set_blocking ci k s) k' = get_wait_delta s k'"
  by (auto simp: apart_def is_blocking_def get_wait_delta_def set_blocking_def set_wait_delta_def upd_task_def upd_thread_def)

lemma separate_snoc: "separate (lv @ [k]) \<longleftrightarrow> separate lv \<and> task_ptr k \<noteq> 0 \<and> (\<forall>k' \<in> set lv. apart k' k)"
  by (induction lv) auto

text \<open>A wait at least as long as all the others goes to the back of the queue.\<close>

lemma set_wait_time_back:
  assumes "asleep s lv ds" "sum_list ds \<le> time" "time < 2 ^ 64" "task_ptr k \<noteq> 0" "\<forall>k' \<in> set lv. apart k' k"
  shows "\<exists>s1. set_wait_time k time ci s = Inr (True, s1) \<and> (\<exists>st. queue_is (sleepers s1) st (lv @ [k]))
     \<and> tail_clear (sleepers s1) \<and> separate (lv @ [k]) \<and> map (get_wait_delta s1) (lv @ [k]) = ds @ [time - sum_list ds]
     \<and> (\<forall>k' \<in> set (lv @ [k]). is_blocking s1 k')"
proof -
  obtain st where st: "queue_is (sleepers s) st lv" using assms(1) by (auto simp: asleep_def)
  have a: "tail_clear (sleepers s)" "separate lv" "map (get_wait_delta s) lv = ds" "\<forall>k' \<in> set lv. is_blocking s k'"
    using assms(1) by (auto simp: asleep_def)
  let ?s = "set_blocking ci k s"
  have "map (get_wait_delta ?s) lv = ds" unfolding a(3) [symmetric] by (simp add: sleep_simps)
  then have total: "sum_waits ?s (map Some lv) 0 = sum_list ds"
    using sum_waits_is [of 0 ?s lv] assms(2,3) by simp
  define s1 where "s1 = (set_wait_delta (time - sum_list ds) k ?s)\<lparr>sleepers := q_push k (sleepers s)\<rparr>"
  have "set_wait_time k time ci s = Inr (True, s1)"
    using assms(2,3) sleeper_cells_is [OF st]
    by (simp add: set_wait_time_def Let_def sleep_simps total u64_sub_id s1_def)
  moreover have "\<exists>st. queue_is (sleepers s1) st (lv @ [k])" "tail_clear (sleepers s1)"
    using push_elements_is [OF st, of "[k]"] push_tail_clear [OF st a(1)] by (auto simp: s1_def q_push_def)
  moreover have "map (get_wait_delta s1) lv = ds"
    unfolding a(3) [symmetric] using assms(5) by (simp add: s1_def sleep_simps)
  then have "map (get_wait_delta s1) (lv @ [k]) = ds @ [time - sum_list ds]" by (simp add: s1_def sleep_simps)
  moreover have "\<forall>k' \<in> set (lv @ [k]). is_blocking s1 k'"
    using assms(5) a(4) by (auto simp: s1_def sleep_simps)
  ultimately show ?thesis using assms(4,5) a(2) by (auto simp: separate_snoc)
qed


definition no_sleepers :: sched where
  "no_sleepers = base_sched (\<lambda>_. base_task)"

lemma no_sleepers_asleep: "asleep no_sleepers [] []"
  using new_queue_is [of True]
  by (auto simp: asleep_def no_sleepers_def base_sched_def tail_clear_def new_queue_def)


text \<open>
  A wait of zero ticks, to which every wait shorter than a tick is rounded, does not end: the first tick
  takes the wait of zero below zero, and the sleeper stays blocked for \<open>2 ^ 64\<close> ticks.
\<close>

theorem zero_wait_sleeps_on:
  assumes "asleep s [] []" "task_ptr k \<noteq> 0" "task_ptr junk = 0"
  shows "\<exists>s1. set_wait_time k 0 ci s = Inr (True, s1)
     \<and> (\<exists>s2. run_wakes junk n s1 = Inr s2 \<and> (is_blocking s2 k \<longleftrightarrow> n < 2 ^ 64))"
proof -
  obtain s1 st where s1: "set_wait_time k 0 ci s = Inr (True, s1)" "queue_is (sleepers s1) st [k]" "tail_clear (sleepers s1)"
      "get_wait_delta s1 k = 0" "is_blocking s1 k"
    using set_wait_time_back [OF assms(1) _ _ assms(2), of 0 ci] by auto
  note qd = queue_isD [OF s1(2)]
  have nx: "q_next (sleepers s1) = Some k" "next_or junk (sleepers s1) = k"
    using q_pop_is(1) [OF s1(2)] qd next_or_is [OF s1(2,3)] by (auto simp: q_next_def q_pop_def split: if_splits)
  let ?s2 = "wait_tick k s1"
  have d: "get_wait_delta ?s2 k = 2 ^ 64 - 1" using s1(4) by (simp add: sleep_simps u64_sub_def)
  have "wake_sleepers junk s1 = Inr ?s2"
    using qd nx d
    by (simp add: wake_sleepers_def tick_wait_def q_empty_def qsize_def q_at_end_def qrem_def ptr_diff_def sleep_simps)
  moreover have "asleep ?s2 [k] [2 ^ 64 - 1]"
    using s1 d assms(2) by (auto simp: asleep_def sleep_simps)
  ultimately show ?thesis
    using s1(1,5) sleepers_wake [of ?s2 "[k]" "[2 ^ 64 - 1]" junk 0 "n - 1"] assms(3) by (cases n) auto
qed

theorem zero_wait_sleeps_on_witness:
  "\<exists>s1. set_wait_time \<lparr>task_ptr = 1, thread_ptr = 0\<rparr> 0 True no_sleepers = Inr (True, s1)
     \<and> (\<exists>s2. run_wakes null_kthread 1000 s1 = Inr s2 \<and> is_blocking s2 \<lparr>task_ptr = 1, thread_ptr = 0\<rparr>)"
  using zero_wait_sleeps_on [OF no_sleepers_asleep, of "\<lparr>task_ptr = 1, thread_ptr = 0\<rparr>" null_kthread True 1000] by simp

end
