(* ===== verification/Text_Numbers.thy ===== *)
theory Text_Numbers
  imports OoOS_Prelude
begin

text \<open>
  Conversion between integers and text: the character tests, \<open>__ntos_conv\<close> behind \<open>std::to_string\<close>, and
  \<open>ston\<close> behind \<open>atoi\<close> and \<open>strtol\<close>, of \<open>lib/libk/string_impl.tcc\<close>.  Values are integers with the
  range of their type; arithmetic is reduced to the width of the type, for signed types in two's complement.
  A C string is the list of its characters without the terminating null.
\<close>

subsection \<open>Character classes\<close>

abbreviation (input) code :: "char \<Rightarrow> int" where
  "code c \<equiv> of_char c"

definition isdigit :: "char \<Rightarrow> bool" where
  "isdigit c \<longleftrightarrow> code c \<le> 57 \<and> code c \<ge> 48"

definition islower :: "char \<Rightarrow> bool" where
  "islower c \<longleftrightarrow> code c \<le> 122 \<and> code c \<ge> 97"

definition isupper :: "char \<Rightarrow> bool" where
  "isupper c \<longleftrightarrow> code c \<ge> 65 \<and> code c \<le> 90"

definition isalpha :: "char \<Rightarrow> bool" where
  "isalpha c \<longleftrightarrow> (code c \<ge> 97 \<and> code c \<le> 122) \<or> (code c \<ge> 65 \<and> code c \<le> 90)"

definition isalnum :: "char \<Rightarrow> bool" where
  "isalnum c \<longleftrightarrow> (code c \<ge> 48 \<and> code c \<le> 57) \<or> (code c \<ge> 97 \<and> code c \<le> 122) \<or> (code c \<ge> 65 \<and> code c \<le> 90)"

definition isspace :: "char \<Rightarrow> bool" where
  "isspace c \<longleftrightarrow> code c = 32 \<or> code c = 9 \<or> code c = 10 \<or> code c = 13 \<or> code c = 12 \<or> code c = 11"

definition iscntrl :: "char \<Rightarrow> bool" where
  "iscntrl c \<longleftrightarrow> (code c > 0 \<and> code c < 32) \<or> code c = 127"

definition isgraph :: "char \<Rightarrow> bool" where
  "isgraph c \<longleftrightarrow> code c > 31 \<and> code c < 127"

definition isprint :: "char \<Rightarrow> bool" where
  "isprint c = isgraph c"

definition ispunct :: "char \<Rightarrow> bool" where
  "ispunct c \<longleftrightarrow> \<not> isalnum c \<and> \<not> isspace c \<and> isprint c"

definition isxdigit :: "char \<Rightarrow> bool" where
  "isxdigit c \<longleftrightarrow> isdigit c \<or> (code c \<ge> 97 \<and> code c \<le> 102) \<or> (code c \<ge> 65 \<and> code c \<le> 70)"

definition tolower :: "char \<Rightarrow> char" where
  "tolower c = (if isupper c then char_of (code c + 32) else c)"

definition toupper :: "char \<Rightarrow> char" where
  "toupper c = (if islower c then char_of (code c - 32) else c)"

definition to_upper :: "string \<Rightarrow> string" where
  "to_upper str = map toupper str"

definition to_lower :: "string \<Rightarrow> string" where
  "to_lower str = map tolower str"

subsection \<open>The integer types\<close>

datatype int_type = C_int | C_long | C_unsigned | C_ulong

fun is_signed :: "int_type \<Rightarrow> bool" where
  "is_signed C_int = True" | "is_signed C_long = True" | "is_signed C_unsigned = False" | "is_signed C_ulong = False"

fun type_bits :: "int_type \<Rightarrow> nat" where
  "type_bits C_int = 32" | "type_bits C_long = 64" | "type_bits C_unsigned = 32" | "type_bits C_ulong = 64"

text \<open>The number of entries of the table \<open>__pow_10\<close> of the type.\<close>

fun max_dec :: "int_type \<Rightarrow> nat" where
  "max_dec C_int = 10" | "max_dec C_long = 19" | "max_dec C_unsigned = 10" | "max_dec C_ulong = 20"

definition wrap_to :: "int_type \<Rightarrow> int \<Rightarrow> int" where
  "wrap_to t i = (if is_signed t then (i + 2 ^ (type_bits t - 1)) mod 2 ^ type_bits t - 2 ^ (type_bits t - 1)
                  else i mod 2 ^ type_bits t)"

definition in_type :: "int_type \<Rightarrow> int \<Rightarrow> bool" where
  "in_type t i \<longleftrightarrow> (if is_signed t then - (2 ^ (type_bits t - 1)) \<le> i \<and> i < 2 ^ (type_bits t - 1)
                     else 0 \<le> i \<and> i < 2 ^ type_bits t)"

subsection \<open>Integers to text\<close>

definition digit_chars :: string where
  "digit_chars = ''0123456789ABCDEF''"

definition get_pow10 :: "nat \<Rightarrow> int" where
  "get_pow10 idx = 10 ^ idx"

definition dec_digit_v :: "int_type \<Rightarrow> int \<Rightarrow> nat \<Rightarrow> int" where
  "dec_digit_v t num idx =
     (if idx < max_dec t - 1 then (num mod get_pow10 (idx + 1)) div get_pow10 idx else num div get_pow10 idx)"

definition dec_digit :: "int_type \<Rightarrow> int \<Rightarrow> nat \<Rightarrow> char" where
  "dec_digit t num idx = digit_chars ! nat (dec_digit_v t num idx)"

definition abs_in :: "int_type \<Rightarrow> int \<Rightarrow> int" where
  "abs_in t i = (if is_signed t then (if i < 0 then wrap_to t (- i) else i) else i)"

definition to_string :: "int_type \<Rightarrow> int \<Rightarrow> string" where
  "to_string t i =
     (if i = 0 then [digit_chars ! 0]
      else
        (let j = abs_in t i;
             str = map (dec_digit t j) (takeWhile (\<lambda>n. get_pow10 n \<le> j) [0..<max_dec t])
         in rev (str @ (if is_signed t \<and> i < 0 then ''-'' else []))))"

text \<open>
  The hexadecimal digits are cut out with a mask of the type, so the top digit of a negative number would be
  negative: an access before the table, \<open>None\<close>.
\<close>

fun bit_length :: "nat \<Rightarrow> nat" where
  "bit_length n = (if n = 0 then 0 else Suc (bit_length (n div 2)))"

declare bit_length.simps [simp del]

definition clzg :: "int_type \<Rightarrow> int \<Rightarrow> nat" where
  "clzg t u = (if u = 0 then 1 else type_bits t - bit_length (nat u))"

definition xdigits :: "int_type \<Rightarrow> int \<Rightarrow> nat" where
  "xdigits t i = div_round_up (type_bits t - clzg t (i mod 2 ^ type_bits t)) 4"

definition hex_digit_v :: "int_type \<Rightarrow> int \<Rightarrow> nat \<Rightarrow> int" where
  "hex_digit_v t num idx = drop_bit (idx * 4) (num AND wrap_to t (push_bit (idx * 4) 15))"

definition hex_digit :: "int_type \<Rightarrow> int \<Rightarrow> nat \<Rightarrow> char option" where
  "hex_digit t num idx =
     (let v = hex_digit_v t num idx in if 0 \<le> v \<and> v < 16 then Some (digit_chars ! nat v) else None)"

definition hex_body :: "int_type \<Rightarrow> int \<Rightarrow> string \<Rightarrow> string option" where
  "hex_body t i pref =
     (let ds = map (hex_digit t (abs_in t i)) [0..<xdigits t i]
      in if None \<in> set ds then None
         else Some (rev (map the ds @ pref @ (if is_signed t \<and> i < 0 then ''-'' else []))))"

definition to_hex_string :: "int_type \<Rightarrow> int \<Rightarrow> string option" where
  "to_hex_string t i = (if i = 0 then Some [digit_chars ! 0] else hex_body t i ''x0'')"

definition to_bare_hex_string :: "int_type \<Rightarrow> int \<Rightarrow> string option" where
  "to_bare_hex_string t i = (if i = 0 then Some [digit_chars ! 0] else hex_body t i [])"

subsection \<open>Text to integers\<close>

definition char_at :: "string \<Rightarrow> nat \<Rightarrow> char" where
  "char_at s i = (if i < length s then s ! i else CHR 0x00)"

definition in_number :: "int \<Rightarrow> char \<Rightarrow> bool" where
  "in_number base c0 \<longleftrightarrow>
     (let c = tolower c0 in
      c0 \<noteq> CHR 0x00
      \<and> (isspace c
         \<or> \<not> (\<not> isalnum c \<or> (isalpha c \<and> (base < 11 \<or> base - 10 \<le> code c - 97)) \<or> (isdigit c \<and> code c - 48 \<ge> base))))"

definition ston_step :: "int_type \<Rightarrow> int \<Rightarrow> int \<Rightarrow> char \<Rightarrow> int" where
  "ston_step t base r cc =
     (let r1 = wrap_to t (r * base); cdc = tolower cc in
      if isspace cdc then r1
      else if isalpha cdc then wrap_to t (r1 + (code cdc - 97 + 10))
      else wrap_to t (r1 + (code cdc - 48)))"

text \<open>The result and the rest of the string; the end pointer is not set when the base is refused.\<close>

definition ston :: "int_type \<Rightarrow> string \<Rightarrow> int \<Rightarrow> int \<times> string option" where
  "ston t str0 base0 =
     (if base0 > 32 then (0, None)
      else
        (let str1 = (if char_at str0 0 = CHR ''+'' then tl str0 else str0);
             neg = (char_at str1 0 = CHR ''-'');
             str2 = (if neg then tl str1 else str1);
             prefixed = ((base0 = 0 \<or> base0 = 16) \<and> char_at str2 0 = CHR ''0'' \<and> tolower (char_at str2 1) = CHR ''x'');
             base = (if prefixed then 16 else if base0 = 0 then (if char_at str2 0 = CHR ''0'' then 8 else 10) else base0);
             str = (if prefixed then drop 2 str2 else str2);
             body = takeWhile (in_number base) str;
             result = foldl (ston_step t base) 0 body
         in (if neg then wrap_to t (- result) else result, Some (dropWhile (in_number base) str))))"

subsection \<open>Ranges\<close>

lemma wrap_to_id: "in_type t i \<Longrightarrow> wrap_to t i = i"
  by (cases t) (simp_all add: in_type_def wrap_to_def)

lemma in_type_le: "in_type t m \<Longrightarrow> 0 \<le> x \<Longrightarrow> x \<le> m \<Longrightarrow> in_type t x"
  by (cases t) (simp_all add: in_type_def)

lemma in_type_dec: "in_type t i \<Longrightarrow> i < 10 ^ max_dec t"
  by (cases t) (simp_all add: in_type_def)

lemma take_bit_wrap_to: "take_bit (type_bits t) (wrap_to t x) = take_bit (type_bits t) x"
proof -
  have "((x + a) mod m - a) mod m = x mod m" for a m :: int by (simp add: mod_diff_left_eq)
  then show ?thesis by (simp add: take_bit_eq_mod wrap_to_def mod_mod_trivial)
qed

text \<open>The absolute value, where it is in the range.\<close>

definition has_abs :: "int_type \<Rightarrow> int \<Rightarrow> bool" where
  "has_abs t i \<longleftrightarrow> in_type t i \<and> in_type t \<bar>i\<bar>"

lemma abs_in_has_abs: "has_abs t i \<Longrightarrow> abs_in t i = \<bar>i\<bar>"
  using wrap_to_id [of t "- i"] by (cases t) (auto simp: has_abs_def abs_in_def in_type_def)

lemma abs_le_unsigned: "in_type t i \<Longrightarrow> \<bar>i\<bar> \<le> i mod 2 ^ type_bits t"
proof (cases "i < 0")
  case True
  assume a: "in_type t i"
  have "i mod 2 ^ type_bits t = (i + 2 ^ type_bits t) mod 2 ^ type_bits t" by simp
  also have "\<dots> = i + 2 ^ type_bits t"
    by (rule mod_pos_pos_trivial) (use a True in \<open>cases t; simp add: in_type_def\<close>)+
  finally show ?thesis using a True by (cases t) (simp_all add: in_type_def)
qed (cases t; simp add: in_type_def)

subsection \<open>Digits\<close>

definition digit_val :: "char \<Rightarrow> int" where
  "digit_val c = (let l = tolower c in if isalpha l then code l - 97 + 10 else code l - 48)"

lemmas char_defs = isdigit_def islower_def isupper_def isalpha_def isalnum_def isspace_def tolower_def

lemma digit_char:
  assumes "0 \<le> v" "v < 16"
  defines "c \<equiv> digit_chars ! nat v"
  shows "digit_val c = v" "\<not> isspace (tolower c)" "c \<noteq> CHR 0x00 \<and> c \<noteq> CHR ''+'' \<and> c \<noteq> CHR ''-''"
    "b \<le> 16 \<Longrightarrow> v < b \<Longrightarrow> in_number b c" "tolower c \<noteq> CHR ''x''"
proof -
  have "v \<in> set [0..15]" using assms by simp
  then consider "v = 0" | "v = 1" | "v = 2" | "v = 3" | "v = 4" | "v = 5" | "v = 6" | "v = 7" | "v = 8" | "v = 9"
    | "v = 10" | "v = 11" | "v = 12" | "v = 13" | "v = 14" | "v = 15"
    by (fastforce simp: upto.simps simp del: set_upto)
  note cs = this
  show "digit_val c = v" using cs by cases (simp_all add: c_def digit_chars_def digit_val_def char_defs)
  show "\<not> isspace (tolower c)" using cs by cases (simp_all add: c_def digit_chars_def char_defs)
  show "c \<noteq> CHR 0x00 \<and> c \<noteq> CHR ''+'' \<and> c \<noteq> CHR ''-''" using cs by cases (simp_all add: c_def digit_chars_def)
  show "tolower c \<noteq> CHR ''x''" using cs by cases (simp_all add: c_def digit_chars_def char_defs char_of_eq_iff)
  show "in_number b c" if "b \<le> 16" "v < b"
    using cs that by cases (simp_all add: c_def digit_chars_def char_defs in_number_def Let_def)
qed

definition value_of :: "int \<Rightarrow> int \<Rightarrow> string \<Rightarrow> int" where
  "value_of b r cs = foldl (\<lambda>r c. r * b + digit_val c) r cs"

lemma value_of_simps [simp]: "value_of b r [] = r" "value_of b r (c # cs) = value_of b (r * b + digit_val c) cs"
  by (simp_all add: value_of_def)

lemma value_of_ge:
  "1 \<le> b \<Longrightarrow> 0 \<le> r \<Longrightarrow> \<forall>c \<in> set cs. 0 \<le> digit_val c \<Longrightarrow> r \<le> value_of b r cs"
proof (induction cs arbitrary: r)
  case (Cons c cs)
  have "r * 1 \<le> r * b" using Cons.prems by (intro mult_left_mono) simp_all
  then have "r \<le> r * b + digit_val c" "0 \<le> r * b + digit_val c" using Cons.prems by simp_all
  then show ?case using Cons.IH [of "r * b + digit_val c"] Cons.prems by simp
qed simp

lemma ston_step_digit:
  "\<not> isspace (tolower c) \<Longrightarrow> ston_step t b r c = wrap_to t (wrap_to t (r * b) + digit_val c)"
  by (cases "isalpha (tolower c)") (simp_all add: ston_step_def digit_val_def Let_def)

lemma ston_no_wrap:
  assumes "1 \<le> b" "0 \<le> r" "\<forall>c \<in> set cs. 0 \<le> digit_val c \<and> \<not> isspace (tolower c)" "in_type t (value_of b r cs)"
  shows "foldl (ston_step t b) r cs = value_of b r cs"
  using assms(2-)
proof (induction cs arbitrary: r)
  case (Cons c cs)
  let ?r = "r * b + digit_val c"
  have d: "0 \<le> r * b" "r * b \<le> ?r" "0 \<le> ?r" using Cons.prems assms(1) by simp_all
  have v: "in_type t (value_of b ?r cs)" using Cons.prems by simp
  moreover have "?r \<le> value_of b ?r cs" using value_of_ge [OF assms(1) d(3)] Cons.prems by simp
  ultimately have "wrap_to t (r * b) = r * b" "wrap_to t ?r = ?r"
    using in_type_le [of t] d by (metis order.trans wrap_to_id)+
  then have "ston_step t b r c = ?r" using Cons.prems by (simp add: ston_step_digit)
  then show ?case using Cons.IH [OF d(3)] Cons.prems v by simp
qed simp

lemma value_of_digits:
  assumes "1 < b" "b \<le> 16" "0 \<le> j"
  shows "value_of b r (map (\<lambda>i. digit_chars ! nat (j div b ^ i mod b)) (rev [0..<k])) = r * b ^ k + j mod b ^ k"
proof (induction k arbitrary: r)
  case (Suc k)
  let ?d = "j div b ^ k mod b"
  have "0 \<le> ?d" "?d < 16" using assms by (simp_all add: order.strict_trans2 [OF pos_mod_bound])
  then have "digit_val (digit_chars ! nat ?d) = ?d" by (rule digit_char)
  then have "value_of b r (map (\<lambda>i. digit_chars ! nat (j div b ^ i mod b)) (rev [0..<Suc k])) = (r * b + ?d) * b ^ k + j mod b ^ k"
    using Suc by simp
  also have "\<dots> = r * b ^ Suc k + (b ^ k * ?d + j mod b ^ k)" by (simp add: algebra_simps)
  also have "b ^ k * ?d + j mod b ^ k = j mod (b ^ k * b)" using assms by (simp add: zmod_zmult2_eq)
  finally show ?case by (simp add: mult.commute)
qed simp

text \<open>Reading a list of digits in one of the bases used.\<close>

lemma ston_digits:
  assumes "1 < b" "b \<le> 16" "0 \<le> j" "j < b ^ k" "in_type t j"
  defines "ds \<equiv> map (\<lambda>i. digit_chars ! nat (j div b ^ i mod b)) (rev [0..<k])"
  shows "foldl (ston_step t b) 0 ds = j" "\<forall>c \<in> set ds. in_number b c"
    "\<forall>c \<in> set ds. c \<noteq> CHR ''+'' \<and> c \<noteq> CHR ''-''"
proof -
  have d: "\<exists>v. c = digit_chars ! nat v \<and> 0 \<le> v \<and> v < 16 \<and> v < b" if "c \<in> set ds" for c
    using that assms(1-3) by (force simp: ds_def intro: order.strict_trans2 [OF pos_mod_bound])
  have v: "value_of b 0 ds = j" using value_of_digits [OF assms(1-3), of 0 k] assms(3,4) by (simp add: ds_def)
  have "\<forall>c \<in> set ds. 0 \<le> digit_val c \<and> \<not> isspace (tolower c)" using d digit_char(1,2) by metis
  then show "foldl (ston_step t b) 0 ds = j" using ston_no_wrap [of b 0 ds t] v assms by simp
  show "\<forall>c \<in> set ds. in_number b c" using d digit_char(4) assms(2) by metis
  show "\<forall>c \<in> set ds. c \<noteq> CHR ''+'' \<and> c \<noteq> CHR ''-''" using d digit_char(3) by metis
qed

subsection \<open>The digits that are written\<close>

lemma int_div_less: "j < c * p \<Longrightarrow> 0 < p \<Longrightarrow> j div p < (c :: int)"
proof (rule ccontr)
  assume "j < c * p" "0 < p" "\<not> j div p < c"
  then have "c * p \<le> j div p * p" by (intro mult_right_mono) simp_all
  also have "\<dots> \<le> j" using \<open>0 < p\<close> by (simp add: minus_mod_eq_div_mult [symmetric])
  finally show False using \<open>j < c * p\<close> by simp
qed

lemma to_string_digits:
  assumes "has_abs t i" "i \<noteq> 0"
  obtains k where "0 < k" "10 ^ (k - 1) \<le> \<bar>i\<bar>" "\<bar>i\<bar> < 10 ^ k"
    "to_string t i = (if i < 0 then ''-'' else []) @ map (\<lambda>n. digit_chars ! nat (\<bar>i\<bar> div 10 ^ n mod 10)) (rev [0..<k])"
proof -
  let ?j = "\<bar>i\<bar>"
  define k where "k = length (takeWhile (\<lambda>n. get_pow10 n \<le> ?j) [0..<max_dec t])"
  have km: "k \<le> max_dec t" using length_takeWhile_le [of "\<lambda>n. get_pow10 n \<le> ?j" "[0..<max_dec t]"] by (simp add: k_def)
  have tw: "takeWhile (\<lambda>n. get_pow10 n \<le> ?j) [0..<max_dec t] = [0..<k]"
    using km by (subst takeWhile_eq_take) (simp add: k_def [symmetric] take_upt)
  have md: "?j < 10 ^ max_dec t" using assms in_type_dec by (simp add: has_abs_def)
  have "?j < 10 ^ k"
  proof (cases "k < max_dec t")
    case True
    then have "\<not> get_pow10 k \<le> ?j"
      using nth_length_takeWhile [of "\<lambda>n. get_pow10 n \<le> ?j" "[0..<max_dec t]"] by (simp add: k_def)
    then show ?thesis by (simp add: get_pow10_def)
  qed (use km md in simp)
  moreover have "0 < k"
  proof (rule ccontr)
    assume "\<not> 0 < k"
    then have "?j < 1" using \<open>?j < 10 ^ k\<close> by simp
    then show False using assms(2) by simp
  qed
  moreover have "10 ^ (k - 1) \<le> ?j"
  proof -
    have "k - 1 \<in> set (takeWhile (\<lambda>n. get_pow10 n \<le> ?j) [0..<max_dec t])" using tw \<open>0 < k\<close> by simp
    then have "get_pow10 (k - 1) \<le> ?j" by (rule set_takeWhileD [THEN conjunct2])
    then show ?thesis by (simp add: get_pow10_def)
  qed
  moreover have "dec_digit t ?j n = digit_chars ! nat (?j div 10 ^ n mod 10)" if "n < k" for n
  proof -
    have "?j div 10 ^ n mod 10 = ?j div 10 ^ n" if "\<not> n < max_dec t - 1"
    proof -
      have "(10 :: int) ^ max_dec t \<le> 10 ^ Suc n" using that by (intro power_increasing) simp_all
      then have "?j < 10 * 10 ^ n" using md by simp
      then have "?j div 10 ^ n < 10" by (intro int_div_less) simp_all
      then show ?thesis by (simp add: pos_imp_zdiv_nonneg_iff)
    qed
    moreover have "?j mod (10 ^ n * 10) div 10 ^ n = ?j div 10 ^ n mod 10" by (simp add: zmod_zmult2_eq)
    ultimately show ?thesis by (simp add: dec_digit_def dec_digit_v_def get_pow10_def mult.commute)
  qed
  then have "map (dec_digit t ?j) [0..<k] = map (\<lambda>n. digit_chars ! nat (?j div 10 ^ n mod 10)) [0..<k]" by simp
  moreover have "i < 0 \<Longrightarrow> is_signed t" using assms by (cases t) (simp_all add: has_abs_def in_type_def)
  ultimately show ?thesis using assms(2) tw abs_in_has_abs [OF assms(1)]
    by (intro that [of k]) (auto simp: to_string_def Let_def rev_map)
qed

lemma hex_digit_has_abs:
  assumes "in_type t j" "0 \<le> j"
  shows "hex_digit t j n = Some (digit_chars ! nat (j div 16 ^ n mod 16))"
proof -
  let ?m = "push_bit (n * 4) (15 :: int)"
  have j: "take_bit (type_bits t) j = j"
    using assms by (cases t) (simp_all add: in_type_def take_bit_int_eq_self_iff)
  have "0 \<le> j AND wrap_to t ?m" "j AND wrap_to t ?m \<le> j" using assms(2) by simp_all
  then have "take_bit (type_bits t) (j AND wrap_to t ?m) = j AND wrap_to t ?m"
    using j by (metis take_bit_int_eq_self_iff order.strict_trans1)
  then have "j AND wrap_to t ?m = j AND ?m"
    using j take_bit_wrap_to [of t ?m] by (metis and.commute and.left_commute take_bit_eq_mask)
  moreover have "drop_bit (n * 4) ?m = 15" by (simp add: drop_bit_eq_div push_bit_eq_mult)
  ultimately have "hex_digit_v t j n = drop_bit (n * 4) j AND 15" by (simp add: hex_digit_v_def drop_bit_and)
  also have "\<dots> = take_bit 4 (drop_bit (n * 4) j)" by (simp add: take_bit_eq_mask mask_eq_exp_minus_1)
  also have "\<dots> = j div 16 ^ n mod 16" by (simp add: take_bit_eq_mod drop_bit_eq_div power_mult mult.commute [of n])
  finally show ?thesis by (simp add: hex_digit_def Let_def)
qed

lemma bit_length_bound: "n < 2 ^ bit_length n"
proof (induction n rule: bit_length.induct)
  case (1 n)
  then show ?case by (cases "n = 0") (auto simp: bit_length.simps [of n])
qed

lemma bit_length_le: "n < 2 ^ b \<Longrightarrow> bit_length n \<le> b"
proof (induction n arbitrary: b rule: bit_length.induct)
  case (1 n)
  show ?case
  proof (cases "n = 0")
    case False
    then have "b \<noteq> 0" using 1 by (metis power_0 less_one)
    then obtain c where c: "b = Suc c" by (cases b) auto
    then have "n div 2 < 2 ^ c" using 1 by simp
    then show ?thesis using 1 False c by (simp add: bit_length.simps [of n])
  qed (simp add: bit_length.simps [of 0])
qed

lemma hex_body_digits:
  assumes "has_abs t i" "i \<noteq> 0"
  obtains k where "\<bar>i\<bar> < 16 ^ k"
    "hex_body t i pref = Some ((if i < 0 then ''-'' else []) @ rev pref
       @ map (\<lambda>n. digit_chars ! nat (\<bar>i\<bar> div 16 ^ n mod 16)) (rev [0..<k]))"
proof -
  let ?u = "i mod 2 ^ type_bits t" and ?k = "xdigits t i"
  have le: "\<bar>i\<bar> \<le> ?u" using abs_le_unsigned assms by (simp add: has_abs_def)
  then have nz: "?u \<noteq> 0" using assms(2) by linarith
  have "0 \<le> ?u" "?u < 2 ^ type_bits t" by simp_all
  then have "nat ?u < 2 ^ type_bits t" by (simp add: nat_less_iff)
  then have k: "?k = div_round_up (bit_length (nat ?u)) 4"
    using nz bit_length_le [of "nat ?u"] by (simp add: xdigits_def clzg_def)
  have "(2 :: nat) ^ bit_length (nat ?u) \<le> 2 ^ (4 * ?k)"
    using div_round_up_bounds(1) [of 4 "bit_length (nat ?u)"] by (simp add: k power_increasing)
  then have "nat ?u < 2 ^ (4 * ?k)" using bit_length_bound [of "nat ?u"] by (rule less_le_trans [rotated])
  then have "nat ?u < 16 ^ ?k" by (simp add: power_mult)
  then have "?u < 16 ^ ?k" using \<open>0 \<le> ?u\<close> by (simp add: nat_less_iff)
  then have "\<bar>i\<bar> < 16 ^ ?k" using le by simp
  moreover have "in_type t \<bar>i\<bar>" using assms by (simp add: has_abs_def)
  then have "hex_digit t (abs_in t i) = (\<lambda>n. Some (digit_chars ! nat (\<bar>i\<bar> div 16 ^ n mod 16)))"
    using hex_digit_has_abs abs_in_has_abs [OF assms(1)] by auto
  moreover have "i < 0 \<Longrightarrow> is_signed t" using assms by (cases t) (simp_all add: has_abs_def in_type_def)
  ultimately show ?thesis by (intro that [of ?k]) (auto simp: hex_body_def Let_def rev_map comp_def)
qed

lemma ston_decimal:
  assumes "\<forall>c \<in> set ds. in_number 10 c \<and> c \<noteq> CHR ''+'' \<and> c \<noteq> CHR ''-''"
  shows "ston t ds 10 = (foldl (ston_step t 10) 0 ds, Some [])"
    and "ston t (CHR ''-'' # ds) 10 = (wrap_to t (- foldl (ston_step t 10) 0 ds), Some [])"
proof -
  have w: "takeWhile (in_number 10) ds = ds" "dropWhile (in_number 10) ds = []" using assms by simp_all
  have c: "char_at ds 0 \<noteq> CHR ''+''" "char_at ds 0 \<noteq> CHR ''-''" using assms by (cases ds; simp add: char_at_def)+
  show "ston t ds 10 = (foldl (ston_step t 10) 0 ds, Some [])" by (simp add: ston_def Let_def c w)
  have m: "char_at (CHR ''-'' # ds) 0 = CHR ''-''" by (simp add: char_at_def)
  show "ston t (CHR ''-'' # ds) 10 = (wrap_to t (- foldl (ston_step t 10) 0 ds), Some [])" by (simp add: ston_def Let_def m w)
qed

lemma ston_prefixed:
  assumes "\<forall>c \<in> set ds. in_number 16 c"
  shows "ston t (CHR ''0'' # CHR ''x'' # ds) 0 = (foldl (ston_step t 16) 0 ds, Some [])"
    and "ston t (CHR ''-'' # CHR ''0'' # CHR ''x'' # ds) 0 = (wrap_to t (- foldl (ston_step t 16) 0 ds), Some [])"
proof -
  have w: "takeWhile (in_number 16) ds = ds" "dropWhile (in_number 16) ds = []" using assms by simp_all
  have x: "tolower CHR ''x'' = CHR ''x''" by (simp add: char_defs)
  have c: "char_at (CHR ''0'' # CHR ''x'' # ds) 0 = CHR ''0''" "char_at (CHR ''0'' # CHR ''x'' # ds) (Suc 0) = CHR ''x''"
    "char_at (CHR ''-'' # CHR ''0'' # CHR ''x'' # ds) 0 = CHR ''-''" by (simp_all add: char_at_def)
  show "ston t (CHR ''0'' # CHR ''x'' # ds) 0 = (foldl (ston_step t 16) 0 ds, Some [])"
    by (simp add: ston_def Let_def c x w)
  show "ston t (CHR ''-'' # CHR ''0'' # CHR ''x'' # ds) 0 = (wrap_to t (- foldl (ston_step t 16) 0 ds), Some [])"
    by (simp add: ston_def Let_def c x w)
qed

lemma ston_zero: "ston t ''0'' 10 = (0, Some [])" "ston t ''0'' 0 = (0, Some [])"
proof -
  have z: "digit_chars ! nat 0 = CHR ''0''" by (simp add: digit_chars_def)
  have i: "in_type t 0" by (cases t) (simp_all add: in_type_def)
  have "foldl (ston_step t 10) 0 ''0'' = 0" "\<forall>c \<in> set ''0''. in_number 10 c \<and> c \<noteq> CHR ''+'' \<and> c \<noteq> CHR ''-''"
    using ston_digits [of 10 0 1 t] z i by simp_all
  then show "ston t ''0'' 10 = (0, Some [])" using ston_decimal(1) [of "''0''" t] by simp
  have "foldl (ston_step t 8) 0 ''0'' = 0" "in_number 8 CHR ''0''" using ston_digits [of 8 0 1 t] z i by simp_all
  moreover have "char_at ''0'' 0 = CHR ''0''" "char_at ''0'' (Suc 0) = CHR 0x00" "tolower CHR 0x00 = CHR 0x00"
    by (simp_all add: char_at_def char_defs)
  ultimately show "ston t ''0'' 0 = (0, Some [])" by (simp add: ston_def)
qed

text \<open>
  C27. Numbers survive their text: what \<open>std::to_string\<close> writes for a number of any of the four types is read
  back by \<open>strtol\<close> as the number, with nothing left over, and so is what it writes in hexadecimal when the
  base is found from the prefix.  The one exception is the least number of a signed type.
\<close>

theorem number_text_roundtrip:
  assumes "in_type t i" "\<not> (is_signed t \<and> i = - (2 ^ (type_bits t - 1)))"
  shows "ston t (to_string t i) 10 = (i, Some [])
    \<and> (\<exists>s. to_hex_string t i = Some s \<and> ston t s 0 = (i, Some []))"
proof (cases "i = 0")
  case True
  then show ?thesis using ston_zero by (simp add: to_string_def to_hex_string_def digit_chars_def)
next
  case False
  have ha: "has_abs t i" using assms by (cases t) (auto simp: has_abs_def in_type_def)
  have ti: "in_type t \<bar>i\<bar>" using ha by (simp add: has_abs_def)
  have sg: "i < 0 \<Longrightarrow> wrap_to t (- \<bar>i\<bar>) = i" using wrap_to_id [OF assms(1)] by simp
  obtain k where k: "\<bar>i\<bar> < 10 ^ k"
    "to_string t i = (if i < 0 then ''-'' else []) @ map (\<lambda>n. digit_chars ! nat (\<bar>i\<bar> div 10 ^ n mod 10)) (rev [0..<k])"
    using to_string_digits [OF ha False] .
  obtain m where m: "\<bar>i\<bar> < 16 ^ m" "hex_body t i ''x0'' = Some ((if i < 0 then ''-'' else []) @ rev ''x0''
       @ map (\<lambda>n. digit_chars ! nat (\<bar>i\<bar> div 16 ^ n mod 16)) (rev [0..<m]))"
    using hex_body_digits [OF ha False] .
  define dd where "dd = map (\<lambda>n. digit_chars ! nat (\<bar>i\<bar> div 10 ^ n mod 10)) (rev [0..<k])"
  define hh where "hh = map (\<lambda>n. digit_chars ! nat (\<bar>i\<bar> div 16 ^ n mod 16)) (rev [0..<m])"
  have d: "foldl (ston_step t 10) 0 dd = \<bar>i\<bar>" "\<forall>c \<in> set dd. in_number 10 c \<and> c \<noteq> CHR ''+'' \<and> c \<noteq> CHR ''-''"
    using ston_digits [OF _ _ _ k(1) ti] unfolding dd_def by simp_all
  have h: "foldl (ston_step t 16) 0 hh = \<bar>i\<bar>" "\<forall>c \<in> set hh. in_number 16 c"
    using ston_digits(1,2) [OF _ _ _ m(1) ti] unfolding hh_def by simp_all
  have "ston t (to_string t i) 10 = (i, Some [])"
    unfolding k(2) dd_def [symmetric] using ston_decimal [OF d(2)] d(1) sg by simp
  moreover have "\<exists>s. hex_body t i ''x0'' = Some s \<and> ston t s 0 = (i, Some [])"
    unfolding m(2) hh_def [symmetric] using ston_prefixed [OF h(2)] h(1) sg by simp
  ultimately show ?thesis using False by (simp add: to_hex_string_def)
qed

theorem number_text_roundtrip_witness:
  "ston C_long (to_string C_long (-42)) 10 = (-42, Some [])
    \<and> (\<exists>s. to_hex_string C_long (-42) = Some s \<and> ston C_long s 0 = (-42, Some []))"
  using number_text_roundtrip [of C_long "-42"] by (simp add: in_type_def)

lemma to_string_least: "to_string C_long (- (2 ^ 63)) = ''-''"
  by (simp add: to_string_def abs_in_def wrap_to_def get_pow10_def upt_conv_Cons Let_def)

lemma ston_trailing_blank: "ston C_long ''12 '' 10 = (120, Some [])"
  by (simp add: ston_def ston_step_def wrap_to_def char_at_def in_number_def char_defs Let_def)

end
