(* ===== verification/Fat32.thy ===== *)
theory Fat32
  imports Vectors Text_Numbers
begin

text \<open>
  The FAT32 driver: the allocation table and the file and directory operations of
  \<open>kernel/fs/fat32/fat32.cpp\<close>, \<open>fat32_node.cpp\<close> and \<open>fat32_filebuf.cpp\<close>.  The table is a list of 32-bit
  words; an index outside it, which the code does not test for, makes an operation \<open>None\<close>.  A directory
  keeps its entries in a vector.  The block device is a parameter: reading a run of sectors gives their
  bytes or fails, writing succeeds or fails.  The clock, the node sets and the directory tree, which belong
  to the generic file system layer, are left out; file names of existing entries come in as a predicate.
\<close>

subsection \<open>The allocation table\<close>

definition fat32_cluster_mask :: u32 where
  "fat32_cluster_mask = 0x0FFFFFFF"

definition fat32_cluster_pres :: u32 where
  "fat32_cluster_pres = 0xF0000000"

definition fat32_cluster_eof :: u32 where
  "fat32_cluster_eof = 0x0FFFFFF8"

record fat_table =
  fat :: "u32 list"
  fat_dirty :: bool
  num_sectors :: nat
  start_sector :: nat

text \<open>\<open>claim_cluster\<close>: the first free entry from 3 on; 0 when there is none.\<close>

definition claim_cluster :: "nat \<Rightarrow> fat_table \<Rightarrow> (nat \<times> fat_table) option" where
  "claim_cluster last_sect tb =
     (case find (\<lambda>i. fat tb ! i AND fat32_cluster_mask = 0) [3..<length (fat tb)] of
        None \<Rightarrow> Some (0, tb)
      | Some i \<Rightarrow>
          (if last_sect > 2 \<and> last_sect \<ge> length (fat tb) then None
           else
             (let f1 = (if last_sect > 2
                        then (fat tb)[last_sect := fat tb ! last_sect OR (of_nat i AND fat32_cluster_mask)]
                        else fat tb);
                  f2 = f1[i := f1 ! i OR fat32_cluster_eof]
              in Some (i, tb\<lparr>fat := f2, fat_dirty := True\<rparr>))))"

definition sync_to_disk :: "bool \<Rightarrow> fat_table \<Rightarrow> bool \<times> fat_table" where
  "sync_to_disk write_ok tb =
     (let tb1 = (if fat_dirty tb \<and> write_ok then tb\<lparr>fat_dirty := False\<rparr> else tb) in (\<not> fat_dirty tb1, tb1))"

definition get_from_disk :: "(nat \<Rightarrow> nat \<Rightarrow> u32 list option) \<Rightarrow> fat_table \<Rightarrow> bool \<times> fat_table" where
  "get_from_disk rd tb =
     (case rd (start_sector tb) (num_sectors tb) of
        Some ws \<Rightarrow> (True, tb\<lparr>fat := ws\<rparr>)
      | None \<Rightarrow> (False, tb))"

text \<open>The loop of \<open>__release_clusters_from\<close>; it follows the entries until one is an end mark.\<close>

fun release_loop :: "nat \<Rightarrow> nat \<Rightarrow> u32 list \<Rightarrow> u32 list option" where
  "release_loop 0 start f = None"
| "release_loop (Suc n) start f =
     (if start \<ge> length f then None
      else
        (let tval = f ! start AND fat32_cluster_mask;
             f1 = f[start := f ! start AND fat32_cluster_pres]
         in if tval < fat32_cluster_eof then release_loop n (unat tval) f1 else Some f1))"

definition release_clusters_from :: "nat \<Rightarrow> fat_table \<Rightarrow> fat_table option" where
  "release_clusters_from start tb =
     map_option (\<lambda>f. tb\<lparr>fat := f, fat_dirty := True\<rparr>) (release_loop (Suc (length (fat tb))) start (fat tb))"

text \<open>The clusters of a file or directory, collected when its node is created.\<close>

fun chain_loop :: "nat \<Rightarrow> nat \<Rightarrow> u32 list \<Rightarrow> nat list option" where
  "chain_loop 0 cl f = None"
| "chain_loop (Suc n) cl f =
     (if cl \<ge> length f then None
      else
        (let nx = f ! cl AND fat32_cluster_mask
         in if nx < fat32_cluster_eof then map_option ((#) cl) (chain_loop n (unat nx) f) else Some [cl]))"

definition file_clusters :: "nat \<Rightarrow> fat_table \<Rightarrow> nat list option" where
  "file_clusters cl_st tb =
     chain_loop (Suc (length (fat tb))) (unat (of_nat cl_st AND fat32_cluster_mask :: u32)) (fat tb)"

definition directory_clusters :: "nat \<Rightarrow> fat_table \<Rightarrow> nat list option" where
  "directory_clusters cl_st tb = chain_loop (Suc (length (fat tb))) cl_st (fat tb)"

subsection \<open>Geometry\<close>

record geometry =
  root_cl_num :: nat
  sectors_per_cluster :: nat
  sector_base :: nat
  sector_size :: nat

definition new_geometry :: "nat \<Rightarrow> nat \<Rightarrow> nat \<Rightarrow> nat \<Rightarrow> nat \<Rightarrow> geometry" where
  "new_geometry root_cl sectors_per_cl bps first_sect fat_sectors =
     \<lparr>root_cl_num = root_cl, sectors_per_cluster = sectors_per_cl, sector_base = u64_add first_sect fat_sectors,
      sector_size = bps\<rparr>"

text \<open>The product is computed with 32 bits, as \<open>cl\<close> has 32 and the factor 8.\<close>

definition cluster_to_sector :: "geometry \<Rightarrow> u32 \<Rightarrow> nat" where
  "cluster_to_sector g cl = u64_add (unat ((cl - 2) * of_nat (sectors_per_cluster g))) (sector_base g)"

definition fat_block_size :: "geometry \<Rightarrow> nat" where
  "fat_block_size g = u64_mul (sector_size g) (sectors_per_cluster g)"

definition read_clusters :: "(nat \<Rightarrow> nat \<Rightarrow> nat list option) \<Rightarrow> geometry \<Rightarrow> u32 \<Rightarrow> nat \<Rightarrow> nat list option" where
  "read_clusters rd g cl_st num = rd (cluster_to_sector g cl_st) (num * sectors_per_cluster g)"

definition write_clusters :: "(nat \<Rightarrow> nat list \<Rightarrow> nat \<Rightarrow> bool) \<Rightarrow> geometry \<Rightarrow> u32 \<Rightarrow> nat list \<Rightarrow> nat \<Rightarrow> bool" where
  "write_clusters wr g cl_st data num = wr (cluster_to_sector g cl_st) data (num * sectors_per_cluster g)"

subsection \<open>References to first clusters\<close>

definition add_start_cluster_ref :: "nat \<Rightarrow> (nat \<rightharpoonup> nat) \<Rightarrow> (nat \<rightharpoonup> nat)" where
  "add_start_cluster_ref cl m = (case m cl of Some n \<Rightarrow> m(cl \<mapsto> n + 1) | None \<Rightarrow> m(cl \<mapsto> 1))"

definition rm_start_cluster_ref :: "nat \<Rightarrow> (nat \<rightharpoonup> nat) \<Rightarrow> (nat \<rightharpoonup> nat)" where
  "rm_start_cluster_ref cl m = (case m cl of Some n \<Rightarrow> m(cl \<mapsto> u64_sub n 1) | None \<Rightarrow> m)"

text \<open>
  The part of \<open>dlfilenode\<close> and \<open>dldirnode\<close> that frees the clusters of a node whose count is zero.  The code
  dereferences the result of the search without a test, so a cluster that was never counted is \<open>None\<close>.
\<close>

definition delete_clusters :: "nat \<Rightarrow> fat_table \<Rightarrow> (nat \<rightharpoonup> nat) \<Rightarrow> (fat_table \<times> (nat \<rightharpoonup> nat)) option" where
  "delete_clusters cl tb m =
     (case m cl of
        None \<Rightarrow> None
      | Some n \<Rightarrow>
          (if n = 0 then map_option (\<lambda>tb'. (tb', m(cl := None))) (release_clusters_from cl tb) else Some (tb, m)))"

subsection \<open>File names\<close>

fun find_char :: "char \<Rightarrow> string \<Rightarrow> nat \<Rightarrow> nat option" where
  "find_char c [] i = None"
| "find_char c (x # xs) i = (if x = c then Some i else find_char c xs (i + 1))"

definition set_filename :: "string \<Rightarrow> string" where
  "set_filename sname =
     (let l0 = min 8 (length sname);
          l = (case find_char CHR ''.'' sname 0 of Some p \<Rightarrow> if p < l0 then p else l0 | None \<Rightarrow> l0);
          ext = take 3 (drop (l + 1) sname)
      in take l sname @ replicate (8 - l) CHR '' '' @ ext @ replicate (3 - length ext) CHR '' '')"

text \<open>The two loops of \<open>__add_parsed_entry\<close> that read a name back from an entry.\<close>

fun parse_base :: "string \<Rightarrow> nat \<Rightarrow> string" where
  "parse_base [] c = []"
| "parse_base (x # xs) c =
     (if x = CHR '' '' then parse_base xs (c + 1)
      else if x \<noteq> CHR 0x00 then replicate c CHR '' '' @ x # parse_base xs 0
      else parse_base xs c)"

fun parse_ext :: "string \<Rightarrow> nat \<Rightarrow> bool \<Rightarrow> string" where
  "parse_ext [] c dotted = []"
| "parse_ext (x # xs) c dotted =
     (if x = CHR '' '' then parse_ext xs (c + 1) dotted
      else if x \<noteq> CHR 0x00
      then replicate c CHR '' '' @ (if dotted then [] else ''.'') @ x # parse_ext xs 0 True
      else parse_ext xs c dotted)"

definition parse_name :: "string \<Rightarrow> string" where
  "parse_name filename = parse_base (take 8 filename) 0 @ parse_ext (take 3 (drop 8 filename)) 0 False"

text \<open>
  One candidate for the short name of a long one, and the loop over the candidates.  The number of
  characters kept before the tail is a difference of unsigned numbers.
\<close>

definition short_candidate :: "string \<Rightarrow> bool \<Rightarrow> nat \<Rightarrow> string" where
  "short_candidate trimmed have_dot i =
     (let tail0 = CHR ''~'' # to_string C_unsigned (int i);
          j = min (u64_sub 6 (length tail0)) (length trimmed);
          n = length trimmed;
          tail1 = tail0 @ (if n > 1 \<and> have_dot then ''.'' else []);
          tail2 = tail1 @ (if n \<ge> 3 then [trimmed ! (n - 3)] else []);
          tail3 = tail2 @ (if n \<ge> 2 then [trimmed ! (n - 2)] else []);
          tail4 = tail3 @ (if n \<ge> 1 then [last trimmed] else [])
      in take j trimmed @ tail4)"

fun short_name_loop :: "nat \<Rightarrow> (string \<Rightarrow> bool) \<Rightarrow> string \<Rightarrow> bool \<Rightarrow> nat \<Rightarrow> string" where
  "short_name_loop 0 taken trimmed have_dot i = short_candidate trimmed have_dot i"
| "short_name_loop (Suc f) taken trimmed have_dot i =
     (let result = short_candidate trimmed have_dot i in
      if taken result \<and> i + 1 \<le> 999999 then short_name_loop f taken trimmed have_dot (i + 1) else result)"

definition get_short_name :: "(string \<Rightarrow> bool) \<Rightarrow> string \<Rightarrow> string option" where
  "get_short_name taken full =
     (let upper = to_upper full in
      if length upper < 13 then Some (take (min 12 (length upper)) upper)
      else
        (let result = short_name_loop 1000000 taken (filter (\<lambda>c. c \<noteq> CHR ''.'' \<and> c \<noteq> CHR '' '') upper)
                        (CHR ''.'' \<in> set upper) 1
         in if taken result then None else Some result))"

subsection \<open>Directories\<close>

text \<open>
  A directory entry; a long-name entry is read through the same bytes, its ordinal being the first byte of
  the name.  The fields for the times are left out.
\<close>

record dirent =
  filename :: string
  attributes :: nat
  first_cluster_hi :: nat
  first_cluster_lo :: nat
  size_bytes :: nat

datatype fat_error = Out_of_space | No_short_name | Bad_index | No_return

record fat_dir =
  dir_data :: "dirent vec"
  covered_clusters :: "nat list"
  dir_dirty :: bool
  dir_init :: bool

definition first_byte :: "dirent \<Rightarrow> nat" where
  "first_byte e = of_char (filename e ! 0)"

definition is_unused :: "dirent \<Rightarrow> bool" where
  "is_unused e \<longleftrightarrow> first_byte e = 0xE8 \<or> first_byte e = 0"

definition is_longname :: "dirent \<Rightarrow> bool" where
  "is_longname e \<longleftrightarrow> attributes e mod 16 = 15"

definition is_last_longname :: "dirent \<Rightarrow> bool" where
  "is_last_longname e \<longleftrightarrow> first_byte e div 64 mod 2 = 1"

definition start_of :: "dirent \<Rightarrow> nat" where
  "start_of e = first_cluster_lo e + 65536 * first_cluster_hi e"

definition sn_checksum :: "dirent \<Rightarrow> u8" where
  "sn_checksum e =
     fold (\<lambda>c r. (if r AND 1 \<noteq> 0 then 0x80 else 0) + drop_bit 1 r + of_nat (of_char c)) (filename e) 0"

text \<open>
  The test of \<open>first_unused_entry\<close>.  The name is an array of \<open>char\<close>, which is signed, so the byte of an
  erased entry compares as a negative number.
\<close>

definition signed_char :: "char \<Rightarrow> int" where
  "signed_char c = (if (of_char c :: nat) < 128 then int (of_char c) else int (of_char c) - 256)"

definition reads_free :: "dirent \<Rightarrow> bool" where
  "reads_free e \<longleftrightarrow> signed_char (filename e ! 0) = 0xE5 \<or> signed_char (filename e ! 0) = 0"

definition expand_dir :: "geometry \<Rightarrow> fat_dir \<Rightarrow> fat_table \<Rightarrow> (fat_error option \<times> fat_dir \<times> fat_table)" where
  "expand_dir g d tb =
     (let n = fat_block_size g div 32 in
      case claim_cluster (last (covered_clusters d)) tb of
        None \<Rightarrow> (Some Bad_index, d, tb)
      | Some (i, tb1) \<Rightarrow>
          (if i \<noteq> 0
           then (None, d\<lparr>covered_clusters := covered_clusters d @ [i], dir_data := vec_reserve (vlen (dir_data d) + n) (dir_data d)\<rparr>, tb1)
           else (Some Out_of_space, d, tb1)))"

fun free_entry_from :: "dirent option list \<Rightarrow> nat \<Rightarrow> nat option" where
  "free_entry_from [] i = None"
| "free_entry_from (c # cs) i =
     (case c of Some e \<Rightarrow> if reads_free e then Some i else free_entry_from cs (i + 1) | None \<Rightarrow> free_entry_from cs (i + 1))"

fun first_unused_entry :: "nat \<Rightarrow> geometry \<Rightarrow> fat_dir \<Rightarrow> fat_table \<Rightarrow> (fat_error + nat) \<times> fat_dir \<times> fat_table" where
  "first_unused_entry 0 g d tb = (Inl No_return, d, tb)"
| "first_unused_entry (Suc f) g d tb =
     (let d1 = d\<lparr>dir_dirty := True\<rparr> in
      case free_entry_from (take (vlen (dir_data d1)) (vcells (dir_data d1))) 0 of
        Some i \<Rightarrow> (Inr i, d1, tb)
      | None \<Rightarrow>
          (case expand_dir g d1 tb of
             (Some e, d2, tb2) \<Rightarrow> (Inl e, d2, tb2)
           | (None, d2, tb2) \<Rightarrow> first_unused_entry f g d2 tb2))"

text \<open>
  What \<open>mkfilenode\<close> does to the table and the directory: claim a first cluster, find an unused
  entry and write the new one into it.  The result is the index of the entry and the cluster.
\<close>

definition make_entry :: "nat \<Rightarrow> geometry \<Rightarrow> (string \<Rightarrow> bool) \<Rightarrow> nat \<Rightarrow> string \<Rightarrow> fat_dir \<Rightarrow> fat_table
    \<Rightarrow> (fat_error + (nat \<times> nat) option) \<times> fat_dir \<times> fat_table" where
  "make_entry fuel g taken attrs name d tb =
     (case claim_cluster 0 tb of
        None \<Rightarrow> (Inl Bad_index, d, tb)
      | Some (cl, tb1) \<Rightarrow>
          (if cl = 0 then (Inr None, d, tb1)
           else
             (case get_short_name taken name of
                None \<Rightarrow> (Inl No_short_name, d, tb1)
              | Some sfname \<Rightarrow>
                  (case first_unused_entry fuel g d tb1 of
                     (Inl e, d2, tb2) \<Rightarrow> (Inl e, d2, tb2)
                   | (Inr idx, d2, tb2) \<Rightarrow>
                       (let e = \<lparr>filename = set_filename sfname, attributes = attrs, first_cluster_hi = cl div 65536,
                                 first_cluster_lo = cl mod 65536, size_bytes = 0\<rparr>
                        in (Inr (Some (idx, cl)),
                            d2\<lparr>dir_data := (dir_data d2)\<lparr>vcells := (vcells (dir_data d2))[idx := Some e]\<rparr>\<rparr>, tb2))))))"

text \<open>\<open>__get_longname_start\<close> and \<open>__dir_ent_erase\<close>; the inner \<open>None\<close> is the \<open>end()\<close> iterator.\<close>

fun longname_back :: "dirent option list \<Rightarrow> nat \<Rightarrow> nat" where
  "longname_back cs 0 = 0"
| "longname_back cs (Suc j) =
     (case cs ! Suc j of Some e \<Rightarrow> if is_last_longname e then Suc j else longname_back cs j | None \<Rightarrow> longname_back cs j)"

definition cell_is :: "(dirent \<Rightarrow> bool) \<Rightarrow> dirent option list \<Rightarrow> nat \<Rightarrow> bool" where
  "cell_is P cs j = (case cs ! j of Some e \<Rightarrow> P e | None \<Rightarrow> False)"

definition get_longname_start :: "nat \<Rightarrow> fat_dir \<Rightarrow> nat option option" where
  "get_longname_start i d =
     (let cs = vcells (dir_data d) in
      if i = 0 then None
      else if \<not> cell_is is_longname cs (i - 1) then Some None
      else
        (let j = longname_back cs (i - 1)
         in Some (if cell_is is_longname cs j \<and> cell_is is_last_longname cs j then Some j else None)))"

text \<open>The other nodes of the directory are given by the indices of their entries.\<close>

definition dir_ent_erase :: "nat \<Rightarrow> nat list \<Rightarrow> fat_dir \<Rightarrow> (nat \<rightharpoonup> nat) \<Rightarrow> (bool \<times> nat list \<times> fat_dir \<times> (nat \<rightharpoonup> nat)) option" where
  "dir_ent_erase i idxs d m =
     (case get_longname_start i d of
        None \<Rightarrow> None
      | Some None \<Rightarrow> Some (False, idxs, d, m)
      | Some (Some j) \<Rightarrow>
          (if i \<ge> vlen (dir_data d) then Some (False, idxs, d, m)
           else
             (case vcells (dir_data d) ! i of
                None \<Rightarrow> None
              | Some e \<Rightarrow>
                  (case vec_erase_range j (i + 1) (dir_data d) of
                     None \<Rightarrow> None
                   | Some (r, v) \<Rightarrow>
                       (let erased = i + 1 - j
                        in Some (True, map (\<lambda>x. if x \<ge> r then x - erased else x) idxs,
                             d\<lparr>dir_data := vec_reserve (vcap (dir_data d)) v, dir_dirty := True\<rparr>,
                             rm_start_cluster_ref (start_of e) m))))))"

text \<open>The entries \<open>parse_dir_data\<close> makes nodes for, with their positions and names.\<close>

fun parsed_entries :: "dirent option list \<Rightarrow> nat \<Rightarrow> (nat \<times> string \<times> bool \<times> nat) list" where
  "parsed_entries [] j = []"
| "parsed_entries (c # cs) j =
     (case c of
        None \<Rightarrow> parsed_entries cs (j + 1)
      | Some e \<Rightarrow>
          (if \<not> (is_unused e \<or> is_longname e \<or> filename e ! 0 = CHR ''.'' \<or> start_of e = 0)
           then (j, parse_name (filename e), attributes e div 16 mod 2 = 1, start_of e) # parsed_entries cs (j + 1)
           else parsed_entries cs (j + 1)))"

definition parse_dir_data :: "dirent list option \<Rightarrow> fat_dir \<Rightarrow> (bool \<times> (nat \<times> string \<times> bool \<times> nat) list \<times> fat_dir) option" where
  "parse_dir_data disk_data d =
     (if dir_init d then Some (True, [], d)
      else
        (case disk_data of
           None \<Rightarrow> Some (False, [], d)
         | Some es \<Rightarrow>
             (case v_append_elements es (dir_data d) of
                None \<Rightarrow> None
              | Some v \<Rightarrow> Some (True, parsed_entries (take (vlen v) (vcells v)) 0, d\<lparr>dir_data := v, dir_init := True\<rparr>))))"

subsection \<open>File buffers\<close>

record filebuf =
  my_clusters :: "nat list"
  next_cluster_idx :: nat
  fbytes :: "nat list"
  fcur :: nat
  is_dirty :: bool

definition unread_size :: "geometry \<Rightarrow> filebuf \<Rightarrow> nat" where
  "unread_size g b =
     (if next_cluster_idx b < length (my_clusters b)
      then (length (my_clusters b) - (next_cluster_idx b + 1)) * fat_block_size g + 1 else 0)"

text \<open>The writes of \<open>write_dev\<close>: a cluster and the offset of its data in the buffer.\<close>

fun write_dev :: "(nat \<Rightarrow> nat \<Rightarrow> bool) \<Rightarrow> nat \<Rightarrow> nat \<Rightarrow> nat \<Rightarrow> nat list \<Rightarrow> int \<times> (nat \<times> nat) list" where
  "write_dev wr bs sz n [] = (0, [])"
| "write_dev wr bs sz n (cl # cls) =
     (if n < sz then
        (if wr cl n then (case write_dev wr bs sz (n + bs) cls of (r, ws) \<Rightarrow> (r, (cl, n) # ws)) else (-1, []))
      else (0, []))"

definition filebuf_sync :: "(nat \<Rightarrow> nat \<Rightarrow> bool) \<Rightarrow> geometry \<Rightarrow> filebuf \<Rightarrow> int \<times> (nat \<times> nat) list \<times> filebuf" where
  "filebuf_sync wr g b =
     (if is_dirty b then
        (case write_dev wr (fat_block_size g) (fcur b) 0 (my_clusters b) of
           (result, ws) \<Rightarrow> (result, ws, b\<lparr>is_dirty := (result \<ge> 0)\<rparr>))
      else (0, [], b))"

text \<open>
  \<open>read_dev\<close> reads \<open>s\<close> blocks: the loop counts the next cluster up but reads the cluster with the index of
  the iteration, to the start of the buffer.
\<close>

fun read_dev_loop :: "(nat \<Rightarrow> nat list option) \<Rightarrow> nat \<Rightarrow> nat \<Rightarrow> nat \<Rightarrow> nat \<Rightarrow> filebuf \<Rightarrow> (nat \<times> filebuf) option" where
  "read_dev_loop rd bs 0 i k b = Some (k, b)"
| "read_dev_loop rd bs (Suc s) i k b =
     (if next_cluster_idx b < length (my_clusters b) then
        (case rd (my_clusters b ! i) of
           None \<Rightarrow> Some (k, b)
         | Some blk \<Rightarrow>
             (if k + length blk > length (fbytes b) then None
              else read_dev_loop rd bs s (i + 1) (k + bs)
                     (b\<lparr>fbytes := take k (fbytes b) @ blk @ drop (k + length blk) (fbytes b),
                        next_cluster_idx := next_cluster_idx b + 1\<rparr>)))
      else Some (k, b))"

definition read_dev :: "(nat \<Rightarrow> nat list option) \<Rightarrow> geometry \<Rightarrow> nat \<Rightarrow> filebuf \<Rightarrow> (nat \<times> filebuf) option" where
  "read_dev rd g n b =
     (let bs = fat_block_size g; s = div_round_up n bs
      in map_option (\<lambda>(k, b'). (min k n, b'))
           (read_dev_loop rd bs s 0 0 (b\<lparr>fbytes := fbytes b @ replicate (s * bs) 0\<rparr>)))"

fun claim_clusters :: "nat \<Rightarrow> nat list \<Rightarrow> fat_table \<Rightarrow> (nat list \<times> fat_table) option" where
  "claim_clusters 0 cls tb = Some (cls, tb)"
| "claim_clusters (Suc s) cls tb =
     (case claim_cluster (last cls) tb of
        None \<Rightarrow> None
      | Some (cl, tb1) \<Rightarrow> (if cl \<noteq> 0 then claim_clusters s (cls @ [cl]) tb1 else Some (cls, tb1)))"

definition on_overflow :: "geometry \<Rightarrow> nat \<Rightarrow> filebuf \<Rightarrow> fat_table \<Rightarrow> (nat \<times> filebuf \<times> fat_table) option" where
  "on_overflow g n b tb =
     (let bs = fat_block_size g; s = div_round_up n bs in
      case claim_clusters s (my_clusters b) tb of
        None \<Rightarrow> None
      | Some (cls, tb1) \<Rightarrow>
          (let k = (length cls - length (my_clusters b)) * bs
           in Some (k, b\<lparr>my_clusters := cls, fbytes := fbytes b @ replicate k 0\<rparr>, tb1)))"

definition grow_file :: "geometry \<Rightarrow> nat \<Rightarrow> filebuf \<Rightarrow> fat_table \<Rightarrow> (bool \<times> filebuf \<times> fat_table) option" where
  "grow_file g added b tb =
     (let target = length (fbytes b) + added; blk_cap = up_to_nearest (length (fbytes b)) (fat_block_size g)
      in if target < blk_cap then Some (True, b, tb)
         else map_option (\<lambda>(k, b', tb'). (k \<noteq> 0, b', tb')) (on_overflow g added b tb))"

end
