(* ===== verification/Fat_Chains.thy ===== *)
theory Fat_Chains
  imports Fat32
begin

text \<open>
  Properties of the FAT32 driver: the chains of clusters in the allocation table, the names in directory
  entries, and what happens when a directory is full.
\<close>

subsection \<open>Chains\<close>

text \<open>A list of clusters is a chain of the table when each entry names the next and the last has an end mark.\<close>

fun links :: "u32 list \<Rightarrow> nat list \<Rightarrow> bool" where
  "links f [] \<longleftrightarrow> False"
| "links f [x] \<longleftrightarrow> x < length f \<and> \<not> f ! x AND fat32_cluster_mask < fat32_cluster_eof"
| "links f (x # y # ys) \<longleftrightarrow> x < length f \<and> f ! x AND fat32_cluster_mask < fat32_cluster_eof
     \<and> unat (f ! x AND fat32_cluster_mask) = y \<and> links f (y # ys)"

lemma links_bounds: "links f xs \<Longrightarrow> x \<in> set xs \<Longrightarrow> x < length f"
  by (induction f xs rule: links.induct) auto

lemma links_update: "links f xs \<Longrightarrow> i \<notin> set xs \<Longrightarrow> links (f[i := v]) xs"
  by (induction f xs rule: links.induct) auto

lemma links_cong:
  "links f xs \<Longrightarrow> length g = length f \<Longrightarrow> \<forall>i \<in> set xs. g ! i = f ! i \<Longrightarrow> links g xs"
  by (induction f xs rule: links.induct) auto

lemma chain_loop_links: "links f xs \<Longrightarrow> length xs \<le> n \<Longrightarrow> chain_loop n (hd xs) f = Some xs"
proof (induction f xs arbitrary: n rule: links.induct)
  case (2 f x)
  then show ?case by (cases n) auto
next
  case (3 f x y ys)
  then show ?case by (cases n) auto
qed simp

lemma release_loop_links:
  assumes "links f xs" "distinct xs" "length xs \<le> n"
  shows "\<exists>f'. release_loop n (hd xs) f = Some f' \<and> length f' = length f
     \<and> (\<forall>i < length f. f' ! i = (if i \<in> set xs then f ! i AND fat32_cluster_pres else f ! i))"
  using assms
proof (induction xs arbitrary: n f)
  case (Cons x xs)
  obtain m where n: "n = Suc m" using Cons.prems(3) by (cases n) auto
  let ?f = "f[x := f ! x AND fat32_cluster_pres]"
  show ?case
  proof (cases xs)
    case Nil
    then show ?thesis using Cons.prems(1) n by (auto simp: nth_list_update)
  next
    case (Cons y ys)
    then have l: "x < length f" "f ! x AND fat32_cluster_mask < fat32_cluster_eof"
        "unat (f ! x AND fat32_cluster_mask) = y" "links f xs"
      using Cons.prems(1) by auto
    have "links ?f xs" using links_update [OF l(4)] Cons.prems(2) by simp
    then obtain f' where f': "release_loop m (hd xs) ?f = Some f'" "length f' = length f"
        "\<forall>i < length f. f' ! i = (if i \<in> set xs then ?f ! i AND fat32_cluster_pres else ?f ! i)"
      using Cons.IH [of ?f m] Cons.prems n by auto
    have "release_loop n (hd (x # xs)) f = Some f'" using l f'(1) n Cons by simp
    moreover have "\<forall>i < length f. f' ! i = (if i \<in> set (x # xs) then f ! i AND fat32_cluster_pres else f ! i)"
    proof (intro allI impI)
      fix i assume i: "i < length f"
      show "f' ! i = (if i \<in> set (x # xs) then f ! i AND fat32_cluster_pres else f ! i)"
        using f'(3) Cons.prems(2) i by (cases "i = x") auto
    qed
    ultimately show ?thesis using f'(2) by blast
  qed
qed simp

text \<open>The chain from a cluster is unique, so it never repeats a cluster.\<close>

lemma links_unique: "links f xs \<Longrightarrow> links f ys \<Longrightarrow> hd xs = hd ys \<Longrightarrow> xs = ys"
proof (induction f xs arbitrary: ys rule: links.induct)
  case (2 f x)
  then show ?case by (cases "(f, ys)" rule: links.cases) auto
next
  case (3 f x y zs)
  from "3.prems" obtain zs' where ys: "ys = x # y # zs'" "links f (y # zs')"
    by (cases "(f, ys)" rule: links.cases) auto
  show ?case using "3.IH" [of "y # zs'"] "3.prems"(1) ys by simp
qed simp

lemma links_suffix: "links f (as @ x # bs) \<Longrightarrow> links f (x # bs)"
  by (induction as) (simp_all, metis (no_types, lifting) append_Cons append_Nil links.simps(3) list.exhaust_sel)

lemma links_distinct: "links f xs \<Longrightarrow> distinct xs"
proof (induction xs)
  case (Cons x xs)
  have "x \<notin> set xs"
  proof
    assume "x \<in> set xs"
    then obtain as bs where e: "xs = as @ x # bs" by (meson split_list)
    have "links f (x # bs)" using links_suffix [of f "x # as" x bs] Cons.prems e by simp
    from links_unique [OF Cons.prems this] show False using e by simp
  qed
  moreover have "xs = [] \<or> links f xs" using Cons.prems by (cases xs) auto
  ultimately show ?case using Cons.IH by auto
qed simp

lemma chain_length: "links f xs \<Longrightarrow> length xs \<le> length f"
  using links_bounds [of f xs] card_mono [of "{..<length f}" "set xs"] distinct_card [OF links_distinct, of f xs]
  by (simp add: subset_iff)

lemma links_last: "links f xs \<Longrightarrow> \<not> f ! last xs AND fat32_cluster_mask < fat32_cluster_eof"
  by (induction f xs rule: links.induct) auto

lemma links_used: "links f xs \<Longrightarrow> 0 \<notin> set xs \<Longrightarrow> x \<in> set xs \<Longrightarrow> f ! x AND fat32_cluster_mask \<noteq> 0"
  by (induction f xs rule: links.induct) (auto simp: fat32_cluster_eof_def)

lemma links_last_update:
  "links f xs \<Longrightarrow> \<not> v AND fat32_cluster_mask < fat32_cluster_eof \<Longrightarrow> links (f[last xs := v]) xs"
proof (induction f xs rule: links.induct)
  case (3 f x y ys)
  have "x \<noteq> last (y # ys)" using links_distinct [OF "3.prems"(1)] by (metis distinct.simps(2) last_in_set list.distinct(1))
  then show ?case using 3 by simp
qed simp_all

lemma eof_or: "\<not> w AND fat32_cluster_mask < fat32_cluster_eof \<Longrightarrow> \<not> (w OR v) AND fat32_cluster_mask < fat32_cluster_eof"
proof -
  assume a: "\<not> w AND fat32_cluster_mask < fat32_cluster_eof"
  have "uint (w AND fat32_cluster_mask) \<le> uint ((w OR v) AND fat32_cluster_mask)"
    by (simp add: bit.conj_disj_distrib2 unsigned_or_eq or_greater_eq)
  then have "w AND fat32_cluster_mask \<le> (w OR v) AND fat32_cluster_mask" by (simp add: word_le_def)
  then show ?thesis using a by simp
qed

lemma pres_free [simp]: "fat32_cluster_pres AND fat32_cluster_mask = 0"
  by (simp add: fat32_cluster_pres_def fat32_cluster_mask_def)

text \<open>A small table: a chain of three clusters, a chain of one and a free entry.\<close>

definition small_fat :: fat_table where
  "small_fat = \<lparr>fat = [0x0FFFFFF8, 0x0FFFFFFF, 0x0FFFFFF8, 5, 0x0FFFFFF8, 6, 0x1FFFFFFF, 0], fat_dirty = False,
     num_sectors = 1, start_sector = 32\<rparr>"

text \<open>
  C24. Releasing a chain: starting from its first cluster the loop ends, frees exactly the clusters of the
  chain, keeps the reserved bits of their entries, and leaves every other entry, and so every chain that
  shares no cluster with it, as it was.
\<close>

theorem fat_release_frees_chain:
  assumes "links (fat tb) xs" "links (fat tb) ys" "set xs \<inter> set ys = {}"
  shows "\<exists>tb'. release_clusters_from (hd xs) tb = Some tb'
     \<and> (\<forall>i < length (fat tb). if i \<in> set xs
           then fat tb' ! i AND fat32_cluster_mask = 0 \<and> fat tb' ! i AND fat32_cluster_pres = fat tb ! i AND fat32_cluster_pres
           else fat tb' ! i = fat tb ! i)
     \<and> directory_clusters (hd ys) tb' = Some ys"
proof -
  obtain f' where f': "release_loop (Suc (length (fat tb))) (hd xs) (fat tb) = Some f'" "length f' = length (fat tb)"
      "\<forall>i < length (fat tb). f' ! i = (if i \<in> set xs then fat tb ! i AND fat32_cluster_pres else fat tb ! i)"
    using release_loop_links [OF assms(1) links_distinct [OF assms(1)], of "Suc (length (fat tb))"]
      chain_length [OF assms(1)] by auto
  have "links f' ys" by (rule links_cong [OF assms(2) f'(2)]) (use f'(3) assms(3) links_bounds [OF assms(2)] in auto)
  then have "chain_loop (Suc (length (fat tb))) (hd ys) f' = Some ys"
    using chain_length [OF assms(2)] by (intro chain_loop_links) auto
  then show ?thesis using f' unfolding release_clusters_from_def directory_clusters_def
    by (auto simp: and.assoc simp del: release_loop.simps chain_loop.simps)
qed

theorem fat_release_frees_chain_witness:
  "\<exists>tb'. release_clusters_from 3 small_fat = Some tb' \<and> fat tb' ! 3 AND fat32_cluster_mask = 0
     \<and> fat tb' ! 6 AND fat32_cluster_mask = 0 \<and> directory_clusters 4 tb' = Some [4]"
proof -
  have "links (fat small_fat) [3, 5, 6]" "links (fat small_fat) [4]" by code_simp+
  from fat_release_frees_chain [OF this] show ?thesis by (auto simp: small_fat_def)
qed

text \<open>
  C25. Extending a file loses the new cluster: the index of the claimed cluster is added to the entry of the
  last one with a bitwise or, which leaves an end mark an end mark.  The claimed cluster is marked as used,
  but the chain still ends where it did.
\<close>

theorem fat_claim_loses_cluster:
  assumes "links (fat tb) xs" "last xs > 2" "0 \<notin> set xs" "claim_cluster (last xs) tb = Some (i, tb')"
  shows "directory_clusters (hd xs) tb' = Some xs \<and> (i \<noteq> 0 \<longrightarrow> i \<notin> set xs \<and> fat tb' ! i AND fat32_cluster_mask \<noteq> 0)"
proof (cases "find (\<lambda>i. fat tb ! i AND fat32_cluster_mask = 0) [3..<length (fat tb)]")
  case None
  then have "i = 0" "tb' = tb" using assms(4) by (simp_all add: claim_cluster_def)
  then show ?thesis using chain_loop_links [OF assms(1)] chain_length [OF assms(1)]
    by (simp add: directory_clusters_def del: chain_loop.simps)
next
  case (Some j)
  let ?l = "last xs"
  have ne: "xs \<noteq> []" using assms(1) by auto
  have l: "?l < length (fat tb)" using links_bounds [OF assms(1), of ?l] ne by simp
  have j: "3 \<le> j" "j < length (fat tb)" "fat tb ! j AND fat32_cluster_mask = 0"
    using Some by (auto simp: find_Some_iff)
  have nj: "j \<notin> set xs" using links_used [OF assms(1,3)] j(3) by blast
  define f1 where "f1 = (fat tb)[?l := fat tb ! ?l OR (of_nat j AND fat32_cluster_mask)]"
  have ij: "i = j" "tb' = tb\<lparr>fat := f1[j := f1 ! j OR fat32_cluster_eof], fat_dirty := True\<rparr>"
    using assms(2,4) Some l by (auto simp: claim_cluster_def f1_def Let_def)
  have "links f1 xs"
    unfolding f1_def by (rule links_last_update [OF assms(1)]) (use links_last [OF assms(1)] eof_or in blast)
  then have "links (fat tb') xs" using links_update nj ij by simp
  moreover have "length (fat tb') = length (fat tb)" by (simp add: ij f1_def)
  ultimately have "directory_clusters (hd xs) tb' = Some xs"
    using chain_loop_links [of "fat tb'" xs] chain_length [OF assms(1)]
    by (simp add: directory_clusters_def del: chain_loop.simps)
  moreover have "fat tb' ! j AND fat32_cluster_mask \<noteq> 0"
  proof -
    have "fat tb' ! j = f1 ! j OR fat32_cluster_eof" using j(2) by (simp add: ij f1_def)
    then have "bit (fat tb' ! j AND fat32_cluster_mask) 3"
      by (simp add: bit_and_iff bit_or_iff fat32_cluster_eof_def fat32_cluster_mask_def)
    then show ?thesis by auto
  qed
  ultimately show ?thesis using ij nj by simp
qed

theorem fat_claim_loses_cluster_witness:
  "\<exists>tb'. claim_cluster 6 small_fat = Some (7, tb') \<and> directory_clusters 3 tb' = Some [3, 5, 6]
     \<and> fat tb' ! 7 AND fat32_cluster_mask \<noteq> 0"
proof -
  have l: "links (fat small_fat) [3, 5, 6]" by code_simp
  obtain tb' where c: "claim_cluster 6 small_fat = Some (7, tb')"
    by (simp add: claim_cluster_def small_fat_def fat32_cluster_mask_def upt_conv_Cons)
  show ?thesis using fat_claim_loses_cluster [OF l, of 7 tb'] c by simp
qed

subsection \<open>Names\<close>

lemma parse_base_padded:
  "CHR '' '' \<notin> set b \<Longrightarrow> CHR 0x00 \<notin> set b \<Longrightarrow> parse_base (b @ replicate n CHR '' '') c = (if b = [] then [] else replicate c CHR '' '' @ b)"
proof (induction b arbitrary: c)
  case Nil
  have "parse_base (replicate n CHR '' '') c = []" for c by (induction n arbitrary: c) auto
  then show ?case by simp
next
  case (Cons x b)
  then show ?case by (cases b) auto
qed

lemma parse_ext_padded:
  "CHR '' '' \<notin> set e \<Longrightarrow> CHR 0x00 \<notin> set e \<Longrightarrow>
   parse_ext (e @ replicate n CHR '' '') c dt = (if e = [] then [] else replicate c CHR '' '' @ (if dt then [] else ''.'') @ e)"
proof (induction e arbitrary: c dt)
  case Nil
  have "parse_ext (replicate n CHR '' '') c dt = []" for c by (induction n arbitrary: c) auto
  then show ?case by simp
next
  case (Cons x e)
  then show ?case by (cases e) auto
qed

lemma find_char_app: "c \<notin> set b \<Longrightarrow> find_char c (b @ xs) i = find_char c xs (i + length b)"
  by (induction b arbitrary: i) auto

definition dotted_name :: "string \<Rightarrow> string \<Rightarrow> string" where
  "dotted_name b e = (if e = [] then b else b @ ''.'' @ e)"

lemma set_filename_dotted:
  assumes "length b \<le> 8" "length e \<le> 3" "CHR ''.'' \<notin> set b"
  shows "set_filename (dotted_name b e) = b @ replicate (8 - length b) CHR '' '' @ e @ replicate (3 - length e) CHR '' ''"
proof (cases "e = []")
  case True
  have "find_char CHR ''.'' b 0 = None" using find_char_app [OF assms(3), of "[]" 0] by simp
  then show ?thesis using True assms(1) by (simp add: dotted_name_def set_filename_def Let_def)
next
  case False
  have f: "find_char CHR ''.'' (b @ CHR ''.'' # e) 0 = Some (length b)" using find_char_app [OF assms(3)] by simp
  show ?thesis
  proof (cases "length b < 8")
    case True
    then show ?thesis using False f assms by (simp add: dotted_name_def set_filename_def Let_def)
  next
    case b8: False
    then show ?thesis using False f assms by (simp add: dotted_name_def set_filename_def Let_def)
  qed
qed

text \<open>
  C26. Short names survive: a name of at most eight characters, with an extension of at most three or none,
  and without dots, blanks and null characters in either part, is read back from the directory entry as it
  was written.
\<close>

theorem fat_short_name_roundtrip:
  assumes "b \<noteq> []" "length b \<le> 8" "length e \<le> 3" "\<forall>c \<in> set (b @ e). c \<noteq> CHR ''.'' \<and> c \<noteq> CHR '' '' \<and> c \<noteq> CHR 0x00"
  shows "parse_name (set_filename (dotted_name b e)) = dotted_name b e"
proof -
  have n: "CHR ''.'' \<notin> set b" "CHR '' '' \<notin> set b" "CHR 0x00 \<notin> set b" "CHR '' '' \<notin> set e" "CHR 0x00 \<notin> set e"
    using assms(4) by auto
  show ?thesis unfolding set_filename_dotted [OF assms(2,3) n(1)]
    using assms(1-3) n by (simp add: parse_name_def parse_base_padded parse_ext_padded dotted_name_def)
qed

theorem fat_short_name_roundtrip_witness: "parse_name (set_filename ''KERNEL.ELF'') = ''KERNEL.ELF''"
  using fat_short_name_roundtrip [of "''KERNEL''" "''ELF''"] by (simp add: dotted_name_def)

subsection \<open>Full directories\<close>

definition free_clusters :: "u32 list \<Rightarrow> nat set" where
  "free_clusters f = {i. 3 \<le> i \<and> i < length f \<and> f ! i AND fat32_cluster_mask = 0}"

lemma or_masked_zero: "(w OR v) AND fat32_cluster_mask = 0 \<Longrightarrow> w AND fat32_cluster_mask = (0 :: u32)"
  by (metis bit.conj_disj_distrib2 or.right_neutral or_eq_0_iff word_bw_lcs(2))

lemma claim_cluster_cases:
  assumes "last_sect < length (fat tb)"
  obtains (full) "claim_cluster last_sect tb = Some (0, tb)" "free_clusters (fat tb) = {}"
  | (claimed) i tb' where "claim_cluster last_sect tb = Some (i, tb')" "i \<noteq> 0" "i < length (fat tb')"
      "length (fat tb') = length (fat tb)" "free_clusters (fat tb') \<subset> free_clusters (fat tb)"
proof (cases "find (\<lambda>i. fat tb ! i AND fat32_cluster_mask = 0) [3..<length (fat tb)]")
  case None
  then have "free_clusters (fat tb) = {}" by (auto simp: find_None_iff free_clusters_def)
  then show ?thesis using full None by (simp add: claim_cluster_def)
next
  case (Some i)
  have i: "3 \<le> i" "i < length (fat tb)" "fat tb ! i AND fat32_cluster_mask = 0" using Some by (auto simp: find_Some_iff)
  define f1 where "f1 = (if last_sect > 2 then (fat tb)[last_sect := fat tb ! last_sect OR (of_nat i AND fat32_cluster_mask)] else fat tb)"
  define f2 where "f2 = f1[i := f1 ! i OR fat32_cluster_eof]"
  have c: "claim_cluster last_sect tb = Some (i, tb\<lparr>fat := f2, fat_dirty := True\<rparr>)"
    using Some assms by (simp add: claim_cluster_def f1_def f2_def Let_def)
  have len: "length f2 = length (fat tb)" "length f1 = length (fat tb)" by (simp_all add: f2_def f1_def)
  have or: "\<exists>v. f2 ! k = fat tb ! k OR v" if "k < length (fat tb)" for k
  proof -
    have "\<exists>v. f1 ! k = fat tb ! k OR v"
      using that by (cases "k = last_sect") (auto simp: f1_def intro: exI [of _ 0])
    moreover have "\<exists>v. f2 ! k = f1 ! k OR v"
      using that len by (cases "k = i") (auto simp: f2_def intro: exI [of _ 0])
    ultimately show ?thesis by (metis or.assoc)
  qed
  have "i \<notin> free_clusters f2"
  proof
    assume "i \<in> free_clusters f2"
    then have "f2 ! i AND fat32_cluster_mask = 0" by (simp add: free_clusters_def)
    moreover have "bit (f2 ! i AND fat32_cluster_mask) 3"
      using i(2) len by (simp add: f2_def bit_and_iff bit_or_iff fat32_cluster_eof_def fat32_cluster_mask_def)
    ultimately show False by simp
  qed
  moreover have "free_clusters f2 \<subseteq> free_clusters (fat tb)"
    using or or_masked_zero len by (fastforce simp: free_clusters_def)
  moreover have "i \<in> free_clusters (fat tb)" using i by (simp add: free_clusters_def)
  ultimately show ?thesis using claimed [OF c] i len by auto
qed

lemma free_entry_from_none: "\<forall>e \<in> set es. \<not> reads_free e \<Longrightarrow> free_entry_from (map Some es) i = None"
  by (induction es arbitrary: i) auto

lemma vec_reserve_is: "vec_is v es \<Longrightarrow> length es < 2 ^ 64 \<Longrightarrow> vec_is (vec_reserve n v) es"
  using v_grow_buffer_is(1) [of v es 0] by (simp add: vec_reserve_def)

lemma finite_free_clusters [simp]: "finite (free_clusters f)"
  by (rule finite_subset [of _ "{..<length f}"]) (auto simp: free_clusters_def)

text \<open>
  Creating a file in a full directory uses up the disk.  Enlarging a directory reserves memory for its
  entries but adds none, so the search for an unused entry never finds one: it claims one cluster after the
  other for the directory until the table is full, and then fails.
\<close>

theorem fat_full_directory_exhausts_disk:
  assumes "vec_is (dir_data d) es" "length es < 2 ^ 64" "\<forall>e \<in> set es. \<not> reads_free e"
    and "covered_clusters d \<noteq> []" "last (covered_clusters d) < length (fat tb)"
    and "card (free_clusters (fat tb)) < fuel"
  shows "\<exists>d' tb'. first_unused_entry fuel g d tb = (Inl Out_of_space, d', tb') \<and> free_clusters (fat tb') = {}"
  using assms
proof (induction fuel arbitrary: d tb)
  case (Suc f)
  define d1 where "d1 = d\<lparr>dir_dirty := True\<rparr>"
  have d1: "dir_data d1 = dir_data d" "covered_clusters d1 = covered_clusters d" by (simp_all add: d1_def)
  have none: "free_entry_from (take (vlen (dir_data d1)) (vcells (dir_data d1))) 0 = None"
    using vec_isD [OF Suc.prems(1)] free_entry_from_none [OF Suc.prems(3)] d1 by simp
  have un: "first_unused_entry (Suc f) g d tb = (case expand_dir g d1 tb of
      (Some e, d2, tb2) \<Rightarrow> (Inl e, d2, tb2) | (None, d2, tb2) \<Rightarrow> first_unused_entry f g d2 tb2)"
    using none by (simp add: d1_def Let_def)
  from Suc.prems(5) show ?case
  proof (cases rule: claim_cluster_cases)
    case full
    then show ?thesis unfolding un by (simp add: expand_dir_def d1 Let_def)
  next
    case (claimed i tb')
    define d2 where "d2 = d1\<lparr>covered_clusters := covered_clusters d1 @ [i],
      dir_data := vec_reserve (vlen (dir_data d1) + fat_block_size g div 32) (dir_data d1)\<rparr>"
    have nx: "first_unused_entry (Suc f) g d tb = first_unused_entry f g d2 tb'"
      unfolding un using claimed by (simp add: expand_dir_def d1 d2_def Let_def)
    have "card (free_clusters (fat tb')) < f"
      using psubset_card_mono [OF finite_free_clusters claimed(5)] Suc.prems(6) by simp
    moreover have "vec_is (dir_data d2) es" using vec_reserve_is [OF Suc.prems(1,2)] by (simp add: d2_def d1)
    ultimately show ?thesis unfolding nx
      using Suc.prems(2,3) claimed(3) by (intro Suc.IH) (simp_all add: d2_def)
  qed
qed simp

definition kernel_entry :: dirent where
  "kernel_entry = \<lparr>filename = ''KERNEL  ELF'', attributes = 0, first_cluster_hi = 0, first_cluster_lo = 3, size_bytes = 9\<rparr>"

definition full_dir :: fat_dir where
  "full_dir = \<lparr>dir_data = \<lparr>vcells = [Some kernel_entry], vlen = 1\<rparr>, covered_clusters = [4], dir_dirty = False, dir_init = True\<rparr>"

theorem fat_full_directory_exhausts_disk_witness:
  "\<exists>d' tb'. first_unused_entry 2 (new_geometry 2 1 512 32 1) full_dir small_fat = (Inl Out_of_space, d', tb')
     \<and> free_clusters (fat tb') = {}"
proof -
  have v: "vec_is (dir_data full_dir) [kernel_entry]" by (simp add: vec_is_def vcap_def full_dir_def)
  have f: "length (fat small_fat) = 8" by (simp add: small_fat_def)
  have "free_clusters (fat small_fat) \<subseteq> {7}"
  proof
    fix i assume "i \<in> free_clusters (fat small_fat)"
    then have i: "3 \<le> i" "i < 8" "fat small_fat ! i AND fat32_cluster_mask = 0"
      by (simp_all add: free_clusters_def f)
    then consider "i = 3" | "i = 4" | "i = 5" | "i = 6" | "i = 7" by linarith
    then show "i \<in> {7}" using i(3) by cases (simp_all add: small_fat_def fat32_cluster_mask_def)
  qed
  then have "card (free_clusters (fat small_fat)) \<le> card {7 :: nat}" by (intro card_mono) simp_all
  then have c: "card (free_clusters (fat small_fat)) < 2" by simp
  have "\<not> reads_free kernel_entry" by (simp add: kernel_entry_def reads_free_def signed_char_def)
  moreover have "covered_clusters full_dir = [4]" by (simp add: full_dir_def)
  ultimately show ?thesis using fat_full_directory_exhausts_disk [OF v _ _ _ _ c, of "new_geometry 2 1 512 32 1"] f by simp
qed

end
