(* ===== verification/Net_Types.thy ===== *)
theory Net_Types
  imports Text_Numbers
begin

text \<open>
  Numbers in network byte order (\<open>__be16\<close>, \<open>__be32\<close> and \<open>__be64\<close> of \<open>common/include/kernel/kernel_defs.h\<close>),
  and the textual form of addresses: the \<open>IPV4\<close> literals of \<open>net/net_types.hpp\<close> and \<open>stringify\<close> of
  \<open>kernel/net/net_abstract.cpp\<close>.  A big-endian number is the list of its bytes; an address is the number
  it stands for.
\<close>

subsection \<open>Big-endian numbers\<close>

definition be16_put :: "u16 \<Rightarrow> u8 list" where
  "be16_put i = [ucast (drop_bit 8 i AND 0xFF), ucast (i AND 0xFF)]"

definition be16_get :: "u8 list \<Rightarrow> u16" where
  "be16_get bs = ucast (bs ! 1) OR push_bit 8 (ucast (bs ! 0))"

definition be32_put :: "u32 \<Rightarrow> u8 list" where
  "be32_put i = be16_put (ucast (drop_bit 16 i AND 0xFFFF)) @ be16_put (ucast (i AND 0xFFFF))"

definition be32_get :: "u8 list \<Rightarrow> u32" where
  "be32_get bs = ucast (be16_get (drop 2 bs)) OR push_bit 16 (ucast (be16_get bs))"

definition be64_put :: "u64 \<Rightarrow> u8 list" where
  "be64_put i = be32_put (ucast (drop_bit 32 i AND 0xFFFFFFFF)) @ be32_put (ucast (i AND 0xFFFFFFFF))"

definition be64_get :: "u8 list \<Rightarrow> u64" where
  "be64_get bs = ucast (be32_get (drop 4 bs)) OR push_bit 32 (ucast (be32_get bs))"

lemma and_low:
  "(w :: 'a :: len word) AND 0xFF = take_bit 8 w" "w AND 0xFFFF = take_bit 16 w" "w AND 0xFFFFFFFF = take_bit 32 w"
  by (simp_all add: take_bit_eq_mask mask_eq_exp_minus_1)

lemma be16_length [simp]: "length (be16_put i) = 2" "length (be32_put j) = 4" "length (be64_put k) = 8"
  by (simp_all add: be16_put_def be32_put_def be64_put_def)

lemma be16_roundtrip [simp]: "be16_get (be16_put i @ bs) = i"
proof (rule bit_eqI)
  fix n assume "possible_bit TYPE(u16) n"
  then show "bit (be16_get (be16_put i @ bs)) n = bit i n"
    by (cases "n < 8") (auto simp: be16_get_def be16_put_def and_low bit_simps)
qed

lemma be32_roundtrip [simp]: "be32_get (be32_put i @ bs) = i"
proof (rule bit_eqI)
  fix n assume n: "possible_bit TYPE(u32) n"
  have "drop 2 (be32_put i @ bs) = be16_put (ucast (i AND 0xFFFF)) @ bs" by (simp add: be32_put_def)
  then have "be32_get (be32_put i @ bs) = ucast (ucast (i AND 0xFFFF) :: u16) OR push_bit 16 (ucast (ucast (drop_bit 16 i AND 0xFFFF) :: u16))"
    by (simp add: be32_get_def) (simp add: be32_put_def)
  then show "bit (be32_get (be32_put i @ bs)) n = bit i n"
    using n by (cases "n < 16") (auto simp: and_low bit_simps)
qed

lemma be64_roundtrip [simp]: "be64_get (be64_put i @ bs) = i"
proof (rule bit_eqI)
  fix n assume n: "possible_bit TYPE(u64) n"
  have "drop 4 (be64_put i @ bs) = be32_put (ucast (i AND 0xFFFFFFFF)) @ bs" by (simp add: be64_put_def)
  then have "be64_get (be64_put i @ bs)
      = ucast (ucast (i AND 0xFFFFFFFF) :: u32) OR push_bit 32 (ucast (ucast (drop_bit 32 i AND 0xFFFFFFFF) :: u32))"
    by (simp add: be64_get_def) (simp add: be64_put_def)
  then show "bit (be64_get (be64_put i @ bs)) n = bit i n"
    using n by (cases "n < 32") (auto simp: and_low bit_simps)
qed

subsection \<open>Addresses as text\<close>

type_synonym ipv4_addr = u32

definition stringify_ip :: "ipv4_addr \<Rightarrow> string" where
  "stringify_ip ip =
     (let b = be32_put ip; dec = (\<lambda>i. to_string C_int (uint (b ! i)))
      in dec 0 @ ''.'' @ dec 1 @ ''.'' @ dec 2 @ ''.'' @ dec 3)"

definition digits_out :: "u8 \<Rightarrow> string" where
  "digits_out b = [digit_chars ! unat (drop_bit 4 b AND 0x0F), digit_chars ! unat (b AND 0x0F)]"

definition digits_in :: "u8 \<Rightarrow> string" where
  "digits_in b = [digit_chars ! unat (drop_bit 4 b AND 0x0F), digit_chars ! unat (b AND 0x0F), CHR '':'']"

definition stringify_mac :: "u8 list \<Rightarrow> string" where
  "stringify_mac mac = digits_in (mac ! 0) @ concat (map (\<lambda>i. digits_in (mac ! i)) [1..<5]) @ digits_out (mac ! 5)"

text \<open>
  The \<open>IPV4\<close> literal.  For each of the four numbers the code looks for a dot or the end within four
  characters; the digits before it are added up from the last one, in eight bits.
\<close>

fun add_digits :: "string \<Rightarrow> nat \<Rightarrow> nat \<Rightarrow> int \<Rightarrow> u8 \<Rightarrow> u8" where
  "add_digits str i 0 x v = v"
| "add_digits str i (Suc l) x v = add_digits str i l (x * 10) (v + word_of_int ((code (char_at str (i + l)) - 48) * x))"

definition octet_end :: "string \<Rightarrow> nat \<Rightarrow> nat option" where
  "octet_end str i = find (\<lambda>k. char_at str (i + k) = CHR ''.'' \<or> char_at str (i + k) = CHR 0x00) [0..<4]"

fun ipv4_octets :: "string \<Rightarrow> nat \<Rightarrow> nat \<Rightarrow> u8 list" where
  "ipv4_octets str i 0 = []"
| "ipv4_octets str i (Suc j) =
     (case octet_end str i of
        Some k \<Rightarrow> add_digits str i k 1 0 # ipv4_octets str (i + k + 1) j
      | None \<Rightarrow> 0 # ipv4_octets str (i + 4 + 1) j)"

definition ipv4_literal :: "string \<Rightarrow> ipv4_addr" where
  "ipv4_literal str = be32_get (ipv4_octets str 0 4)"

text \<open>The state of the address configuration and what it holds.\<close>

datatype ipv4_client_state = REBOOT | INIT | SELECTING | BOUND | RENEWING | REBINDING

record ipv4_config =
  primary_gateway :: ipv4_addr
  primary_dns_server :: ipv4_addr
  alternate_gateway :: ipv4_addr
  alternate_dns_server :: ipv4_addr
  dhcp_server_addr :: ipv4_addr
  leased_addr :: ipv4_addr
  subnet_mask :: ipv4_addr
  lease_acquired_time :: nat
  lease_duration :: u32
  lease_renew_time :: u32
  lease_rebind_time :: u32
  time_to_live_default :: u8
  time_to_live_tcp_default :: u8
  current_state :: ipv4_client_state

text \<open>The configuration \<open>protocol_dhcp::reset\<close> starts from.\<close>

definition reset_config :: ipv4_config where
  "reset_config = \<lparr>primary_gateway = 0, primary_dns_server = 0, alternate_gateway = 0, alternate_dns_server = 0,
     dhcp_server_addr = 0, leased_addr = 0, subnet_mask = 0, lease_acquired_time = 0, lease_duration = 0,
     lease_renew_time = 0, lease_rebind_time = 0, time_to_live_default = 0x40, time_to_live_tcp_default = 0x40,
     current_state = INIT\<rparr>"

lemma digit_code: "0 \<le> v \<Longrightarrow> v < 10 \<Longrightarrow> code (digit_chars ! nat v) - 48 = v"
proof -
  assume "0 \<le> v" "v < 10"
  then have "v \<in> set [0..9]" by simp
  then consider "v = 0" | "v = 1" | "v = 2" | "v = 3" | "v = 4" | "v = 5" | "v = 6" | "v = 7" | "v = 8" | "v = 9"
    by (fastforce simp: upto.simps simp del: set_upto)
  then show ?thesis by cases (simp_all add: digit_chars_def)
qed

definition decimals :: "int \<Rightarrow> nat \<Rightarrow> string" where
  "decimals j k = map (\<lambda>n. digit_chars ! nat (j div 10 ^ n mod 10)) (rev [0..<k])"

lemma decimals_length [simp]: "length (decimals j k) = k"
  by (simp add: decimals_def)

lemma decimals_nth: "p < k \<Longrightarrow> decimals j k ! p = digit_chars ! nat (j div 10 ^ (k - 1 - p) mod 10)"
  by (simp add: decimals_def rev_nth)

lemma decimals_plain: "0 \<le> j \<Longrightarrow> p < k \<Longrightarrow> decimals j k ! p \<noteq> CHR ''.'' \<and> decimals j k ! p \<noteq> CHR 0x00"
proof -
  assume "0 \<le> j" "p < k"
  let ?v = "j div 10 ^ (k - 1 - p) mod 10"
  have "code (digit_chars ! nat ?v) - 48 = ?v" by (rule digit_code) simp_all
  moreover have "0 \<le> ?v" by simp
  ultimately have "48 \<le> code (decimals j k ! p)" using \<open>p < k\<close> by (simp add: decimals_nth)
  then show ?thesis by auto
qed

lemma small_has_abs: "0 \<le> x \<Longrightarrow> x < 256 \<Longrightarrow> has_abs C_int x"
  by (simp add: has_abs_def in_type_def)

text \<open>A byte is written as one to three digits.\<close>

lemma byte_decimals:
  obtains k where "0 < k" "k \<le> 3" "uint (b :: u8) < 10 ^ k" "to_string C_int (uint b) = decimals (uint b) k"
proof (cases "b = 0")
  case True
  then show ?thesis by (intro that [of 1]) (simp_all add: to_string_def decimals_def)
next
  case False
  have b: "0 \<le> uint b" "uint b < 256" using uint_bounded [of b] by simp_all
  have ha: "has_abs C_int (uint b)" using b by (rule small_has_abs)
  have nz: "uint b \<noteq> 0" using False by (simp add: uint_0_iff)
  obtain k where k: "0 < k" "10 ^ (k - 1) \<le> \<bar>uint b\<bar>" "\<bar>uint b\<bar> < 10 ^ k"
      "to_string C_int (uint b) = (if uint b < 0 then ''-'' else []) @ map (\<lambda>n. digit_chars ! nat (\<bar>uint b\<bar> div 10 ^ n mod 10)) (rev [0..<k])"
    using to_string_digits [OF ha nz] .
  have "k \<le> 3"
  proof (rule ccontr)
    assume "\<not> k \<le> 3"
    then have "(10 :: int) ^ 3 \<le> 10 ^ (k - 1)" by (intro power_increasing) simp_all
    then show False using k(2) b by simp
  qed
  then show ?thesis using k by (intro that [of k]) (simp_all add: decimals_def)
qed

lemma add_digits_decimals:
  assumes "\<And>p. p < k \<Longrightarrow> char_at str (i + p) = decimals j k ! p" "l \<le> k"
  shows "add_digits str i l (10 ^ (k - l)) v = v + word_of_int (j mod 10 ^ k - j mod 10 ^ (k - l))"
  using assms(2)
proof (induction l arbitrary: v)
  case (Suc l)
  let ?m = "k - Suc l"
  let ?d = "j div 10 ^ ?m mod 10"
  have m: "k - l = Suc ?m" "k - 1 - l = ?m" using Suc.prems by simp_all
  have d: "code (char_at str (i + l)) - 48 = ?d"
    using assms(1) [of l] Suc.prems digit_code [of ?d] by (simp add: decimals_nth m)
  have s: "j mod 10 ^ Suc ?m = 10 ^ ?m * ?d + j mod 10 ^ ?m"
    using zmod_zmult2_eq [of 10 j "10 ^ ?m"] by (simp add: mult.commute)
  have "add_digits str i (Suc l) (10 ^ ?m) v = add_digits str i l (10 ^ (k - l)) (v + word_of_int (?d * 10 ^ ?m))"
    by (simp add: d m(1) mult.commute)
  also have "\<dots> = v + word_of_int (?d * 10 ^ ?m) + word_of_int (j mod 10 ^ k - j mod 10 ^ (k - l))"
    using Suc by simp
  also have "\<dots> = v + word_of_int (?d * 10 ^ ?m + (j mod 10 ^ k - j mod 10 ^ (k - l)))" by (simp add: add.assoc)
  also have "?d * 10 ^ ?m + (j mod 10 ^ k - j mod 10 ^ (k - l)) = j mod 10 ^ k - j mod 10 ^ ?m"
    unfolding m(1) s by simp
  finally show ?case .
qed simp

lemma octet_read:
  assumes "str = pre @ to_string C_int (uint b) @ rest" "rest = [] \<or> hd rest = CHR ''.''"
  shows "ipv4_octets str (length pre) (Suc j) = b # ipv4_octets str (length (pre @ to_string C_int (uint b)) + 1) j"
proof -
  obtain k where k: "0 < k" "k \<le> 3" "uint b < 10 ^ k" "to_string C_int (uint b) = decimals (uint b) k" using byte_decimals .
  have c: "char_at str (length pre + p) = decimals (uint b) k ! p" if "p < k" for p
    using that by (simp add: assms(1) k(4) char_at_def nth_append)
  have e: "char_at str (length pre + k) = CHR ''.'' \<or> char_at str (length pre + k) = CHR 0x00"
    using assms(2) by (cases rest) (auto simp: assms(1) k(4) char_at_def nth_append)
  have "octet_end str (length pre) = Some k"
    unfolding octet_end_def find_Some_iff
    using k(2) e c decimals_plain [of "uint b" _ k] by (intro exI [of _ k]) auto
  moreover have "add_digits str (length pre) k 1 0 = b"
    using add_digits_decimals [of k str "length pre" "uint b" k 0] c k(3) by simp
  ultimately show ?thesis using k(4) by simp
qed

text \<open>
  C28. Addresses survive their text: for every one of the \<open>2 ^ 32\<close> addresses, the literal with the text that
  \<open>stringify\<close> gives is the address.
\<close>

theorem ipv4_text_roundtrip: "ipv4_literal (stringify_ip ip) = ip"
proof -
  obtain a b c d where bs: "be32_put ip = [a, b, c, d]"
    by (auto simp: be32_put_def be16_put_def)
  define s where "s = stringify_ip ip"
  let ?t = "\<lambda>x :: u8. to_string C_int (uint x)"
  have s: "s = [] @ ?t a @ (''.'' @ ?t b @ ''.'' @ ?t c @ ''.'' @ ?t d)"
      "s = (?t a @ ''.'') @ ?t b @ (''.'' @ ?t c @ ''.'' @ ?t d)"
      "s = (?t a @ ''.'' @ ?t b @ ''.'') @ ?t c @ (''.'' @ ?t d)"
      "s = (?t a @ ''.'' @ ?t b @ ''.'' @ ?t c @ ''.'') @ ?t d @ []"
    by (simp_all add: s_def stringify_ip_def bs)
  have "ipv4_octets s 0 4 = [a, b, c, d]"
    using octet_read [OF s(1), of 3] octet_read [OF s(2), of 2] octet_read [OF s(3), of 1] octet_read [OF s(4), of 0]
    by (simp add: numeral_eq_Suc)
  then show ?thesis using be32_roundtrip [of ip "[]"] bs by (simp add: ipv4_literal_def s_def)
qed

end
