(* ===== verification/Packets.thy ===== *)
theory Packets
  imports Net_Types
begin

text \<open>
  Frames and the lower layers of the network stack: the header checksum of \<open>net/protocol/ipv4.hpp\<close>, the
  datagram checksum of \<open>kernel/net/protocol/udp.cpp\<close>, and the way down and up through UDP, IPv4 and Ethernet
  (\<open>udp.cpp\<close>, \<open>ipv4.cpp\<close>, \<open>net_abstract.cpp\<close>).  A frame is the list of its bytes; the fields of the packed
  headers are at their offsets: Ethernet at 0, IPv4 at 14, UDP at 34.  Handlers are functions from frames to
  error codes.  Sums are natural numbers reduced to 32 bits.
\<close>

abbreviation (input) EPIPE :: int where "EPIPE \<equiv> 32"
abbreviation (input) EPROTO :: int where "EPROTO \<equiv> 71"
abbreviation (input) EPROTOTYPE :: int where "EPROTOTYPE \<equiv> 107"
abbreviation (input) EPROTONOSUPPORT :: int where "EPROTONOSUPPORT \<equiv> 123"

subsection \<open>Fields\<close>

definition be16_at :: "u8 list \<Rightarrow> nat \<Rightarrow> nat" where
  "be16_at pkt off = unat (be16_get [pkt ! off, pkt ! (off + 1)])"

definition put16 :: "nat \<Rightarrow> nat \<Rightarrow> u8 list \<Rightarrow> u8 list" where
  "put16 off v pkt = (let b = be16_put (of_nat v) in pkt[off := b ! 0, off + 1 := b ! 1])"

subsection \<open>Checksums\<close>

fun sum_words :: "u8 list \<Rightarrow> nat \<Rightarrow> nat \<Rightarrow> nat \<Rightarrow> nat" where
  "sum_words pkt off 0 acc = acc"
| "sum_words pkt off (Suc n) acc = sum_words pkt (off + 2) n ((acc + be16_at pkt off) mod 2 ^ 32)"

definition fold_sum :: "nat \<Rightarrow> nat" where
  "fold_sum c = c div 65536 + c mod 65536"

definition complement16 :: "nat \<Rightarrow> nat" where
  "complement16 c = 65535 - c mod 65536"

definition compute_ipv4_csum :: "u8 list \<Rightarrow> u8 list" where
  "compute_ipv4_csum pkt =
     (let p0 = put16 24 0 pkt; c = fold_sum (fold_sum (sum_words p0 14 10 0)) in put16 24 (complement16 c) p0)"

definition verify_ipv4_csum :: "u8 list \<Rightarrow> bool" where
  "verify_ipv4_csum pkt \<longleftrightarrow> complement16 (fold_sum (fold_sum (sum_words pkt 14 10 0))) = 0"

text \<open>
  The sum both UDP routines form: the addresses, the protocol, the length, for an odd length one more byte,
  and the words of the datagram.
\<close>

definition udp_sum :: "u8 list \<Rightarrow> nat" where
  "udp_sum pkt =
     (let len = be16_at pkt 38;
          c = fold (\<lambda>v c. (c + v) mod 2 ^ 32)
                [be16_at pkt 26, be16_at pkt 28, be16_at pkt 30, be16_at pkt 32, unat (pkt ! 23), len] 0;
          c1 = (if len mod 2 \<noteq> 0 then (c + unat (pkt ! (len - 1))) mod 2 ^ 32 else c)
      in sum_words pkt 34 (len div 2) c1)"

definition compute_udp_csum :: "u8 list \<Rightarrow> u8 list" where
  "compute_udp_csum pkt =
     (let p0 = put16 40 0 pkt in put16 40 (complement16 (fold_sum (fold_sum (udp_sum p0)))) p0)"

definition verify_udp_csum :: "u8 list \<Rightarrow> bool" where
  "verify_udp_csum pkt \<longleftrightarrow> complement16 (fold_sum (fold_sum (udp_sum pkt))) = 0"

subsection \<open>The layers\<close>

type_synonym handler = "u8 list \<Rightarrow> int"

definition ethernet_receive :: "(nat \<rightharpoonup> handler) \<Rightarrow> handler" where
  "ethernet_receive handlers pkt =
     (case handlers (be16_at pkt 12) of Some h \<Rightarrow> h pkt | None \<Rightarrow> - EPROTONOSUPPORT)"

text \<open>The choice of the time to live compares the Ethernet protocol with the number of TCP.\<close>

definition ipv4_stamp :: "ipv4_config \<Rightarrow> u8 list \<Rightarrow> u8 list" where
  "ipv4_stamp cfg pkt =
     (let ttl = (if be16_at pkt 12 = 6 then time_to_live_tcp_default cfg else time_to_live_default cfg);
          p1 = pkt[22 := ttl];
          p2 = put16 16 ((length pkt - 14) mod 65536) p1
      in compute_ipv4_csum p2)"

definition ipv4_transmit :: "ipv4_config \<Rightarrow> handler \<Rightarrow> handler" where
  "ipv4_transmit cfg nxt pkt = nxt (ipv4_stamp cfg pkt)"

definition ipv4_receive :: "(nat \<rightharpoonup> handler) \<Rightarrow> handler" where
  "ipv4_receive transports pkt =
     (if unat (pkt ! 14) mod 16 \<noteq> 5 then - EPROTOTYPE
      else if \<not> verify_ipv4_csum pkt then - EPROTO
      else (case transports (unat (pkt ! 23)) of Some h \<Rightarrow> h pkt | None \<Rightarrow> - EPROTONOSUPPORT))"

definition udp_transmit :: "handler \<Rightarrow> handler" where
  "udp_transmit nxt pkt = nxt (compute_udp_csum (put16 38 ((length pkt - 34) mod 65536) pkt))"

definition udp_receive :: "(nat \<rightharpoonup> handler) \<Rightarrow> handler" where
  "udp_receive ports pkt =
     (if \<not> verify_udp_csum pkt then - EPROTO
      else (case ports (be16_at pkt 36) of Some h \<Rightarrow> h pkt | None \<Rightarrow> - EPIPE))"

subsection \<open>Facts on fields\<close>

lemma be16_at_lt [simp]: "be16_at pkt off < 65536"
  using unsigned_less [of "be16_get [pkt ! off, pkt ! (off + 1)]"] by (simp add: be16_at_def)

lemma length_put16 [simp]: "length (put16 off v pkt) = length pkt"
  by (simp add: put16_def Let_def)

lemma put16_nth [simp]: "i \<noteq> off \<Longrightarrow> i \<noteq> off + 1 \<Longrightarrow> put16 off v pkt ! i = pkt ! i"
  by (simp add: put16_def Let_def)

lemma be16_at_put16 [simp]: "off + 1 < length pkt \<Longrightarrow> v < 65536 \<Longrightarrow> be16_at (put16 off v pkt) off = v"
  using be16_roundtrip [of "of_nat v" "[]"]
  by (simp add: be16_at_def put16_def be16_put_def Let_def unsigned_of_nat take_bit_nat_eq_self)

lemma be16_at_put16_other [simp]:
  "i + 1 < off \<or> off + 1 < i \<Longrightarrow> be16_at (put16 off v pkt) i = be16_at pkt i"
  by (auto simp: be16_at_def)

lemma be16_at_update_other [simp]: "i \<noteq> off \<Longrightarrow> i + 1 \<noteq> off \<Longrightarrow> be16_at (pkt[off := b]) i = be16_at pkt i"
  by (simp add: be16_at_def)

definition words_sum :: "u8 list \<Rightarrow> nat \<Rightarrow> nat \<Rightarrow> nat" where
  "words_sum pkt off n = (\<Sum>i<n. be16_at pkt (off + 2 * i))"

lemma words_sum_Suc: "words_sum pkt off (Suc n) = be16_at pkt off + words_sum pkt (off + 2) n"
  unfolding words_sum_def by (subst sum.lessThan_Suc_shift) (simp add: algebra_simps)

lemma words_sum_le: "words_sum pkt off n \<le> n * 65535"
  unfolding words_sum_def using sum_bounded_above [of "{..<n}" "\<lambda>i. be16_at pkt (off + 2 * i)" 65535] be16_at_lt
  by (simp add: less_Suc_eq_le [symmetric])

lemma sum_words_exact: "acc + words_sum pkt off n < 2 ^ 32 \<Longrightarrow> sum_words pkt off n acc = acc + words_sum pkt off n"
proof (induction n arbitrary: off acc)
  case 0
  then show ?case by (simp add: words_sum_def)
next
  case (Suc n)
  have "acc + be16_at pkt off + words_sum pkt (off + 2) n < 2 ^ 32" using Suc.prems by (simp add: words_sum_Suc add.assoc)
  moreover from this have "(acc + be16_at pkt off) mod 2 ^ 32 = acc + be16_at pkt off" by simp
  ultimately show ?case using Suc.IH [of "acc + be16_at pkt off" "off + 2"] by (simp add: words_sum_Suc)
qed

lemma words_sum_put16:
  assumes "k < n" "off + 2 * k + 1 < length pkt" "v < 65536"
  shows "words_sum (put16 (off + 2 * k) v pkt) off n + be16_at pkt (off + 2 * k) = words_sum pkt off n + v"
proof -
  have "words_sum q off n = be16_at q (off + 2 * k) + (\<Sum>i \<in> {..<n} - {k}. be16_at q (off + 2 * i))" for q
    unfolding words_sum_def by (rule sum.remove) (use assms in auto)
  moreover have "(\<Sum>i \<in> {..<n} - {k}. be16_at (put16 (off + 2 * k) v pkt) (off + 2 * i)) = (\<Sum>i \<in> {..<n} - {k}. be16_at pkt (off + 2 * i))"
    by (rule sum.cong) (auto intro!: be16_at_put16_other)
  ultimately show ?thesis using assms by simp
qed

lemma words_sum_cong: "(\<And>i. off \<le> i \<Longrightarrow> i < off + 2 * n \<Longrightarrow> p ! i = q ! i) \<Longrightarrow> words_sum p off n = words_sum q off n"
  unfolding words_sum_def be16_at_def by (rule sum.cong) auto

subsection \<open>One's complement sums\<close>

lemma fold_sum_mod: "fold_sum c mod 65535 = c mod 65535"
proof -
  have "c = 65536 * (c div 65536) + c mod 65536" by simp
  also have "\<dots> = fold_sum c + 65535 * (c div 65536)" by (simp add: fold_sum_def)
  finally show ?thesis by (metis mod_mult_self2)
qed

lemma fold_sum_zero: "fold_sum c = 0 \<longleftrightarrow> c = 0"
  by (auto simp: fold_sum_def div_eq_0_iff)

lemma fold_twice:
  assumes "c < 2 ^ 32"
  shows "fold_sum (fold_sum c) \<le> 65535" "fold_sum (fold_sum c) mod 65535 = c mod 65535" "fold_sum (fold_sum c) = 0 \<longleftrightarrow> c = 0"
proof -
  have "c div 65536 < 65536" "c mod 65536 < 65536" using assms by (simp_all add: less_mult_imp_div_less)
  then have f: "fold_sum c < 2 * 65536 - 1" unfolding fold_sum_def by linarith
  show "fold_sum (fold_sum c) \<le> 65535"
  proof (cases "fold_sum c < 65536")
    case True
    then show ?thesis by (simp add: fold_sum_def [of "fold_sum c"])
  next
    case False
    then have "fold_sum c div 65536 = 1" "fold_sum c mod 65536 = fold_sum c - 65536" using f by (simp_all add: div_nat_eqI mod_if)
    then show ?thesis using f by (simp add: fold_sum_def [of "fold_sum c"])
  qed
  show "fold_sum (fold_sum c) mod 65535 = c mod 65535" by (simp add: fold_sum_mod)
  show "fold_sum (fold_sum c) = 0 \<longleftrightarrow> c = 0" by (simp add: fold_sum_zero)
qed

text \<open>A sum is accepted when it is a multiple of \<open>65535\<close> other than zero.\<close>

lemma csum_ok: "c < 2 ^ 32 \<Longrightarrow> complement16 (fold_sum (fold_sum c)) = 0 \<longleftrightarrow> 0 < c \<and> 65535 dvd c"
proof -
  assume c: "c < 2 ^ 32"
  let ?f = "fold_sum (fold_sum c)"
  have "complement16 ?f = 0 \<longleftrightarrow> ?f = 65535" using fold_twice(1) [OF c] by (auto simp: complement16_def)
  also have "\<dots> \<longleftrightarrow> ?f \<noteq> 0 \<and> ?f mod 65535 = 0" using fold_twice(1) [OF c] by (auto simp: mod_eq_0_iff_dvd elim!: dvdE)
  finally show ?thesis using fold_twice(2,3) [OF c] by (auto simp: mod_eq_0_iff_dvd)
qed

lemma csum_completes:
  assumes "c < 2 ^ 32"
  shows "0 < c + complement16 (fold_sum (fold_sum c))" "65535 dvd c + complement16 (fold_sum (fold_sum c))"
    "complement16 (fold_sum (fold_sum c)) < 65536"
proof -
  let ?f = "fold_sum (fold_sum c)"
  have f: "?f \<le> 65535" "?f mod 65535 = c mod 65535" using fold_twice [OF assms] by simp_all
  have e: "complement16 ?f = 65535 - ?f" using f(1) by (simp add: complement16_def)
  have "(c + (65535 - ?f)) mod 65535 = (c mod 65535 + (65535 - ?f)) mod 65535" by (simp add: mod_simps)
  also have "\<dots> = (?f + (65535 - ?f)) mod 65535" unfolding f(2) [symmetric] by (simp add: mod_simps)
  also have "\<dots> = 0" using f(1) by simp
  finally show "65535 dvd c + complement16 ?f" unfolding e by (simp add: mod_eq_0_iff_dvd)
  show "0 < c + complement16 ?f"
  proof (cases "c = 0")
    case True
    then show ?thesis by (simp add: complement16_def fold_sum_def)
  qed simp
  show "complement16 ?f < 65536" by (simp add: complement16_def)
qed

subsection \<open>The header checksum\<close>

lemma ipv4_sum: "sum_words pkt 14 10 0 = words_sum pkt 14 10" "words_sum pkt 14 10 < 2 ^ 32"
  using words_sum_le [of pkt 14 10] by (simp_all add: sum_words_exact)

lemma verify_ipv4_iff: "verify_ipv4_csum pkt \<longleftrightarrow> 0 < words_sum pkt 14 10 \<and> 65535 dvd words_sum pkt 14 10"
  unfolding verify_ipv4_csum_def ipv4_sum(1) by (rule csum_ok [OF ipv4_sum(2)])

lemma ipv4_csum_valid: "34 \<le> length pkt \<Longrightarrow> verify_ipv4_csum (compute_ipv4_csum pkt)"
proof -
  assume len: "34 \<le> length pkt"
  define p0 where "p0 = put16 24 0 pkt"
  define c where "c = complement16 (fold_sum (fold_sum (words_sum p0 14 10)))"
  have c: "0 < words_sum p0 14 10 + c" "65535 dvd words_sum p0 14 10 + c" "c < 65536"
    using csum_completes [OF ipv4_sum(2) [of p0]] by (simp_all add: c_def)
  have "words_sum (put16 24 c p0) 14 10 + be16_at p0 24 = words_sum p0 14 10 + c"
    using words_sum_put16 [of 5 10 14 p0 c] len c(3) by (simp add: p0_def)
  then have "words_sum (put16 24 c p0) 14 10 = words_sum p0 14 10 + c" using len by (simp add: p0_def)
  then show ?thesis using c unfolding verify_ipv4_iff by (simp add: compute_ipv4_csum_def p0_def [symmetric] ipv4_sum c_def Let_def)
qed

text \<open>
  C29. The header checksum finds every change of one 16-bit word of an IPv4 header, except for a change between
  0 and \<open>0xFFFF\<close>, which stand for the same number: a frame that verifies no longer does.
\<close>

theorem ipv4_checksum_detects:
  assumes "34 \<le> length pkt" "verify_ipv4_csum pkt" "k < 10" "v < 65536" "v \<noteq> be16_at pkt (14 + 2 * k)"
    and "{v, be16_at pkt (14 + 2 * k)} \<noteq> {0, 65535}"
  shows "\<not> verify_ipv4_csum (put16 (14 + 2 * k) v pkt)"
proof
  assume v: "verify_ipv4_csum (put16 (14 + 2 * k) v pkt)"
  let ?w = "be16_at pkt (14 + 2 * k)"
  obtain a b where ab: "words_sum pkt 14 10 = 65535 * a" "words_sum (put16 (14 + 2 * k) v pkt) 14 10 = 65535 * b"
    using assms(2) v unfolding verify_ipv4_iff by (auto elim!: dvdE)
  have s: "65535 * b + ?w = 65535 * a + v" using words_sum_put16 [of k 10 14 pkt v] assms ab by simp
  have w: "?w < 65536" by simp
  have "?w = v \<or> (?w = 0 \<and> v = 65535) \<or> (?w = 65535 \<and> v = 0)"
  proof (cases a b rule: linorder_cases)
    case less
    then obtain e where "b = a + 1 + e" using less_iff_Suc_add by auto
    then show ?thesis using s w assms(4) by simp
  next
    case greater
    then obtain e where "a = b + 1 + e" using less_iff_Suc_add by auto
    then show ?thesis using s w assms(4) by simp
  qed (use s in simp)
  then show False using assms(5,6) by (auto simp: insert_commute)
qed

theorem ipv4_checksum_detects_witness: "\<not> verify_ipv4_csum (put16 16 5 (compute_ipv4_csum (replicate 34 0)))"
proof -
  let ?p = "compute_ipv4_csum (replicate 34 0)"
  have "be16_at ?p 16 = 0" by (simp add: compute_ipv4_csum_def Let_def) (simp add: be16_at_def be16_get_def)
  moreover have "verify_ipv4_csum ?p" by (rule ipv4_csum_valid) simp
  moreover have "length ?p = 34" by (simp add: compute_ipv4_csum_def Let_def)
  ultimately show ?thesis using ipv4_checksum_detects [of ?p 1 5] by (simp add: doubleton_eq_iff)
qed

subsection \<open>The datagram checksum\<close>

definition pseudo_sum :: "u8 list \<Rightarrow> nat" where
  "pseudo_sum pkt = be16_at pkt 26 + be16_at pkt 28 + be16_at pkt 30 + be16_at pkt 32 + unat (pkt ! 23) + be16_at pkt 38"

lemma pseudo_sum_le: "pseudo_sum pkt \<le> 5 * 65535 + 255"
  using be16_at_lt [of pkt 26] be16_at_lt [of pkt 28] be16_at_lt [of pkt 30] be16_at_lt [of pkt 32] be16_at_lt [of pkt 38]
    unsigned_less [of "pkt ! 23", where ?'a = nat] unfolding pseudo_sum_def by (simp del: be16_at_lt)

lemma udp_total_lt: "pseudo_sum pkt + words_sum pkt 34 (be16_at pkt 38 div 2) < 2 ^ 32"
proof -
  have "be16_at pkt 38 div 2 \<le> 32767" using be16_at_lt [of pkt 38] by linarith
  then have "words_sum pkt 34 (be16_at pkt 38 div 2) \<le> 32767 * 65535"
    using words_sum_le [of pkt 34 "be16_at pkt 38 div 2"] by (meson mult_le_mono1 order.trans)
  then show ?thesis using pseudo_sum_le [of pkt] by simp
qed

lemma udp_sum_even:
  assumes "even (be16_at pkt 38)"
  shows "udp_sum pkt = pseudo_sum pkt + words_sum pkt 34 (be16_at pkt 38 div 2)"
proof -
  have "fold (\<lambda>v c. (c + v) mod 2 ^ 32)
      [be16_at pkt 26, be16_at pkt 28, be16_at pkt 30, be16_at pkt 32, unat (pkt ! 23), be16_at pkt 38] 0 = pseudo_sum pkt mod 2 ^ 32"
    by (simp add: pseudo_sum_def mod_simps)
  also have "\<dots> = pseudo_sum pkt" using pseudo_sum_le [of pkt] by simp
  finally have f: "fold (\<lambda>v c. (c + v) mod 2 ^ 32)
      [be16_at pkt 26, be16_at pkt 28, be16_at pkt 30, be16_at pkt 32, unat (pkt ! 23), be16_at pkt 38] 0 = pseudo_sum pkt" .
  have "be16_at pkt 38 mod 2 = 0" using assms by presburger
  then show ?thesis unfolding udp_sum_def Let_def f by (simp add: sum_words_exact [OF udp_total_lt [of pkt]])
qed

lemma verify_udp_even:
  "even (be16_at pkt 38) \<Longrightarrow> verify_udp_csum pkt \<longleftrightarrow> 0 < udp_sum pkt \<and> 65535 dvd udp_sum pkt"
  using udp_total_lt [of pkt] csum_ok [of "udp_sum pkt"] by (simp add: verify_udp_csum_def udp_sum_even)

lemma udp_csum_valid:
  assumes "42 \<le> length pkt" "even (be16_at pkt 38)" "8 \<le> be16_at pkt 38"
  shows "verify_udp_csum (compute_udp_csum pkt)"
proof -
  define p0 where "p0 = put16 40 0 pkt"
  define c where "c = complement16 (fold_sum (fold_sum (udp_sum p0)))"
  let ?n = "be16_at pkt 38 div 2"
  have p0: "be16_at p0 38 = be16_at pkt 38" "be16_at p0 40 = 0" "length p0 = length pkt" using assms by (simp_all add: p0_def)
  have u: "udp_sum p0 < 2 ^ 32" using udp_total_lt [of p0] assms p0 by (simp add: udp_sum_even)
  have c: "0 < udp_sum p0 + c" "65535 dvd udp_sum p0 + c" "c < 65536" using csum_completes [OF u] by (simp_all add: c_def)
  have "words_sum (put16 40 c p0) 34 ?n = words_sum p0 34 ?n + c"
    using words_sum_put16 [of 3 ?n 34 p0 c] assms p0 c(3) by simp
  moreover have "pseudo_sum (put16 40 c p0) = pseudo_sum p0" by (simp add: pseudo_sum_def)
  moreover have l: "be16_at (put16 40 c p0) 38 = be16_at pkt 38" by (simp add: p0)
  ultimately have "udp_sum (put16 40 c p0) = udp_sum p0 + c" using assms p0 by (simp add: udp_sum_even)
  then show ?thesis using c l assms(2) verify_udp_even [of "put16 40 c p0"]
    by (simp add: compute_udp_csum_def p0_def [symmetric] c_def [symmetric] Let_def)
qed

lemma verify_udp_cong:
  assumes "\<And>i. i = 23 \<or> 26 \<le> i \<Longrightarrow> p ! i = q ! i" "even (be16_at q 38)"
  shows "verify_udp_csum p = verify_udp_csum q"
proof -
  have e: "be16_at p i = be16_at q i" if "26 \<le> i" for i using that assms(1) by (simp add: be16_at_def)
  have "words_sum p 34 n = words_sum q 34 n" for n by (rule words_sum_cong) (use assms(1) in auto)
  then have "udp_sum p = udp_sum q" using assms e by (simp add: udp_sum_even pseudo_sum_def)
  then show ?thesis by (simp add: verify_udp_csum_def)
qed

subsection \<open>Down and up the stack\<close>

text \<open>
  C30. A datagram reaches its port: a UDP frame with an even number of bytes that is sent through UDP and IPv4
  and received by a stack with handlers for the three layers is given to the handler of its destination port,
  unchanged except for the lengths, the time to live and the checksums the layers fill in.
\<close>

theorem udp_stack_delivers:
  assumes "42 \<le> length pkt" "length pkt - 14 < 65536" "even (length pkt)"
    and "unat (pkt ! 14) mod 16 = 5" "unat (pkt ! 23) = 17" "be16_at pkt 12 = 0x0800"
    and "eth 0x0800 = Some (ipv4_receive transports)" "transports 17 = Some (udp_receive ports)" "ports (be16_at pkt 36) = Some h"
  shows "\<exists>pkt'. udp_transmit (ipv4_transmit cfg (ethernet_receive eth)) pkt = h pkt' \<and> length pkt' = length pkt
    \<and> (\<forall>i. i \<notin> {16, 17, 22, 24, 25, 38, 39, 40, 41} \<longrightarrow> pkt' ! i = pkt ! i)"
proof -
  define p1 where "p1 = put16 38 (length pkt - 34) pkt"
  define p2 where "p2 = compute_udp_csum p1"
  define p3 where "p3 = put16 16 (length pkt - 14) (p2[22 := time_to_live_default cfg])"
  define p4 where "p4 = compute_ipv4_csum p3"
  have len: "length p1 = length pkt" "length p2 = length pkt" "length p3 = length pkt" "length p4 = length pkt"
    by (simp_all add: p1_def p2_def p3_def p4_def compute_udp_csum_def compute_ipv4_csum_def Let_def)
  have p2n: "p2 ! i = p1 ! i" if "i \<notin> {40, 41}" for i using that by (simp add: p2_def compute_udp_csum_def Let_def)
  have p4n: "p4 ! i = p2 ! i" if "i \<notin> {16, 17, 22, 24, 25}" for i
    using that by (simp add: p4_def p3_def compute_ipv4_csum_def Let_def)
  have keep: "p4 ! i = pkt ! i" if "i \<notin> {16, 17, 22, 24, 25, 38, 39, 40, 41}" for i
    using that by (simp add: p4n p2n) (simp add: p1_def)
  have l38: "be16_at p1 38 = length pkt - 34" using assms by (simp add: p1_def)
  then have l2: "be16_at p2 38 = length pkt - 34" using p2n by (simp add: be16_at_def)
  have ev: "even (length pkt - 34)" using assms(1,3) by simp
  have "verify_udp_csum p2" unfolding p2_def by (rule udp_csum_valid) (use assms(1) l38 len ev in simp_all)
  moreover have "verify_udp_csum p4 = verify_udp_csum p2" by (rule verify_udp_cong) (use p4n l2 ev in auto)
  ultimately have v: "verify_udp_csum p4" by simp
  have w: "verify_ipv4_csum p4" unfolding p4_def by (rule ipv4_csum_valid) (use assms(1) len in simp)
  have f: "be16_at p4 12 = 0x0800" "be16_at p4 36 = be16_at pkt 36" "p4 ! 14 = pkt ! 14" "p4 ! 23 = pkt ! 23"
    using keep assms(6) by (simp_all add: be16_at_def)
  have g: "be16_at p2 12 = 0x0800" using p2n assms(6) by (simp add: be16_at_def p1_def)
  have "udp_transmit (ipv4_transmit cfg (ethernet_receive eth)) pkt = ethernet_receive eth p4"
    using assms(2) g len by (simp add: udp_transmit_def ipv4_transmit_def ipv4_stamp_def p4_def p3_def p2_def p1_def Let_def)
  also have "\<dots> = h p4"
    using assms f v w by (simp add: ethernet_receive_def ipv4_receive_def udp_receive_def)
  finally show ?thesis using keep len by blast
qed

definition sample_datagram :: "u8 list" where
  "sample_datagram = (replicate 44 0)[12 := 0x08, 14 := 0x45, 23 := 17, 37 := 67]"

theorem udp_stack_delivers_witness:
  "udp_transmit (ipv4_transmit reset_config (ethernet_receive
     [0x0800 \<mapsto> ipv4_receive [17 \<mapsto> udp_receive [67 \<mapsto> (\<lambda>p. int (length p))]]])) sample_datagram = 44"
proof -
  have d: "length sample_datagram = 44" "be16_at sample_datagram 12 = 0x0800" "be16_at sample_datagram 36 = 67"
    by (simp_all add: sample_datagram_def be16_at_def be16_get_def)
  have "unat (sample_datagram ! 14) mod 16 = 5" "unat (sample_datagram ! 23) = 17" by (simp_all add: sample_datagram_def)
  with udp_stack_delivers [of sample_datagram "[0x0800 \<mapsto> ipv4_receive [17 \<mapsto> udp_receive [67 \<mapsto> (\<lambda>p. int (length p))]]]"
      "[17 \<mapsto> udp_receive [67 \<mapsto> (\<lambda>p. int (length p))]]" "[67 \<mapsto> (\<lambda>p. int (length p))]" "\<lambda>p. int (length p)" reset_config]
  show ?thesis by (auto simp: d)
qed

end
