(* ===== verification/Dhcp.thy ===== *)
theory Dhcp
  imports Packets "HOL-Library.Monad_Syntax"
begin

text \<open>
  The DHCP client of \<open>kernel/net/protocol/dhcp.cpp\<close> and the address resolution of
  \<open>kernel/net/protocol/arp.cpp\<close>.  A received message is given by its fields and the bytes of its parameters;
  a message sent is recorded with its fields and parameters.  The clock, the answers to \<open>check_presence\<close> and
  the results of transmissions are parameters, and the numbers \<open>rand\<close> will return are a list in the state.
  Reads and writes outside a packet, a thrown \<open>invalid_argument\<close> and loops that do not end are values of
  \<open>dhcp_fault\<close>.
\<close>

subsection \<open>Address resolution\<close>

record arp_packet =
  eth_dest :: "u8 list"
  eth_source :: "u8 list"
  opcode :: u16
  src_hw :: "u8 list"
  src_pr :: ipv4_addr
  dst_hw :: "u8 list"
  dst_pr :: ipv4_addr

abbreviation (input) arp_req :: u16 where "arp_req \<equiv> 1"
abbreviation (input) arp_res :: u16 where "arp_res \<equiv> 2"

text \<open>
  The constructor from an Ethernet header leaves the operation and the two protocol addresses as it finds them in
  the memory of the packet.
\<close>

definition new_arp_packet :: "arp_packet \<Rightarrow> u8 list \<Rightarrow> u8 list \<Rightarrow> arp_packet" where
  "new_arp_packet mem dest source = mem\<lparr>eth_dest := dest, eth_source := source, src_hw := source, dst_hw := dest\<rparr>"

text \<open>\<open>protocol_arp::receive\<close>: the result, the table and the packets sent.  The answer is never filled in.\<close>

definition arp_receive :: "arp_packet \<Rightarrow> (arp_packet \<Rightarrow> int) \<Rightarrow> u8 list \<Rightarrow> ipv4_addr \<Rightarrow> arp_packet \<Rightarrow> (ipv4_addr \<rightharpoonup> u8 list)
    \<Rightarrow> int \<times> (ipv4_addr \<rightharpoonup> u8 list) \<times> arp_packet list" where
  "arp_receive mem tx mac leased pkt tbl =
     (let tbl1 = (if src_pr pkt \<noteq> 0 then tbl(src_pr pkt \<mapsto> src_hw pkt) else tbl) in
      if opcode pkt = arp_res then (0, tbl1, [])
      else if opcode pkt \<noteq> arp_req then (- EPROTO, tbl1, [])
      else if leased = 0 \<or> mac \<noteq> dst_hw pkt then (0, tbl1, [])
      else (let response = new_arp_packet mem (src_hw pkt) mac in (tx response, tbl1, [response])))"

text \<open>
  \<open>protocol_arp::check_presence\<close>: the request, and whether the address is in the table the time of waiting
  leaves; \<open>None\<close> when the transmission fails.
\<close>

definition check_presence :: "arp_packet \<Rightarrow> (arp_packet \<Rightarrow> int \<times> (ipv4_addr \<rightharpoonup> u8 list)) \<Rightarrow> u8 list \<Rightarrow> ipv4_config \<Rightarrow> ipv4_addr
    \<Rightarrow> (bool \<times> arp_packet) option" where
  "check_presence mem tx mac c addr =
     (let pkt = (new_arp_packet mem (replicate 6 0) mac)\<lparr>dst_pr := addr, opcode := arp_req,
                  src_pr := (if current_state c = BOUND then leased_addr c else 0)\<rparr>
      in case tx pkt of (err, tbl) \<Rightarrow> if err \<noteq> 0 then None else Some (tbl addr \<noteq> None, pkt))"

subsection \<open>Parameters\<close>

datatype dhcp_fault = Overrun | Malformed | No_return

definition read32 :: "u8 list \<Rightarrow> nat \<Rightarrow> dhcp_fault + u32" where
  "read32 ps i = (if i + 4 \<le> length ps then Inr (be32_get (take 4 (drop i ps))) else Inl Overrun)"

definition set32 :: "(u32 \<Rightarrow> ipv4_config \<Rightarrow> ipv4_config) \<Rightarrow> u8 list \<Rightarrow> ipv4_config \<Rightarrow> dhcp_fault + ipv4_config" where
  "set32 f body c = (case read32 body 0 of Inl e \<Rightarrow> Inl e | Inr v \<Rightarrow> Inr (f v c))"

definition set_pair :: "(u32 \<Rightarrow> ipv4_config \<Rightarrow> ipv4_config) \<Rightarrow> (u32 \<Rightarrow> ipv4_config \<Rightarrow> ipv4_config) \<Rightarrow> u8 \<Rightarrow> u8 list \<Rightarrow> ipv4_config
    \<Rightarrow> dhcp_fault + ipv4_config" where
  "set_pair f g len body c =
     (if unat len mod 4 \<noteq> 0 then Inl Malformed
      else
        (case read32 body 0 of
           Inl e \<Rightarrow> Inl e
         | Inr v \<Rightarrow>
             (if unat len > 4 then (case read32 body 4 of Inl e \<Rightarrow> Inl e | Inr w \<Rightarrow> Inr (g w (f v c))) else Inr (f v c))))"

definition parameter_value :: "u8 \<Rightarrow> u8 \<Rightarrow> u8 list \<Rightarrow> ipv4_config \<Rightarrow> dhcp_fault + ipv4_config" where
  "parameter_value type_code len body c =
     (if type_code = 1 then set32 (\<lambda>v. subnet_mask_update (\<lambda>_. v)) body c
      else if type_code = 54 then
        (if dhcp_server_addr c = 0 then set32 (\<lambda>v. dhcp_server_addr_update (\<lambda>_. v)) body c else Inr c)
      else if type_code = 3 then
        set_pair (\<lambda>v. primary_gateway_update (\<lambda>_. v)) (\<lambda>v. alternate_gateway_update (\<lambda>_. v)) len body c
      else if type_code = 6 then
        set_pair (\<lambda>v. primary_dns_server_update (\<lambda>_. v)) (\<lambda>v. alternate_dns_server_update (\<lambda>_. v)) len body c
      else if type_code = 23 then (case body of [] \<Rightarrow> Inl Overrun | b # _ \<Rightarrow> Inr (c\<lparr>time_to_live_default := b\<rparr>))
      else if type_code = 58 then
        (if current_state c \<noteq> BOUND then set32 (\<lambda>v. lease_renew_time_update (\<lambda>_. v)) body c else Inr c)
      else if type_code = 59 then
        (if current_state c \<noteq> BOUND then set32 (\<lambda>v. lease_rebind_time_update (\<lambda>_. v)) body c else Inr c)
      else if type_code = 51 then
        (if current_state c \<noteq> BOUND then set32 (\<lambda>v. lease_duration_update (\<lambda>_. v)) body c else Inr c)
      else Inr c)"

text \<open>The number of bytes to go forward is returned in eight bits.\<close>

definition process_packet_parameter :: "u8 list \<Rightarrow> ipv4_config \<Rightarrow> dhcp_fault + nat \<times> ipv4_config" where
  "process_packet_parameter ps c =
     (case ps of
        [] \<Rightarrow> Inl Overrun
      | type_code # rest \<Rightarrow>
          (if type_code = 0 then Inr (1, c)
           else if type_code = 255 then Inr (0, c)
           else
             (case rest of
                [] \<Rightarrow> Inl Overrun
              | len # body \<Rightarrow>
                  (case parameter_value type_code len body c of
                     Inl e \<Rightarrow> Inl e
                   | Inr c' \<Rightarrow> Inr (unat (len + 2), c')))))"

text \<open>The loop over the parameters; what they have set stays set when one of them is malformed.\<close>

fun parameter_loop :: "nat \<Rightarrow> u8 list \<Rightarrow> ipv4_config \<Rightarrow> dhcp_fault option \<times> ipv4_config" where
  "parameter_loop 0 ps c = (Some No_return, c)"
| "parameter_loop (Suc f) ps c =
     (case ps of
        [] \<Rightarrow> (Some Overrun, c)
      | type_code # _ \<Rightarrow>
          (if type_code = 255 then (None, c)
           else
             (case process_packet_parameter ps c of
                Inl e \<Rightarrow> (Some e, c)
              | Inr (n, c') \<Rightarrow> parameter_loop f (drop n ps) c')))"

definition process_parameters :: "u8 list \<Rightarrow> ipv4_config \<Rightarrow> dhcp_fault option \<times> ipv4_config" where
  "process_parameters ps c = parameter_loop (Suc (length ps)) ps c"

text \<open>
  The search for the message type in \<open>receive\<close>.  It goes forward by the length of a parameter, not counting the
  two bytes before its value.
\<close>

fun message_type_loop :: "nat \<Rightarrow> u8 list \<Rightarrow> dhcp_fault + u8 option" where
  "message_type_loop 0 ps = Inl No_return"
| "message_type_loop (Suc f) ps =
     (case ps of
        [] \<Rightarrow> Inl Overrun
      | b # rest \<Rightarrow>
          (if b = 255 then Inr None
           else if b = 0 then message_type_loop f rest
           else if b = 53 then (if length rest < 2 then Inl Overrun else Inr (Some (rest ! 1)))
           else (case rest of [] \<Rightarrow> Inl Overrun | len # _ \<Rightarrow> message_type_loop f (drop (unat len) ps))))"

subsection \<open>Messages\<close>

record dhcp_message =
  transaction_id :: u32
  your_ip :: ipv4_addr
  server_ip :: ipv4_addr
  parameters :: "u8 list"

record dhcp_out =
  out_dest :: ipv4_addr
  out_xid :: u32
  out_seconds :: u16
  out_source :: ipv4_addr
  out_server :: ipv4_addr
  out_params :: "u8 list"

record dhcp =
  ipconfig :: ipv4_config
  transaction_timers :: "u32 \<rightharpoonup> nat"
  active_renewal_xid :: u32
  rands :: "u32 list"
  sent :: "dhcp_out list"

record dhcp_env =
  now :: nat
  present :: "ipv4_addr \<Rightarrow> bool"
  tx_result :: "dhcp_out \<Rightarrow> int"

abbreviation (input) EINVAL :: int where "EINVAL \<equiv> 22"
abbreviation (input) ENETDOWN :: int where "ENETDOWN \<equiv> 115"

definition broadcast :: ipv4_addr where
  "broadcast = ipv4_literal ''255.255.255.255''"

abbreviation (input) sizeof_dhcp_packet :: nat where "sizeof_dhcp_packet \<equiv> 282"

definition total_dhcp_size :: "nat \<Rightarrow> nat" where
  "total_dhcp_size parameters_size = parameters_size + sizeof_dhcp_packet"

definition put_bytes :: "nat \<Rightarrow> u8 list \<Rightarrow> u8 list \<Rightarrow> u8 list option" where
  "put_bytes pos bs buf = (if pos + length bs \<le> length buf then Some (take pos buf @ bs @ drop (pos + length bs) buf) else None)"

definition create_packet :: "dhcp_env \<Rightarrow> ipv4_addr \<Rightarrow> nat \<Rightarrow> u32 \<Rightarrow> dhcp \<Rightarrow> dhcp_out" where
  "create_packet env dest total_size xid d =
     \<lparr>out_dest = dest, out_xid = xid,
      out_seconds = (case transaction_timers d xid of Some t \<Rightarrow> of_int (int (now env) - int t) | None \<Rightarrow> 0),
      out_source = leased_addr (ipconfig d), out_server = dhcp_server_addr (ipconfig d),
      out_params = replicate (total_size - sizeof_dhcp_packet) 0\<rparr>"

definition transmit :: "dhcp_env \<Rightarrow> dhcp_out \<Rightarrow> dhcp \<Rightarrow> int \<times> dhcp" where
  "transmit env out d = (tx_result env out, d\<lparr>sent := sent d @ [out]\<rparr>)"

text \<open>The first number that is not in use.\<close>

fun fresh_xid :: "(u32 \<rightharpoonup> nat) \<Rightarrow> u32 list \<Rightarrow> (u32 \<times> u32 list) option" where
  "fresh_xid timers [] = None"
| "fresh_xid timers (x # xs) = (if timers x \<noteq> None then fresh_xid timers xs else Some (x, xs))"

text \<open>\<open>discover\<close>; a failed transmission, which throws, is \<open>False\<close>.\<close>

definition discover :: "dhcp_env \<Rightarrow> u8 list \<Rightarrow> dhcp \<Rightarrow> (dhcp_fault + bool) \<times> dhcp" where
  "discover env reqs d =
     (let n = length reqs;
          total_param_size = (n + 2) + 4;
          actual_size = up_to_nearest (total_dhcp_size total_param_size) 2
      in case fresh_xid (transaction_timers d) (rands d) of
           None \<Rightarrow> (Inl No_return, d)
         | Some (xid, rest) \<Rightarrow>
             (let out = create_packet env broadcast actual_size xid d;
                  d1 = d\<lparr>rands := rest, transaction_timers := (transaction_timers d)(xid \<mapsto> now env)\<rparr>
              in case do {
                   b1 \<leftarrow> put_bytes (total_param_size - 1) [0xFF] (out_params out);
                   b2 \<leftarrow> put_bytes 0 [53, 1, 1] b1;
                   if n \<noteq> 0 then put_bytes 3 (55 # of_nat n # reqs) b2 else Some b2 } of
                   None \<Rightarrow> (Inl Overrun, d1)
                 | Some ps \<Rightarrow> (case transmit env (out\<lparr>out_params := ps\<rparr>) d1 of (err, d2) \<Rightarrow> (Inr (err = 0), d2))))"

text \<open>
  \<open>request\<close>.  The identifier of the server is left out after a reboot, but the position of the address asked for
  is not moved back.
\<close>

definition request :: "dhcp_env \<Rightarrow> ipv4_addr \<Rightarrow> u32 \<Rightarrow> dhcp \<Rightarrow> (dhcp_fault + int) \<times> dhcp" where
  "request env addr xid d =
     (let st = current_state (ipconfig d);
          total_param_size = 6 * (if st = SELECTING then 2 else if st = REBOOT then 1 else 0) + 4;
          out = create_packet env broadcast (total_dhcp_size total_param_size) xid d
      in case do {
           b1 \<leftarrow> put_bytes (total_param_size - 1) [0xFF] (out_params out);
           b2 \<leftarrow> put_bytes 0 [53, 1, 3] b1;
           (if st = SELECTING then do {
              b3 \<leftarrow> put_bytes 3 ([54, 4] @ be32_put (dhcp_server_addr (ipconfig d))) b2;
              put_bytes 9 ([50, 4] @ be32_put addr) b3 }
            else if st = REBOOT then put_bytes 6 ([50, 4] @ be32_put addr) b2
            else Some b2) } of
           None \<Rightarrow> (Inl Overrun, d)
         | Some ps \<Rightarrow> (case transmit env (out\<lparr>out_params := ps\<rparr>) d of (err, d1) \<Rightarrow> (Inr err, d1)))"

definition must_decline_msg :: "u8 list" where
  "must_decline_msg = map of_char ''That address is already in use by another client.'' @ [0]"

text \<open>\<open>decline\<close>; the text is copied over the type code of its parameter.\<close>

definition decline :: "dhcp_env \<Rightarrow> ipv4_addr \<Rightarrow> u32 \<Rightarrow> dhcp \<Rightarrow> (dhcp_fault + int) \<times> dhcp" where
  "decline env addr xid d =
     (let total_param_size = (length must_decline_msg + 2) + 6 * 2 + 4;
          actual_size = up_to_nearest (total_dhcp_size total_param_size) 2;
          out = (create_packet env broadcast actual_size xid d)\<lparr>out_seconds := 0\<rparr>
      in case do {
           b1 \<leftarrow> put_bytes (total_param_size - 1) [0xFF] (out_params out);
           b2 \<leftarrow> put_bytes 0 [53, 1, 4] b1;
           b3 \<leftarrow> put_bytes 3 ([54, 4] @ be32_put (dhcp_server_addr (ipconfig d))) b2;
           b4 \<leftarrow> put_bytes 9 ([50, 4] @ be32_put addr) b3;
           b5 \<leftarrow> put_bytes 15 [56] b4;
           put_bytes 15 must_decline_msg b5 } of
           None \<Rightarrow> (Inl Overrun, d)
         | Some ps \<Rightarrow> (case transmit env (out\<lparr>out_params := ps\<rparr>) d of (err, d1) \<Rightarrow> (Inr err, d1)))"

definition renew :: "dhcp_env \<Rightarrow> dhcp \<Rightarrow> (dhcp_fault + int) \<times> dhcp" where
  "renew env d =
     (if leased_addr (ipconfig d) = 0 then (Inr (- EINVAL), d)
      else
        (let out = create_packet env (dhcp_server_addr (ipconfig d)) (total_dhcp_size 4) (active_renewal_xid d) d
         in case do { b1 \<leftarrow> put_bytes 3 [0xFF] (out_params out); put_bytes 0 [53, 1, 3] b1 } of
              None \<Rightarrow> (Inl Overrun, d)
            | Some ps \<Rightarrow> (case transmit env (out\<lparr>out_params := ps\<rparr>) d of (err, d1) \<Rightarrow> (Inr err, d1))))"

definition rebind :: "dhcp_env \<Rightarrow> dhcp \<Rightarrow> (dhcp_fault + int) \<times> dhcp" where
  "rebind env d = request env (leased_addr (ipconfig d)) (active_renewal_xid d) d"

definition reset :: "dhcp_env \<Rightarrow> dhcp \<Rightarrow> (dhcp_fault + bool) \<times> dhcp" where
  "reset env d = discover env [1, 6, 15, 3] (d\<lparr>ipconfig := reset_config\<rparr>)"

definition set_state :: "ipv4_client_state \<Rightarrow> dhcp \<Rightarrow> dhcp" where
  "set_state st d = d\<lparr>ipconfig := (ipconfig d)\<lparr>current_state := st\<rparr>\<rparr>"

definition transition_state :: "dhcp_env \<Rightarrow> ipv4_client_state \<Rightarrow> dhcp \<Rightarrow> (dhcp_fault + int) \<times> dhcp" where
  "transition_state env to_state d0 =
     (let d = set_state to_state d0 in
      case to_state of
        INIT \<Rightarrow>
          (case reset env d of
             (Inl e, d1) \<Rightarrow> (Inl e, d1)
           | (Inr ok, d1) \<Rightarrow> (Inr (if ok then 0 else - ENETDOWN), d1))
      | RENEWING \<Rightarrow>
          (case rands d of
             [] \<Rightarrow> (Inl No_return, d)
           | x # xs \<Rightarrow> renew env (d\<lparr>active_renewal_xid := x, rands := xs\<rparr>))
      | REBINDING \<Rightarrow> rebind env d
      | BOUND \<Rightarrow> (Inr 0, d\<lparr>active_renewal_xid := 0\<rparr>)
      | _ \<Rightarrow> (Inr 0, d))"

definition process_offer_packet :: "dhcp_env \<Rightarrow> dhcp_message \<Rightarrow> dhcp \<Rightarrow> (dhcp_fault + int) \<times> dhcp" where
  "process_offer_packet env p d =
     (if current_state (ipconfig d) = INIT \<and> transaction_timers d (transaction_id p) \<noteq> None then
        (let req_addr = your_ip p;
             d1 = d\<lparr>ipconfig := (ipconfig d)\<lparr>dhcp_server_addr := server_ip p\<rparr>\<rparr>;
             d2 = set_state SELECTING d1
         in case process_parameters (parameters p) (ipconfig d2) of
              (Some Malformed, c) \<Rightarrow> (Inr (- EPROTO), d2\<lparr>ipconfig := c\<rparr>)
            | (Some e, c) \<Rightarrow> (Inl e, d2\<lparr>ipconfig := c\<rparr>)
            | (None, c) \<Rightarrow>
                (let d3 = d2\<lparr>ipconfig := c\<rparr> in
                 if present env req_addr then
                   (case decline env req_addr (transaction_id p) d3 of
                      (Inl e, d4) \<Rightarrow> (Inl e, d4)
                    | (Inr err, d4) \<Rightarrow>
                        (if err \<noteq> 0 then (Inr err, d4)
                         else
                           (case discover env [] d4 of
                              (Inl e, d5) \<Rightarrow> (Inl e, d5)
                            | (Inr ok, d5) \<Rightarrow> (Inr (if ok then 0 else - ENETDOWN), d5))))
                 else request env req_addr (transaction_id p) d3))
      else (Inr 0, d))"

text \<open>The default times of a lease; the product for the second one is computed with 32 bits.\<close>

definition lease_defaults :: "ipv4_config \<Rightarrow> ipv4_config" where
  "lease_defaults c =
     (if lease_duration c \<noteq> 0xFFFFFFFF then
        (let c1 = (if lease_renew_time c = 0 then c\<lparr>lease_renew_time := lease_duration c div 2\<rparr> else c)
         in if lease_rebind_time c1 = 0 then c1\<lparr>lease_rebind_time := (7 * lease_duration c1) div 8\<rparr> else c1)
      else c)"

definition process_ack_packet :: "dhcp_env \<Rightarrow> dhcp_message \<Rightarrow> dhcp \<Rightarrow> (dhcp_fault + int) \<times> dhcp" where
  "process_ack_packet env p d =
     (let d1 = d\<lparr>ipconfig := (ipconfig d)\<lparr>lease_acquired_time := now env, leased_addr := your_ip p\<rparr>\<rparr>
      in case process_parameters (parameters p) (ipconfig d1) of
           (Some Malformed, c) \<Rightarrow> (Inr (- EPROTO), d1\<lparr>ipconfig := c\<rparr>)
         | (Some e, c) \<Rightarrow> (Inl e, d1\<lparr>ipconfig := c\<rparr>)
         | (None, c) \<Rightarrow>
             (if lease_duration c = 0 then (Inr (- EPROTO), d1\<lparr>ipconfig := c\<rparr>)
              else
                (case transition_state env BOUND (d1\<lparr>ipconfig := lease_defaults c\<rparr>) of
                   (_, d2) \<Rightarrow> (Inr 0, d2\<lparr>transaction_timers := (transaction_timers d2)(transaction_id p := None)\<rparr>))))"

definition dhcp_receive :: "dhcp_env \<Rightarrow> dhcp_message \<Rightarrow> dhcp \<Rightarrow> (dhcp_fault + int) \<times> dhcp" where
  "dhcp_receive env p d =
     (case message_type_loop (Suc (length (parameters p))) (parameters p) of
        Inl e \<Rightarrow> (Inl e, d)
      | Inr None \<Rightarrow> (Inr (- EPROTO), d)
      | Inr (Some t) \<Rightarrow>
          (if t = 2 then process_offer_packet env p d
           else if t = 6 then transition_state env INIT d
           else if t = 5 then process_ack_packet env p d
           else (Inr 0, d)))"

subsection \<open>Encoded parameters\<close>

type_synonym dhcp_option = "u8 \<times> u8 list"

definition encode_option :: "dhcp_option \<Rightarrow> u8 list" where
  "encode_option opt = (case opt of (t, v) \<Rightarrow> t # of_nat (length v) # v)"

definition encode_options :: "dhcp_option list \<Rightarrow> u8 list" where
  "encode_options opts = concat (map encode_option opts) @ [255]"

definition option_ok :: "dhcp_option \<Rightarrow> bool" where
  "option_ok opt \<longleftrightarrow>
     (case opt of (t, v) \<Rightarrow>
        t \<noteq> 0 \<and> t \<noteq> 255 \<and> length v < 254 \<and> (t \<in> {1, 51, 54, 58, 59} \<longrightarrow> length v = 4)
        \<and> (t \<in> {3, 6} \<longrightarrow> v \<noteq> [] \<and> length v mod 4 = 0) \<and> (t = 23 \<longrightarrow> v \<noteq> []))"

text \<open>What an option means for the configuration.\<close>

definition apply_option :: "dhcp_option \<Rightarrow> ipv4_config \<Rightarrow> ipv4_config" where
  "apply_option opt c =
     (case opt of (t, v) \<Rightarrow>
        if t = 1 then c\<lparr>subnet_mask := be32_get v\<rparr>
        else if t = 54 then (if dhcp_server_addr c = 0 then c\<lparr>dhcp_server_addr := be32_get v\<rparr> else c)
        else if t = 3 then
          (if length v > 4 then c\<lparr>primary_gateway := be32_get v, alternate_gateway := be32_get (drop 4 v)\<rparr>
           else c\<lparr>primary_gateway := be32_get v\<rparr>)
        else if t = 6 then
          (if length v > 4 then c\<lparr>primary_dns_server := be32_get v, alternate_dns_server := be32_get (drop 4 v)\<rparr>
           else c\<lparr>primary_dns_server := be32_get v\<rparr>)
        else if t = 23 then c\<lparr>time_to_live_default := hd v\<rparr>
        else if current_state c = BOUND then c
        else if t = 58 then c\<lparr>lease_renew_time := be32_get v\<rparr>
        else if t = 59 then c\<lparr>lease_rebind_time := be32_get v\<rparr>
        else if t = 51 then c\<lparr>lease_duration := be32_get v\<rparr>
        else c)"

lemma be32_get_take: "4 \<le> length v \<Longrightarrow> be32_get (take 4 (v @ rest)) = be32_get v"
  by (simp add: be32_get_def be16_get_def)

lemma read32_front: "4 \<le> length v \<Longrightarrow> read32 (v @ rest) 0 = Inr (be32_get v)"
  using be32_get_take [of v rest] by (simp add: read32_def)

lemma read32_next: "8 \<le> length v \<Longrightarrow> read32 (v @ rest) 4 = Inr (be32_get (drop 4 v))"
  using be32_get_take [of "drop 4 v" rest] by (simp add: read32_def)

lemma parameter_value_option:
  assumes "option_ok (t, v)"
  shows "parameter_value t (of_nat (length v)) (v @ rest) c = Inr (apply_option (t, v) c)"
proof -
  have u: "unat (of_nat (length v) :: u8) = length v"
    using assms by (simp add: option_ok_def unsigned_of_nat take_bit_nat_eq_self)
  have pair: "set_pair f g (of_nat (length v)) (v @ rest) c = Inr (if length v > 4 then g (be32_get (drop 4 v)) (f (be32_get v) c) else f (be32_get v) c)"
    if "v \<noteq> []" "length v mod 4 = 0" for f g
  proof -
    have "4 \<le> length v" using that by (metis dvd_imp_le length_greater_0_conv mod_eq_0_iff_dvd)
    moreover have "length v > 4 \<longrightarrow> 8 \<le> length v" using that(2) by presburger
    ultimately show ?thesis using that by (simp add: set_pair_def u read32_front read32_next)
  qed
  consider "t = 1" | "t = 54" | "t = 3" | "t = 6" | "t = 23" | "t = 58" | "t = 59" | "t = 51" | "t \<notin> {1, 54, 3, 6, 23, 58, 59, 51}"
    by blast
  then show ?thesis
  proof cases
    case 5
    then obtain b w where "v = b # w" using assms by (cases v) (simp_all add: option_ok_def)
    then show ?thesis using 5 by (simp add: parameter_value_def apply_option_def)
  qed (use assms pair in \<open>simp_all add: parameter_value_def apply_option_def option_ok_def set32_def read32_front\<close>)
qed

lemma parameter_step:
  assumes "option_ok opt"
  shows "process_packet_parameter (encode_option opt @ rest) c = Inr (length (encode_option opt), apply_option opt c)"
proof -
  obtain t v where o: "opt = (t, v)" by force
  have "unat ((of_nat (length v) :: u8) + 2) = length v + 2"
    using assms o unsigned_of_nat [of "length v + 2", where 'b = 8 and 'a = nat]
    by (simp add: option_ok_def take_bit_nat_eq_self add.commute)
  then show ?thesis using assms parameter_value_option [of t v rest c]
    by (simp add: o process_packet_parameter_def encode_option_def option_ok_def)
qed

lemma parameter_loop_options:
  assumes "\<forall>opt \<in> set opts. option_ok opt" "length opts < f"
  shows "parameter_loop f (encode_options opts @ rest) c = (None, fold apply_option opts c)"
  using assms
proof (induction opts arbitrary: f c)
  case Nil
  then show ?case by (cases f) (simp_all add: encode_options_def)
next
  case (Cons opt opts)
  then obtain g where g: "f = Suc g" "length opts < g" by (cases f) auto
  obtain t v where o: "opt = (t, v)" by force
  have e: "encode_options (opt # opts) @ rest = encode_option opt @ encode_options opts @ rest" by (simp add: encode_options_def)
  have "encode_option opt @ encode_options opts @ rest = t # of_nat (length v) # v @ encode_options opts @ rest"
    by (simp add: encode_option_def o)
  moreover have "t \<noteq> 255" using Cons.prems o by (simp add: option_ok_def)
  ultimately show ?case
    using Cons.IH [of g "apply_option opt c"] Cons.prems g parameter_step [of opt "encode_options opts @ rest" c] unfolding e
    by simp
qed

lemma process_parameters_options:
  assumes "\<forall>opt \<in> set opts. option_ok opt"
  shows "process_parameters (encode_options opts) c = (None, fold apply_option opts c)"
proof -
  have "length opts \<le> length (concat (map encode_option opts))"
    by (induction opts) (auto simp: encode_option_def split: prod.split)
  then have "length opts < Suc (length (encode_options opts))" by (simp add: encode_options_def)
  from parameter_loop_options [OF assms this, of "[]"] show ?thesis by (simp add: process_parameters_def)
qed

lemma message_type_first:
  "message_type_loop (Suc n) (encode_options ((53, [k]) # opts)) = Inr (Some k)"
  by (simp add: encode_options_def encode_option_def)

lemma apply_option_keeps [simp]:
  "current_state (apply_option opt c) = current_state c" "leased_addr (apply_option opt c) = leased_addr c"
  by (cases opt; simp add: apply_option_def)+

lemma fold_options_keeps [simp]:
  "current_state (fold apply_option opts c) = current_state c" "leased_addr (fold apply_option opts c) = leased_addr c"
  by (induction opts arbitrary: c) simp_all

subsection \<open>Acquiring a lease\<close>

lemma encode_options_Cons: "encode_options (opt # opts) = encode_option opt @ encode_options opts"
  by (simp add: encode_options_def)

lemma apply_message_type [simp]: "apply_option (53, v) c = c"
  by (simp add: apply_option_def)

text \<open>The request that follows an offer asks the server for the address.\<close>

lemma request_selecting:
  assumes "current_state (ipconfig d) = SELECTING"
  shows "\<exists>out. request env addr xid d = (Inr (tx_result env out), d\<lparr>sent := sent d @ [out]\<rparr>) \<and> out_dest out = broadcast \<and> out_xid out = xid
     \<and> out_params out = encode_options [(53, [3]), (54, be32_put (dhcp_server_addr (ipconfig d))), (50, be32_put addr)]"
proof -
  define srv where "srv = be32_put (dhcp_server_addr (ipconfig d))"
  define req where "req = be32_put addr"
  have l: "length srv = 4" "length req = 4" by (simp_all add: srv_def req_def)
  have "do {
      b1 \<leftarrow> put_bytes 15 [0xFF] (replicate 16 0);
      b2 \<leftarrow> put_bytes 0 [53, 1, 3] b1;
      b3 \<leftarrow> put_bytes 3 ([54, 4] @ srv) b2;
      put_bytes 9 ([50, 4] @ req) b3 } = Some ([53, 1, 3] @ [54, 4] @ srv @ [50, 4] @ req @ [255])"
    using l by (simp add: put_bytes_def numeral_eq_Suc)
  then show ?thesis using assms l unfolding request_def srv_def [symmetric] req_def [symmetric]
    by (intro exI [of _ "(create_packet env broadcast 298 xid d)\<lparr>out_params := [53, 1, 3] @ [54, 4] @ srv @ [50, 4] @ req @ [255]\<rparr>"])
      (simp add: Let_def create_packet_def total_dhcp_size_def transmit_def encode_options_def encode_option_def)
qed


definition waiting_client :: dhcp where
  "waiting_client = \<lparr>ipconfig = reset_config, transaction_timers = [7 \<mapsto> 100], active_renewal_xid = 0, rands = [], sent = []\<rparr>"

definition quiet_net :: dhcp_env where
  "quiet_net = \<lparr>now = 101, present = (\<lambda>_. False), tx_result = (\<lambda>_. 0)\<rparr>"


text \<open>
  The default times are in order for leases of up to nineteen years; for longer ones the product wraps.
\<close>

lemma lease_times_ordered:
  assumes "lease_renew_time c = 0" "lease_rebind_time c = 0" "lease_duration c \<noteq> 0" "7 * unat (lease_duration c) < 2 ^ 32"
  shows "unat (lease_renew_time (lease_defaults c)) \<le> unat (lease_rebind_time (lease_defaults c))
    \<and> unat (lease_rebind_time (lease_defaults c)) < unat (lease_duration (lease_defaults c))"
proof -
  let ?l = "lease_duration c"
  have "0 < unat ?l" using assms(3) by (simp add: unat_gt_0)
  moreover have "unat (7 * ?l) = 7 * unat ?l" using assms(4) by (subst unat_word_ariths) simp
  moreover have "?l \<noteq> 0xFFFFFFFF" using assms(4) by auto
  moreover have "n div 2 \<le> 7 * n div 8 \<and> 7 * n div 8 < n" if "0 < n" for n :: nat using that by linarith
  ultimately show ?thesis using assms(1,2) by (simp add: lease_defaults_def Let_def unat_div)
qed

end
