(* ===== verification/Tcp.thy ===== *)
theory Tcp
  imports Packets "HOL-Library.Monad_Syntax"
begin

text \<open>
  The TCP endpoint of \<open>kernel/net/protocol/tcp.cpp\<close>.  Segments are frames as in \<open>Packets\<close>, with the TCP header at
  offset 34; the bit fields are laid out from the low bit up.  The maps from sequence numbers to packets are
  association lists, into which \<open>emplace\<close> puts only what is not there.  The initial sequence numbers, the results of
  transmissions, the hardware addresses and the stopwatch are parameters; the deferred call of \<open>close\<close> is counted.
  Thrown exceptions, reads outside a packet and loops that do not end are values of \<open>tcp_fault\<close>.
\<close>

abbreviation (input) ENOTCONN :: int where "ENOTCONN \<equiv> 128"

subsection \<open>Segments\<close>

definition be32_at :: "u8 list \<Rightarrow> nat \<Rightarrow> u32" where
  "be32_at p off = be32_get [p ! off, p ! (off + 1), p ! (off + 2), p ! (off + 3)]"

definition put32 :: "nat \<Rightarrow> u32 \<Rightarrow> u8 list \<Rightarrow> u8 list" where
  "put32 off v p = (let b = be32_put v in p[off := b ! 0, off + 1 := b ! 1, off + 2 := b ! 2, off + 3 := b ! 3])"

definition data_offset :: "u8 list \<Rightarrow> nat" where
  "data_offset p = unat (p ! 46) mod 16"

abbreviation (input) ack_bit :: nat where "ack_bit \<equiv> 3"
abbreviation (input) push_bit_no :: nat where "push_bit_no \<equiv> 4"
abbreviation (input) reset_bit :: nat where "reset_bit \<equiv> 5"
abbreviation (input) syn_bit :: nat where "syn_bit \<equiv> 6"
abbreviation (input) finish_bit :: nat where "finish_bit \<equiv> 7"

definition flag :: "nat \<Rightarrow> u8 list \<Rightarrow> bool" where
  "flag n p = bit (p ! 47) n"

definition set_flag :: "nat \<Rightarrow> u8 list \<Rightarrow> u8 list" where
  "set_flag n p = p[47 := set_bit n (p ! 47)]"

definition payload_start :: "u8 list \<Rightarrow> nat" where
  "payload_start p = 34 + data_offset p * 4"

definition payload_end :: "u8 list \<Rightarrow> nat" where
  "payload_end p = be16_at p 16"

definition has_data :: "u8 list \<Rightarrow> bool" where
  "has_data p \<longleftrightarrow> payload_end p \<noteq> payload_start p"

definition segment_len :: "u8 list \<Rightarrow> nat" where
  "segment_len p = nat (max 1 (int (be16_at p 16) - int (data_offset p * 4 + 34)))"

definition src_chk :: "ipv4_addr \<Rightarrow> nat \<Rightarrow> u8 list \<Rightarrow> bool" where
  "src_chk addr port p \<longleftrightarrow> addr = be32_at p 26 \<and> port = be16_at p 34"

definition seq_chk :: "u32 \<Rightarrow> u8 list \<Rightarrow> bool" where
  "seq_chk sq p \<longleftrightarrow> sq = be32_at p 38"

definition ack_chk :: "u32 \<Rightarrow> u8 list \<Rightarrow> bool" where
  "ack_chk ack p \<longleftrightarrow> ack = be32_at p 42"

definition is_simple_ack :: "u8 list \<Rightarrow> bool" where
  "is_simple_ack p \<longleftrightarrow> flag ack_bit p \<and> \<not> (flag finish_bit p \<or> flag push_bit_no p \<or> flag syn_bit p) \<and> \<not> has_data p"

text \<open>The checksum; its own field is not cleared before the sum is formed.\<close>

definition tcp_sum :: "u8 list \<Rightarrow> nat" where
  "tcp_sum p =
     (let tcp_length = be16_at p 16 - unat (p ! 14) mod 16 * 4;
          c = fold (\<lambda>v c. (c + v) mod 2 ^ 32)
                [be16_at p 26, be16_at p 28, be16_at p 30, be16_at p 32, unat (p ! 23), tcp_length] 0;
          c1 = (if tcp_length mod 2 \<noteq> 0 then (c + unat (p ! (payload_end p - 1))) mod 2 ^ 32 else c)
      in sum_words p 34 (tcp_length div 2) c1)"

definition compute_tcp_checksum :: "u8 list \<Rightarrow> u8 list" where
  "compute_tcp_checksum p = put16 50 (complement16 (fold_sum (fold_sum (tcp_sum p)))) p"

definition verify_tcp_checksum :: "u8 list \<Rightarrow> bool" where
  "verify_tcp_checksum p \<longleftrightarrow> complement16 (fold_sum (fold_sum (tcp_sum p))) = 0"

subsection \<open>The state of an endpoint\<close>

datatype tcp_connection_state = LISTEN | SYN_SENT | SYN_RECEIVED | ESTABLISHED | FIN_WAIT_1 | FIN_WAIT_2 | CLOSE_WAIT | CLOSING
  | LAST_ACK | TIME_WAIT | CLOSED

datatype tcp_connection_type = PASSIVE | ACTIVE

record tcp_connection_info =
  remote_host :: ipv4_addr
  remote_port :: nat
  local_connection_type :: tcp_connection_type
  remote_connection_type :: tcp_connection_type
  initial_send_sequence :: u32
  last_send_sequence :: u32
  current_send_sequence :: u32
  next_send_sequence :: u32
  initial_receive_sequence :: u32
  current_receive_sequence :: u32
  next_receive_sequence :: u32
  receive_commit_sequence :: u32
  peer_window_size :: nat

definition no_connection :: tcp_connection_info where
  "no_connection = \<lparr>remote_host = 0, remote_port = 0, local_connection_type = PASSIVE, remote_connection_type = PASSIVE,
     initial_send_sequence = 0, last_send_sequence = 0, current_send_sequence = 0, next_send_sequence = 0,
     initial_receive_sequence = 0, current_receive_sequence = 0, next_receive_sequence = 0, receive_commit_sequence = 0,
     peer_window_size = 0\<rparr>"

definition peer_chk :: "tcp_connection_info \<Rightarrow> u8 list \<Rightarrow> bool" where
  "peer_chk ci p \<longleftrightarrow> src_chk (remote_host ci) (remote_port ci) p
     \<and> (ack_chk (next_send_sequence ci) p \<or> ack_chk (last_send_sequence ci) p) \<and> seq_chk (next_receive_sequence ci) p"

record tcp_timer =
  retransmission_timeout :: nat
  smoothed_round_trip_time :: nat
  round_trip_time_variation :: nat
  stopwatch :: bool

definition new_timer :: "nat \<Rightarrow> tcp_timer" where
  "new_timer second = \<lparr>retransmission_timeout = second, smoothed_round_trip_time = 0, round_trip_time_variation = 0, stopwatch = False\<rparr>"

definition abs_diff :: "nat \<Rightarrow> nat \<Rightarrow> nat" where
  "abs_diff a b = (if a > b then a - b else b - a)"

definition update_timer :: "nat \<Rightarrow> tcp_timer \<Rightarrow> tcp_timer" where
  "update_timer r t =
     (let t1 = (if smoothed_round_trip_time t \<noteq> 0
                then t\<lparr>round_trip_time_variation := u64_add (u64_mul (round_trip_time_variation t) 3 div 4)
                                                     (abs_diff (smoothed_round_trip_time t) r div 4),
                       smoothed_round_trip_time := u64_add (u64_mul (smoothed_round_trip_time t) 7 div 8) (r div 8)\<rparr>
                else t\<lparr>smoothed_round_trip_time := r, round_trip_time_variation := r div 2\<rparr>)
      in t1\<lparr>retransmission_timeout := u64_add (smoothed_round_trip_time t1) (max 1 (u64_mul (round_trip_time_variation t1) 4))\<rparr>)"

text \<open>The session buffer: what was received and how far it was read, what is to be sent and how far it was sent.\<close>

record session_buffer =
  in_data :: "u8 list"
  in_pos :: nat
  out_data :: "u8 list"
  tx_pos :: "nat option"

definition no_data :: session_buffer where
  "no_data = \<lparr>in_data = [], in_pos = 0, out_data = [], tx_pos = None\<rparr>"

definition buffer_put :: "u8 list \<Rightarrow> session_buffer \<Rightarrow> session_buffer" where
  "buffer_put s b = b\<lparr>out_data := out_data b @ s\<rparr>"

definition buffer_get :: "nat \<Rightarrow> session_buffer \<Rightarrow> u8 list \<times> session_buffer" where
  "buffer_get n b =
     (let k = min n (length (in_data b) - in_pos b) in (take k (drop (in_pos b) (in_data b)), b\<lparr>in_pos := in_pos b + k\<rparr>))"

definition rx_push :: "u8 list \<Rightarrow> session_buffer \<Rightarrow> session_buffer" where
  "rx_push bs b = b\<lparr>in_data := in_data b @ bs\<rparr>"

definition tx_count :: "session_buffer \<Rightarrow> nat" where
  "tx_count b = (case tx_pos b of Some k \<Rightarrow> length (out_data b) - k | None \<Rightarrow> 0)"

definition tx_pop :: "nat \<Rightarrow> session_buffer \<Rightarrow> u8 list \<times> session_buffer" where
  "tx_pop n b =
     (let k = min n (tx_count b) in
      case tx_pos b of
        None \<Rightarrow> ([], b)
      | Some q \<Rightarrow> (if k = 0 then ([], b) else (take k (drop q (out_data b)), b\<lparr>tx_pos := Some (q + k)\<rparr>)))"

type_synonym sequence_map = "(u32 \<times> u8 list) list"

record tcb =
  local_port :: nat
  connection_state :: tcp_connection_state
  connection_info :: tcp_connection_info
  send_packets :: sequence_map
  receive_packets :: sequence_map
  timer :: tcp_timer
  sdata :: session_buffer
  deferred_closes :: nat

record tcp_env =
  tx_code :: "u8 list \<Rightarrow> int"
  generate_isn :: "ipv4_addr \<Rightarrow> nat \<Rightarrow> ipv4_addr \<Rightarrow> nat \<Rightarrow> u32"
  host_config :: ipv4_config
  frame_macs :: "u8 list"
  split_time :: nat
  one_second :: nat

datatype tcp_fault = No_packet | Bad_payload | No_return

type_synonym tcp_result = "(tcp_fault + int) \<times> tcb"

definition info :: "(tcp_connection_info \<Rightarrow> tcp_connection_info) \<Rightarrow> tcb \<Rightarrow> tcb" where
  "info f s = s\<lparr>connection_info := f (connection_info s)\<rparr>"

definition new_tcb :: "tcp_env \<Rightarrow> nat \<Rightarrow> tcb" where
  "new_tcb env port = \<lparr>local_port = port, connection_state = CLOSED, connection_info = no_connection, send_packets = [],
     receive_packets = [], timer = new_timer (one_second env), sdata = no_data, deferred_closes = 0\<rparr>"

definition tcp_close :: "tcp_env \<Rightarrow> tcb \<Rightarrow> tcb" where
  "tcp_close env s = s\<lparr>connection_state := CLOSED, connection_info := no_connection, send_packets := [], receive_packets := [],
     timer := new_timer (one_second env), sdata := no_data\<rparr>"

definition tcp_open :: "tcp_env \<Rightarrow> ipv4_addr \<Rightarrow> nat \<Rightarrow> tcp_connection_type \<Rightarrow> tcp_connection_type \<Rightarrow> tcb \<Rightarrow> tcb" where
  "tcp_open env peer port lt rt s =
     (let i = generate_isn env (leased_addr (host_config env)) (local_port s) peer port
      in s\<lparr>connection_info := no_connection\<lparr>remote_host := peer, remote_port := port, local_connection_type := lt,
             remote_connection_type := rt, initial_send_sequence := i, current_send_sequence := i, next_send_sequence := i\<rparr>\<rparr>)"

subsection \<open>Sending\<close>

definition map_put :: "u32 \<Rightarrow> u8 list \<Rightarrow> sequence_map \<Rightarrow> sequence_map" where
  "map_put k v m = (k, v) # filter (\<lambda>e. fst e \<noteq> k) m"

definition emplace :: "u32 \<Rightarrow> u8 list \<Rightarrow> sequence_map \<Rightarrow> u8 list \<times> sequence_map" where
  "emplace k v m = (case map_of m k of Some w \<Rightarrow> (w, m) | None \<Rightarrow> (v, (k, v) # m))"

definition base_frame :: "tcp_env \<Rightarrow> nat \<Rightarrow> u8 list" where
  "base_frame env sz = (let z = replicate sz 0 in (frame_macs env @ drop 12 z)[12 := 0x08, 13 := 0x00, 14 := 0x45, 23 := 6])"

text \<open>
  \<open>create_packet\<close> without options, the only way it is called; the packet is the one stored under the next sequence
  number, which \<open>emplace\<close> leaves in place when there is one already.
\<close>

definition create_packet :: "tcp_env \<Rightarrow> nat \<Rightarrow> tcb \<Rightarrow> u8 list \<times> tcb" where
  "create_packet env payload_size s =
     (let ci = connection_info s; sq = next_send_sequence ci in
      case emplace sq (base_frame env (54 + payload_size)) (send_packets s) of
        (p0, m) \<Rightarrow>
          (let p1 = put16 16 (length p0 mod 65536) p0;
               p2 = put32 42 (next_receive_sequence ci) (put32 38 sq p1);
               p3 = put16 48 16384 p2;
               p4 = p3[46 := (p3 ! 46 AND 0xF0) OR 5];
               p5 = put16 34 (local_port s) (put32 26 (leased_addr (host_config env)) p4);
               p6 = put16 36 (remote_port ci) (put32 30 (remote_host ci) p5)
           in (p6, info (\<lambda>i. i\<lparr>current_send_sequence := sq, next_send_sequence := sq + of_nat (segment_len p6)\<rparr>)
                     (s\<lparr>send_packets := map_put sq p6 m\<rparr>))))"

definition store_packet :: "u8 list \<Rightarrow> tcb \<Rightarrow> tcb" where
  "store_packet p s = s\<lparr>send_packets := map_put (current_send_sequence (connection_info s)) p (send_packets s)\<rparr>"

text \<open>Sending goes through \<open>protocol_ipv4::transmit\<close>, which writes into the stored packet.\<close>

definition tx_send_next :: "tcp_env \<Rightarrow> tcb \<Rightarrow> int \<times> tcb" where
  "tx_send_next env s =
     (case map_of (send_packets s) (current_send_sequence (connection_info s)) of
        None \<Rightarrow> (- ENOTCONN, s)
      | Some p \<Rightarrow>
          (let s1 = s\<lparr>timer := (timer s)\<lparr>stopwatch := True\<rparr>\<rparr>;
               s2 = info (\<lambda>i. i\<lparr>last_send_sequence := current_send_sequence i\<rparr>) s1;
               q = ipv4_stamp (host_config env) p
           in (tx_code env q, store_packet q s2)))"

definition send_with :: "tcp_env \<Rightarrow> nat list \<Rightarrow> tcb \<Rightarrow> int \<times> tcb" where
  "send_with env flags s =
     (case create_packet env 0 s of (p, s1) \<Rightarrow> tx_send_next env (store_packet (compute_tcp_checksum (fold set_flag flags p)) s1))"

definition tx_ack :: "tcp_env \<Rightarrow> tcb \<Rightarrow> int \<times> tcb" where
  "tx_ack env s = send_with env [ack_bit] s"

definition tx_begin_close :: "tcp_env \<Rightarrow> tcb \<Rightarrow> int \<times> tcb" where
  "tx_begin_close env s =
     (case send_with env [ack_bit, finish_bit] s of
        (err, s1) \<Rightarrow> if err \<noteq> 0 then (err, s1) else (0, s1\<lparr>connection_state := FIN_WAIT_1\<rparr>))"

definition tx_simultaneous_close :: "tcp_env \<Rightarrow> tcb \<Rightarrow> int \<times> tcb" where
  "tx_simultaneous_close env s =
     (case tx_ack env s of (err, s1) \<Rightarrow> if err \<noteq> 0 then (err, s1) else (0, s1\<lparr>connection_state := CLOSING\<rparr>))"

definition set_await_close :: "tcb \<Rightarrow> int \<times> tcb" where
  "set_await_close s = (0, s\<lparr>connection_state := TIME_WAIT, deferred_closes := deferred_closes s + 1\<rparr>)"

text \<open>\<open>tx_reset\<close>: the packet is stored under the next sequence number but carries the one given; no flag is set.\<close>

definition tx_reset :: "tcp_env \<Rightarrow> u32 \<Rightarrow> tcb \<Rightarrow> int \<times> tcb" where
  "tx_reset env use_seq s =
     (let ci = connection_info s; sq = next_send_sequence ci in
      case emplace sq (base_frame env 54) (send_packets s) of
        (p0, m) \<Rightarrow>
          (let p1 = put16 48 16384 (put32 38 use_seq (put16 16 (length p0 mod 65536) p0));
               p2 = p1[46 := (p1 ! 46 AND 0xF0) OR 5];
               p3 = put16 34 (local_port s) (put32 26 (leased_addr (host_config env)) p2);
               p4 = put16 36 (remote_port ci) (put32 30 (remote_host ci) p3);
               q = ipv4_stamp (host_config env) p4
           in (tx_code env q, s\<lparr>send_packets := map_put sq q m\<rparr>)))"

definition tx_send_data :: "tcp_env \<Rightarrow> tcb \<Rightarrow> int \<times> tcb" where
  "tx_send_data env s =
     (let count = tx_count (sdata s) in
      if count = 0 then (0, s)
      else
        (let to_send = min count (peer_window_size (connection_info s)) in
         case create_packet env to_send s of
           (p, s1) \<Rightarrow>
             (case tx_pop to_send (sdata s1) of
                (bs, b) \<Rightarrow>
                  (let q0 = take (payload_start p) p @ bs @ drop (payload_start p + length bs) p;
                       q = compute_tcp_checksum (set_flag push_bit_no (set_flag ack_bit q0))
                   in tx_send_next env (store_packet q (s1\<lparr>sdata := b\<rparr>))))))"

subsection \<open>Receiving\<close>

definition rx_add_packet :: "u8 list \<Rightarrow> tcb \<Rightarrow> u8 list \<times> tcb" where
  "rx_add_packet p s = (case emplace (be32_at p 38) p (receive_packets s) of (q, m) \<Rightarrow> (q, s\<lparr>receive_packets := m\<rparr>))"

definition payload :: "u8 list \<Rightarrow> u8 list option" where
  "payload p =
     (if payload_start p \<le> payload_end p \<and> payload_end p \<le> length p
      then Some (take (payload_end p - payload_start p) (drop (payload_start p) p)) else None)"

fun commit_loop :: "nat \<Rightarrow> sequence_map \<Rightarrow> u32 \<Rightarrow> session_buffer \<Rightarrow> tcp_fault + u32 \<times> session_buffer" where
  "commit_loop 0 rp sq b = Inl No_return"
| "commit_loop (Suc f) rp sq b =
     (case map_of rp sq of
        None \<Rightarrow> Inr (sq, b)
      | Some p \<Rightarrow>
          (if has_data p then
             (case payload p of
                None \<Rightarrow> Inl Bad_payload
              | Some bs \<Rightarrow> commit_loop f rp (sq + of_nat (segment_len p)) (rx_push bs b))
           else commit_loop f rp (sq + of_nat (segment_len p)) b))"

definition rx_commit :: "tcb \<Rightarrow> tcp_fault option \<times> tcb" where
  "rx_commit s =
     (let sq = receive_commit_sequence (connection_info s) in
      if sq = 0 then (None, s)
      else
        (case commit_loop (Suc (length (receive_packets s))) (receive_packets s) sq (sdata s) of
           Inl e \<Rightarrow> (Some e, s)
         | Inr (sq', b) \<Rightarrow> (None, info (\<lambda>i. i\<lparr>receive_commit_sequence := sq'\<rparr>) (s\<lparr>sdata := b\<rparr>))))"

definition rx_reset :: "tcp_env \<Rightarrow> tcb \<Rightarrow> tcb" where
  "rx_reset env s =
     (let ci = connection_info s in
      s\<lparr>send_packets := [], receive_packets := [], timer := new_timer (one_second env), sdata := no_data,
        connection_info := no_connection\<lparr>remote_host := remote_host ci, remote_port := remote_port ci,
          local_connection_type := local_connection_type ci, remote_connection_type := remote_connection_type ci\<rparr>,
        connection_state := LISTEN\<rparr>)"

definition rx_initial :: "tcp_env \<Rightarrow> u8 list \<Rightarrow> tcb \<Rightarrow> int \<times> tcb" where
  "rx_initial env p s =
     (let s1 = info (\<lambda>i. i\<lparr>peer_window_size := be16_at p 48\<rparr>) s;
          sq = be32_at p 38;
          s2 = (if has_data p then
                  (case rx_add_packet p s1 of
                     (q, t) \<Rightarrow> info (\<lambda>i. i\<lparr>initial_receive_sequence := sq, current_receive_sequence := sq, receive_commit_sequence := sq,
                                            next_receive_sequence := sq + of_nat (segment_len q)\<rparr>) t)
                else info (\<lambda>i. i\<lparr>initial_receive_sequence := sq, current_receive_sequence := sq, next_receive_sequence := sq + 1\<rparr>) s1)
      in case send_with env [ack_bit, syn_bit] s2 of
           (err, s3) \<Rightarrow> if err \<noteq> 0 then (err, s3) else (0, s3\<lparr>connection_state := SYN_RECEIVED\<rparr>))"

definition rx_establish :: "tcp_env \<Rightarrow> u8 list \<Rightarrow> tcb \<Rightarrow> tcp_result" where
  "rx_establish env p s =
     (if ack_chk (next_send_sequence (connection_info s)) p then
        (let is_first = (initial_receive_sequence (connection_info s) = 0);
             sq = be32_at p 38;
             s1 = (if is_first
                   then info (\<lambda>i. i\<lparr>initial_receive_sequence := sq, current_receive_sequence := sq, next_receive_sequence := sq,
                                    peer_window_size := be16_at p 48\<rparr>) s
                   else s);
             ci = connection_info s1
         in if is_first \<or> seq_chk (if flag ack_bit p then current_receive_sequence ci else next_receive_sequence ci) p then
              (let s2 = info (\<lambda>i. i\<lparr>current_receive_sequence := next_receive_sequence i,
                                   next_receive_sequence := next_receive_sequence i + of_nat (segment_len p)\<rparr>) s1;
                   s3 = (if has_data p then snd (rx_add_packet p s2) else s2)
               in case rx_commit s3 of
                    (Some e, s4) \<Rightarrow> (Inl e, s4)
                  | (None, s4) \<Rightarrow>
                      (case send_with env [ack_bit, syn_bit] s4 of
                         (err, s5) \<Rightarrow> if err \<noteq> 0 then (Inr err, s5) else (Inr 0, s5\<lparr>connection_state := ESTABLISHED\<rparr>)))
            else (Inr 0, s1))
      else (case tx_reset env (be32_at p 42) s of (err, s1) \<Rightarrow> (Inr err, s1)))"

definition rx_keep :: "u8 list \<Rightarrow> tcb \<Rightarrow> tcp_fault option \<times> tcb" where
  "rx_keep p s =
     (if has_data p then
        (case rx_add_packet p s of
           (q, s1) \<Rightarrow>
             (let s2 = (if receive_commit_sequence (connection_info s1) = 0
                        then info (\<lambda>i. i\<lparr>receive_commit_sequence := be32_at p 38\<rparr>) s1 else s1)
              in if flag push_bit_no q then rx_commit s2 else (None, s2)))
      else (None, s))"

definition rx_accept_payload :: "tcp_env \<Rightarrow> u8 list \<Rightarrow> tcb \<Rightarrow> tcp_result" where
  "rx_accept_payload env p s =
     (if \<not> is_simple_ack p then
        (case rx_keep p s of
           (Some e, s3) \<Rightarrow> (Inl e, s3)
         | (None, s3) \<Rightarrow> (case tx_ack env s3 of (err, s4) \<Rightarrow> (Inr err, s4)))
      else
        (case map_of (send_packets s) (last_send_sequence (connection_info s)) of
           None \<Rightarrow> (Inl No_packet, s)
         | Some q \<Rightarrow>
             (let s1 = info (\<lambda>i. i\<lparr>last_send_sequence := last_send_sequence i + of_nat (segment_len q)\<rparr>) s
              in if tx_count (sdata s1) \<noteq> 0 then (case tx_send_data env s1 of (err, s2) \<Rightarrow> (Inr err, s2)) else (Inr 0, s1))))"

definition rx_begin_close :: "tcp_env \<Rightarrow> u8 list \<Rightarrow> tcb \<Rightarrow> tcp_result" where
  "rx_begin_close env p s = rx_accept_payload env p (s\<lparr>connection_state := CLOSE_WAIT\<rparr>)"

definition plain :: "int \<times> tcb \<Rightarrow> tcp_result" where
  "plain r = (Inr (fst r), snd r)"

definition rx_note :: "tcp_env \<Rightarrow> u8 list \<Rightarrow> tcb \<Rightarrow> tcb" where
  "rx_note env p s =
     (if peer_chk (connection_info s) p
      then info (\<lambda>i. i\<lparr>peer_window_size := be16_at p 48\<rparr>)
             (if stopwatch (timer s) then s\<lparr>timer := update_timer (split_time env) (timer s)\<rparr> else s)
      else s)"

definition rx_process :: "tcp_env \<Rightarrow> u8 list \<Rightarrow> tcb \<Rightarrow> tcp_result" where
  "rx_process env p s0 =
     (if connection_state s0 = CLOSED then (Inr (- ENOTCONN), s0)
      else
        (let s = rx_note env p s0
         in case connection_state s of
              LISTEN \<Rightarrow>
                (if flag syn_bit p \<and> \<not> flag ack_bit p then
                   (if flag finish_bit p \<or> flag reset_bit p then (Inr (- EPROTO), s)
                    else plain (rx_initial env p (tcp_open env (be32_at p 26) (be16_at p 34) PASSIVE ACTIVE s)))
                 else (Inr 0, s))
            | SYN_SENT \<Rightarrow>
                (if flag finish_bit p \<or> flag reset_bit p then (Inr (- EPROTO), s)
                 else if src_chk (remote_host (connection_info s)) (remote_port (connection_info s)) p \<and> flag syn_bit p then
                   (let s1 = info (\<lambda>i. i\<lparr>remote_connection_type := PASSIVE\<rparr>) s
                    in if flag ack_bit p then rx_establish env p s1 else plain (rx_initial env p s1))
                 else (Inr 0, s))
            | SYN_RECEIVED \<Rightarrow>
                (if flag finish_bit p then (Inr (- EPROTO), s)
                 else if seq_chk (next_receive_sequence (connection_info s)) p then
                   (if flag reset_bit p then (Inr 0, rx_reset env s)
                    else if flag ack_bit p \<and> flag syn_bit p then rx_establish env p s
                    else (Inr (- EPROTO), s))
                 else (Inr 0, s))
            | _ \<Rightarrow>
                (if \<not> peer_chk (connection_info s) p then (Inr 0, s)
                 else
                   (case connection_state s of
                      ESTABLISHED \<Rightarrow> (if flag finish_bit p then rx_begin_close env p s else rx_accept_payload env p s)
                    | FIN_WAIT_1 \<Rightarrow>
                        (if flag finish_bit p then plain (tx_simultaneous_close env s)
                         else rx_accept_payload env p (s\<lparr>connection_state := FIN_WAIT_2\<rparr>))
                    | FIN_WAIT_2 \<Rightarrow> (if flag finish_bit p then plain (set_await_close s) else rx_accept_payload env p s)
                    | CLOSING \<Rightarrow> plain (set_await_close s)
                    | LAST_ACK \<Rightarrow> (Inr 0, tcp_close env s)
                    | _ \<Rightarrow> (Inr 0, s)))))"

text \<open>A sequence of received segments.\<close>

definition rx_run :: "tcp_env \<Rightarrow> u8 list list \<Rightarrow> tcb \<Rightarrow> tcb" where
  "rx_run env ps s = fold (\<lambda>p t. snd (rx_process env p t)) ps s"

subsection \<open>What sending leaves alone\<close>

lemma info_sel [simp]:
  "connection_state (info f s) = connection_state s" "connection_info (info f s) = f (connection_info s)"
  "receive_packets (info f s) = receive_packets s" "sdata (info f s) = sdata s" "send_packets (info f s) = send_packets s"
  "timer (info f s) = timer s"
  by (simp_all add: info_def)

definition rx_fields :: "tcb \<Rightarrow> u32 \<times> u32 \<times> u32 \<times> u32" where
  "rx_fields s = (let i = connection_info s in
     (initial_receive_sequence i, current_receive_sequence i, next_receive_sequence i, receive_commit_sequence i))"

lemma create_packet_frame [frame_simps]:
  "connection_state (snd (create_packet env n s)) = connection_state s" "rx_fields (snd (create_packet env n s)) = rx_fields s"
  "receive_packets (snd (create_packet env n s)) = receive_packets s" "sdata (snd (create_packet env n s)) = sdata s"
  by (simp_all add: create_packet_def rx_fields_def Let_def split: prod.split)

lemma store_packet_frame [frame_simps]:
  "connection_state (store_packet p s) = connection_state s" "rx_fields (store_packet p s) = rx_fields s"
  "receive_packets (store_packet p s) = receive_packets s" "sdata (store_packet p s) = sdata s"
  by (simp_all add: store_packet_def rx_fields_def)

lemma tx_send_next_frame [frame_simps]:
  "connection_state (snd (tx_send_next env s)) = connection_state s" "rx_fields (snd (tx_send_next env s)) = rx_fields s"
  "receive_packets (snd (tx_send_next env s)) = receive_packets s" "sdata (snd (tx_send_next env s)) = sdata s"
  by (simp_all add: tx_send_next_def rx_fields_def store_packet_def Let_def split: option.split)

lemma send_with_frame [frame_simps]:
  "connection_state (snd (send_with env fl s)) = connection_state s" "rx_fields (snd (send_with env fl s)) = rx_fields s"
  "receive_packets (snd (send_with env fl s)) = receive_packets s" "sdata (snd (send_with env fl s)) = sdata s"
  by (simp_all add: send_with_def frame_simps case_prod_beta)

lemma tx_ack_frame [frame_simps]:
  "connection_state (snd (tx_ack env s)) = connection_state s" "rx_fields (snd (tx_ack env s)) = rx_fields s"
  by (simp_all add: tx_ack_def frame_simps)

lemma tx_reset_frame [frame_simps]:
  "connection_state (snd (tx_reset env q s)) = connection_state s" "rx_fields (snd (tx_reset env q s)) = rx_fields s"
  by (simp_all add: tx_reset_def rx_fields_def Let_def split: prod.split)

lemma tx_send_data_frame [frame_simps]:
  "connection_state (snd (tx_send_data env s)) = connection_state s" "rx_fields (snd (tx_send_data env s)) = rx_fields s"
proof -
  have [simp]: "rx_fields (t\<lparr>sdata := b\<rparr>) = rx_fields t" for t b by (simp add: rx_fields_def)
  show "connection_state (snd (tx_send_data env s)) = connection_state s" "rx_fields (snd (tx_send_data env s)) = rx_fields s"
    by (simp_all add: tx_send_data_def frame_simps Let_def case_prod_beta)
qed

lemma rx_add_packet_frame [frame_simps]:
  "connection_state (snd (rx_add_packet p s)) = connection_state s" "connection_info (snd (rx_add_packet p s)) = connection_info s"
  by (simp_all add: rx_add_packet_def split: prod.split)

lemma rx_commit_frame [frame_simps]:
  "connection_state (snd (rx_commit s)) = connection_state s"
  "next_receive_sequence (connection_info (snd (rx_commit s))) = next_receive_sequence (connection_info s)"
  by (simp_all add: rx_commit_def Let_def split: sum.split prod.split)

lemma rx_keep_frame [frame_simps]:
  "connection_state (snd (rx_keep p s)) = connection_state s"
  "next_receive_sequence (connection_info (snd (rx_keep p s))) = next_receive_sequence (connection_info s)"
  by (simp_all add: rx_keep_def Let_def case_prod_beta frame_simps)

lemma next_receive_fields: "rx_fields s = rx_fields t \<Longrightarrow> next_receive_sequence (connection_info s) = next_receive_sequence (connection_info t)"
  by (simp add: rx_fields_def Let_def)

lemma rx_accept_payload_frame [frame_simps]:
  "connection_state (snd (rx_accept_payload env p s)) = connection_state s"
  "next_receive_sequence (connection_info (snd (rx_accept_payload env p s))) = next_receive_sequence (connection_info s)"
proof -
  show "connection_state (snd (rx_accept_payload env p s)) = connection_state s"
    by (simp add: rx_accept_payload_def Let_def case_prod_beta frame_simps split: option.split)
  have a: "next_receive_sequence (connection_info (snd (tx_ack env t))) = next_receive_sequence (connection_info t)" for t
    by (rule next_receive_fields) (simp add: frame_simps)
  have b: "next_receive_sequence (connection_info (snd (tx_send_data env t))) = next_receive_sequence (connection_info t)" for t
    by (rule next_receive_fields) (simp add: frame_simps)
  show "next_receive_sequence (connection_info (snd (rx_accept_payload env p s))) = next_receive_sequence (connection_info s)"
    by (simp add: rx_accept_payload_def Let_def case_prod_beta frame_simps a b split: option.split)
qed

lemma rx_establish_state:
  "connection_state (snd (rx_establish env p s)) = connection_state s \<or> connection_state (snd (rx_establish env p s)) = ESTABLISHED"
  by (simp add: rx_establish_def Let_def case_prod_beta frame_simps split: option.split)

lemma rx_initial_state:
  "connection_state (snd (rx_initial env p s)) = connection_state s \<or> connection_state (snd (rx_initial env p s)) = SYN_RECEIVED"
  by (simp add: rx_initial_def Let_def case_prod_beta frame_simps)

lemma rx_note_frame [frame_simps]:
  "connection_state (rx_note env p s) = connection_state s" "rx_fields (rx_note env p s) = rx_fields s"
  by (simp_all add: rx_note_def rx_fields_def Let_def)

lemma tcp_open_frame [frame_simps]: "connection_state (tcp_open env a b l r s) = connection_state s"
  by (simp add: tcp_open_def Let_def)

lemma tx_simultaneous_close_state:
  "connection_state (snd (tx_simultaneous_close env s)) = connection_state s \<or> connection_state (snd (tx_simultaneous_close env s)) = CLOSING"
  by (simp add: tx_simultaneous_close_def case_prod_beta frame_simps)

subsection \<open>The state machine\<close>

text \<open>The edges of the state diagram of RFC 793 that a received segment can follow.\<close>

inductive tcp_edge :: "tcp_connection_state \<Rightarrow> tcp_connection_state \<Rightarrow> bool" where
  passive_open: "tcp_edge LISTEN SYN_RECEIVED"
| simultaneous_open: "tcp_edge SYN_SENT SYN_RECEIVED"
| active_open: "tcp_edge SYN_SENT ESTABLISHED"
| handshake_done: "tcp_edge SYN_RECEIVED ESTABLISHED"
| reset_received: "tcp_edge SYN_RECEIVED LISTEN"
| peer_closes: "tcp_edge ESTABLISHED CLOSE_WAIT"
| close_acked: "tcp_edge FIN_WAIT_1 FIN_WAIT_2"
| simultaneous_close: "tcp_edge FIN_WAIT_1 CLOSING"
| both_closed: "tcp_edge FIN_WAIT_2 TIME_WAIT"
| closing_acked: "tcp_edge CLOSING TIME_WAIT"
| last_acked: "tcp_edge LAST_ACK CLOSED"


subsection \<open>Opening from the other side\<close>

lemma segment_len_word: "(of_nat (segment_len p) :: u32) \<noteq> 0"
proof -
  have "int (be16_at p 16) - int (data_offset p * 4 + 34) < 65536" using be16_at_lt [of p 16] by linarith
  then have "1 \<le> segment_len p" "segment_len p < 65536" unfolding segment_len_def by linarith+
  then show ?thesis by (simp add: word_of_nat_eq_0_iff nat_dvd_not_less)
qed

text \<open>The condition of an endpoint that waits for a connection or for its completion.\<close>

definition half_open :: "tcb \<Rightarrow> bool" where
  "half_open s \<longleftrightarrow> connection_state s = LISTEN
     \<or> (connection_state s = SYN_RECEIVED \<and> initial_receive_sequence (connection_info s) \<noteq> 0
        \<and> current_receive_sequence (connection_info s) \<noteq> next_receive_sequence (connection_info s))"

lemma rx_fieldsD:
  assumes "rx_fields s = rx_fields t"
  shows "initial_receive_sequence (connection_info s) = initial_receive_sequence (connection_info t)"
    "current_receive_sequence (connection_info s) = current_receive_sequence (connection_info t)"
    "next_receive_sequence (connection_info s) = next_receive_sequence (connection_info t)"
  using assms by (simp_all add: rx_fields_def Let_def)

lemma half_open_cong: "connection_state s = connection_state t \<Longrightarrow> rx_fields s = rx_fields t \<Longrightarrow> half_open s = half_open t"
  by (frule rx_fieldsD(1), frule rx_fieldsD(2), drule rx_fieldsD(3)) (simp add: half_open_def)

lemma rx_initial_half_open:
  assumes "be32_at p 38 \<noteq> 0" "connection_state s = LISTEN"
  shows "half_open (snd (rx_initial env p s))"
proof -
  define s1 where "s1 = info (\<lambda>i. i\<lparr>peer_window_size := be16_at p 48\<rparr>) s"
  let ?sq = "be32_at p 38"
  define s2 where "s2 = (if has_data p then
                  (case rx_add_packet p s1 of
                     (q, t) \<Rightarrow> info (\<lambda>i. i\<lparr>initial_receive_sequence := ?sq, current_receive_sequence := ?sq, receive_commit_sequence := ?sq,
                                            next_receive_sequence := ?sq + of_nat (segment_len q)\<rparr>) t)
                else info (\<lambda>i. i\<lparr>initial_receive_sequence := ?sq, current_receive_sequence := ?sq, next_receive_sequence := ?sq + 1\<rparr>) s1)"
  have s2: "initial_receive_sequence (connection_info s2) \<noteq> 0" "connection_state s2 = LISTEN"
      "current_receive_sequence (connection_info s2) \<noteq> next_receive_sequence (connection_info s2)"
    using assms segment_len_word by (simp_all add: s2_def s1_def case_prod_beta frame_simps)
  define r where "r = send_with env [ack_bit, syn_bit] s2"
  have r: "connection_state (snd r) = LISTEN" "rx_fields (snd r) = rx_fields s2" using s2 by (simp_all add: r_def frame_simps)
  have e: "rx_initial env p s = (if fst r \<noteq> 0 then (fst r, snd r) else (0, (snd r)\<lparr>connection_state := SYN_RECEIVED\<rparr>))"
    by (simp add: rx_initial_def s1_def [symmetric] s2_def [symmetric] r_def [symmetric] Let_def case_prod_beta)
  show ?thesis using s2 r(1) rx_fieldsD [OF r(2)] unfolding e by (auto simp: half_open_def)
qed

lemma rx_process_half_open:
  assumes "half_open s" "be32_at p 38 \<noteq> 0"
  shows "half_open (snd (rx_process env p s))"
proof -
  define t where "t = rx_note env p s"
  have t: "connection_state t = connection_state s" "half_open t"
    using assms(1) half_open_cong [of t s] by (simp_all add: t_def frame_simps)
  show ?thesis
  proof (cases "connection_state s")
    case LISTEN
    then show ?thesis using t assms(2) rx_initial_half_open [of p "tcp_open env (be32_at p 26) (be16_at p 34) PASSIVE ACTIVE t" env]
      by (simp add: rx_process_def t_def [symmetric] plain_def frame_simps)
  next
    case SYN_RECEIVED
    then have r: "half_open t" "connection_state t = SYN_RECEIVED" using t by simp_all
    have "half_open (snd (rx_establish env p t))" if "seq_chk (next_receive_sequence (connection_info t)) p" "flag ack_bit p"
    proof (cases "ack_chk (next_send_sequence (connection_info t)) p")
      case True
      then show ?thesis using that r by (auto simp: rx_establish_def half_open_def seq_chk_def Let_def)
    next
      case False
      then show ?thesis using r half_open_cong [of "snd (tx_reset env (be32_at p 42) t)" t]
        by (simp add: rx_establish_def case_prod_beta frame_simps)
    qed
    then show ?thesis using r SYN_RECEIVED
      by (simp add: rx_process_def t_def [symmetric]) (simp add: half_open_def rx_reset_def Let_def)
  qed (use assms(1) in \<open>simp_all add: half_open_def\<close>)
qed

lemma be32_at_put32 [simp]: "off + 3 < length p \<Longrightarrow> be32_at (put32 off v p) off = v"
proof -
  assume "off + 3 < length p"
  moreover obtain a b c d where "be32_put v = [a, b, c, d]" by (auto simp: be32_put_def be16_put_def)
  moreover from this have "be32_get [a, b, c, d] = v" using be32_roundtrip [of v "[]"] by simp
  ultimately show ?thesis by (simp add: be32_at_def put32_def)
qed

text \<open>An endpoint and a host for examples.\<close>

definition sample_host :: tcp_env where
  "sample_host = \<lparr>tx_code = (\<lambda>_. 0), generate_isn = (\<lambda>_ _ _ _. 1000), host_config = reset_config, frame_macs = replicate 12 0,
     split_time = 10, one_second = 1000\<rparr>"

definition sample_endpoint :: "tcp_connection_state \<Rightarrow> tcb" where
  "sample_endpoint st = (new_tcb sample_host 80)\<lparr>connection_state := st\<rparr>"

definition sample_segment :: "u8 list" where
  "sample_segment = (put16 16 60 (put32 38 5 (replicate 60 7)))[46 := 5]"

lemma sample_segment_seq: "be32_at sample_segment 38 = 5"
proof -
  have "be32_at sample_segment 38 = be32_at (put32 38 5 (replicate 60 7)) 38"
    by (simp add: sample_segment_def be32_at_def)
  then show ?thesis by simp
qed

text \<open>
  A connection opened by the peer is never completed: an endpoint that listens never reaches the established
  state by receiving segments whose sequence numbers are not zero, because the segment that would complete the
  handshake is required to carry two different sequence numbers.
\<close>

theorem passive_open_never_completes:
  assumes "connection_state s = LISTEN" "\<forall>p \<in> set ps. be32_at p 38 \<noteq> 0"
  shows "connection_state (rx_run env ps s) \<in> {LISTEN, SYN_RECEIVED}"
proof -
  have "half_open (rx_run env ps s)" if "half_open s" "\<forall>p \<in> set ps. be32_at p 38 \<noteq> 0" for s
    using that by (induction ps arbitrary: s) (simp_all add: rx_run_def rx_process_half_open)
  then have "half_open (rx_run env ps s)" using assms by (simp add: half_open_def)
  then show ?thesis by (auto simp: half_open_def)
qed

theorem passive_open_never_completes_witness:
  "connection_state (rx_run sample_host [sample_segment, sample_segment] (sample_endpoint LISTEN)) \<in> {LISTEN, SYN_RECEIVED}"
  by (rule passive_open_never_completes) (simp_all add: sample_endpoint_def sample_segment_seq)

subsection \<open>Segments of an established connection\<close>

definition is_open :: "u32 \<Rightarrow> tcb \<Rightarrow> bool" where
  "is_open n s \<longleftrightarrow> connection_state s \<in> {ESTABLISHED, CLOSE_WAIT} \<and> next_receive_sequence (connection_info s) = n"

lemma rx_process_open:
  assumes "is_open n s"
  shows "is_open n (snd (rx_process env p s))"
proof -
  define t where "t = rx_note env p s"
  have t: "connection_state t = connection_state s" "next_receive_sequence (connection_info t) = next_receive_sequence (connection_info s)"
    using next_receive_fields [of t s] by (simp_all add: t_def frame_simps)
  consider "connection_state s = ESTABLISHED" | "connection_state s = CLOSE_WAIT" using assms by (auto simp: is_open_def)
  then show ?thesis
  proof cases
    case 1
    then show ?thesis using assms t
      by (simp add: is_open_def rx_process_def t_def [symmetric] rx_begin_close_def frame_simps)
  next
    case 2
    then show ?thesis using assms t by (simp add: is_open_def rx_process_def t_def [symmetric])
  qed
qed

text \<open>
  An established connection does not advance: the sequence number expected from the peer stays what it was,
  so after any sequence of segments one with another sequence number, like the one that follows the first
  segment with data, is dropped without an answer and without a change of the endpoint.
\<close>

theorem established_never_advances:
  assumes "connection_state s = ESTABLISHED" "be32_at p 38 \<noteq> next_receive_sequence (connection_info s)"
  shows "rx_process env p (rx_run env ps s) = (Inr 0, rx_run env ps s)"
proof -
  let ?n = "next_receive_sequence (connection_info s)"
  have "is_open n (rx_run env ps s)" if "is_open n s" for n s
    using that by (induction ps arbitrary: s) (simp_all add: rx_run_def rx_process_open)
  then have o: "is_open ?n (rx_run env ps s)" using assms by (simp add: is_open_def)
  then have "\<not> peer_chk (connection_info (rx_run env ps s)) p" using assms(2) by (auto simp: is_open_def peer_chk_def seq_chk_def)
  moreover from o consider "connection_state (rx_run env ps s) = ESTABLISHED" | "connection_state (rx_run env ps s) = CLOSE_WAIT"
    by (auto simp: is_open_def)
  ultimately show ?thesis by (cases "connection_state (rx_run env ps s)") (auto simp: rx_process_def rx_note_def)
qed

theorem established_never_advances_witness:
  "rx_process sample_host sample_segment (rx_run sample_host [] (sample_endpoint ESTABLISHED)) = (Inr 0, rx_run sample_host [] (sample_endpoint ESTABLISHED))"
  by (rule established_never_advances) (simp_all add: sample_endpoint_def new_tcb_def no_connection_def sample_segment_seq)

subsection \<open>Delivery\<close>

text \<open>The stored segments that follow one another from a sequence number on.\<close>

inductive commit_chain :: "sequence_map \<Rightarrow> u32 \<Rightarrow> u8 list list \<Rightarrow> u32 \<Rightarrow> bool" for rp where
  chain_end: "map_of rp sq = None \<Longrightarrow> commit_chain rp sq [] sq"
| chain_next: "map_of rp sq = Some p \<Longrightarrow> commit_chain rp (sq + of_nat (segment_len p)) ps e \<Longrightarrow> commit_chain rp sq (p # ps) e"

inductive_cases chain_NilE: "commit_chain rp sq [] e"
inductive_cases chain_ConsE: "commit_chain rp sq (p # ps) e"

lemma chain_deterministic: "commit_chain rp sq ps e \<Longrightarrow> commit_chain rp sq qs e' \<Longrightarrow> ps = qs"
proof (induction arbitrary: qs e' rule: commit_chain.induct)
  case (chain_end sq)
  from chain_end(2) show ?case by (rule commit_chain.cases) (use chain_end(1) in auto)
next
  case (chain_next sq p ps e)
  from chain_next.prems chain_next.hyps(1) obtain qs' where "qs = p # qs'" "commit_chain rp (sq + of_nat (segment_len p)) qs' e'"
    by (cases rule: commit_chain.cases) simp_all
  then show ?case using chain_next.IH by simp
qed

lemma chain_keys:
  "commit_chain rp sq ps e \<Longrightarrow> \<exists>ks. length ks = length ps \<and> distinct ks \<and> set ks \<subseteq> fst ` set rp
     \<and> (\<forall>k \<in> set ks. \<exists>qs e'. commit_chain rp k qs e' \<and> length qs \<le> length ps)"
proof (induction rule: commit_chain.induct)
  case (chain_next sq p ps e)
  then obtain ks where ks: "length ks = length ps" "distinct ks" "set ks \<subseteq> fst ` set rp"
      "\<forall>k \<in> set ks. \<exists>qs e'. commit_chain rp k qs e' \<and> length qs \<le> length ps" by blast
  have c: "commit_chain rp sq (p # ps) e" using chain_next.hyps by (rule commit_chain.chain_next)
  have "sq \<notin> set ks" using ks(4) chain_deterministic [OF c] by fastforce
  moreover have "sq \<in> fst ` set rp" using chain_next.hyps(1) map_of_SomeD by force
  moreover have "\<forall>k \<in> set (sq # ks). \<exists>qs e'. commit_chain rp k qs e' \<and> length qs \<le> length (p # ps)"
    using ks(4) c by (metis length_Cons le_SucI le_refl set_ConsD)
  ultimately show ?case using ks by (intro exI [of _ "sq # ks"]) simp
qed simp

lemma commit_chain_length: "commit_chain rp sq ps e \<Longrightarrow> length ps \<le> length rp"
proof -
  assume "commit_chain rp sq ps e"
  then obtain ks where ks: "length ks = length ps" "distinct ks" "set ks \<subseteq> fst ` set rp" using chain_keys by blast
  have "length ps = card (set ks)" using ks by (simp add: distinct_card)
  also have "\<dots> \<le> card (fst ` set rp)" using ks(3) by (intro card_mono) simp_all
  also have "\<dots> \<le> length rp" by (meson card_image_le card_length finite_set order.trans)
  finally show ?thesis .
qed

definition chain_data :: "u8 list list \<Rightarrow> u8 list" where
  "chain_data ps = concat (map (\<lambda>p. if has_data p then the (payload p) else []) ps)"

lemma commit_loop_chain:
  assumes "commit_chain rp sq ps e" "length ps < f" "\<forall>p \<in> set ps. has_data p \<longrightarrow> payload p \<noteq> None"
  shows "commit_loop f rp sq b = Inr (e, rx_push (chain_data ps) b)"
  using assms
proof (induction arbitrary: f b rule: commit_chain.induct)
  case (chain_end sq)
  then show ?case by (cases f) (simp_all add: rx_push_def chain_data_def)
next
  case (chain_next sq p ps e)
  then obtain g where g: "f = Suc g" "length ps < g" by (cases f) auto
  note ih = chain_next.IH [OF g(2)]
  show ?case
  proof (cases "has_data p")
    case True
    then obtain bs where bs: "payload p = Some bs" using chain_next.prems by auto
    show ?thesis using True bs g(1) chain_next.hyps(1) ih [of "rx_push bs b"] chain_next.prems(2)
      by (simp add: rx_push_def chain_data_def)
  next
    case False
    then show ?thesis using g(1) chain_next.hyps(1) ih [of b] chain_next.prems(2) by (simp add: chain_data_def)
  qed
qed



end
