(* ===== verification/Tree_Links.thy ===== *)
theory Tree_Links
  imports Address "HOL-Library.Tree" "HOL-Library.Monad_Syntax"
begin

text \<open>
  The red-black tree under \<open>std::map\<close> and \<open>std::set\<close> of the kernel: the linked nodes of
  \<open>common/include/c++/bits/stl_tree.hpp\<close> and the rebalancing routines of \<open>lib/libk/tree_impl.cpp\<close>.  Nodes are
  a partial store indexed by address; 0 is the null pointer, and an access to an address without a node makes
  an operation \<open>None\<close>.  The trunk is the node inside the tree object: its parent is the root, its left and right
  are the first and the last node.  References to fields of the trunk, which the code passes around, are
  replaced by the address of the trunk.
\<close>

subsection \<open>Nodes\<close>

datatype node_color = RED | BLACK

datatype node_direction = LEFT | RIGHT

definition opposite :: "node_direction \<Rightarrow> node_direction" where
  "opposite d = (if d = LEFT then RIGHT else LEFT)"

record node_base =
  my_color :: node_color
  my_parent :: addr
  my_left :: addr
  my_right :: addr

type_synonym nodes = "addr \<rightharpoonup> node_base"

definition next_of :: "node_direction \<Rightarrow> node_base \<Rightarrow> addr" where
  "next_of dir n = (if dir = RIGHT then my_right n else my_left n)"

definition set_next :: "node_direction \<Rightarrow> addr \<Rightarrow> node_base \<Rightarrow> node_base" where
  "set_next dir a n = (if dir = RIGHT then n\<lparr>my_right := a\<rparr> else n\<lparr>my_left := a\<rparr>)"

definition modify :: "addr \<Rightarrow> (node_base \<Rightarrow> node_base) \<Rightarrow> nodes \<Rightarrow> nodes option" where
  "modify a f h = (case h a of None \<Rightarrow> None | Some n \<Rightarrow> Some (h(a \<mapsto> f n)))"

lemma modify_Some [simp]: "h a = Some n \<Longrightarrow> modify a f h = Some (h(a \<mapsto> f n))"
  by (simp add: modify_def)

definition set_color :: "node_color \<Rightarrow> node_base \<Rightarrow> node_base" where
  "set_color c n = n\<lparr>my_color := c\<rparr>"

definition set_parent :: "addr \<Rightarrow> node_base \<Rightarrow> node_base" where
  "set_parent a n = n\<lparr>my_parent := a\<rparr>"

definition is_black :: "addr \<Rightarrow> nodes \<Rightarrow> bool option" where
  "is_black a h = (if a = 0 then Some True else do { n \<leftarrow> h a; Some (my_color n = BLACK) })"

subsection \<open>Moving through the tree\<close>

partial_function (option) node_min :: "addr \<Rightarrow> nodes \<Rightarrow> addr option" where
  "node_min x h = do { n \<leftarrow> h x; if my_left n = 0 then Some x else node_min (my_left n) h }"

partial_function (option) node_max :: "addr \<Rightarrow> nodes \<Rightarrow> addr option" where
  "node_max x h = do { n \<leftarrow> h x; if my_right n = 0 then Some x else node_max (my_right n) h }"

text \<open>Climbing while the node is the child on one side of its parent; the last node and its parent.\<close>

partial_function (option) climb :: "node_direction \<Rightarrow> addr \<Rightarrow> addr \<Rightarrow> nodes \<Rightarrow> (addr \<times> addr) option" where
  "climb d x y h = do { n \<leftarrow> h y; if x = next_of d n then climb d y (my_parent n) h else Some (x, y) }"

definition increment_node :: "addr \<Rightarrow> nodes \<Rightarrow> addr option" where
  "increment_node x h = do {
     n \<leftarrow> h x;
     if my_right n \<noteq> 0 then node_min (my_right n) h
     else do {
       (x', y) \<leftarrow> climb RIGHT x (my_parent n) h;
       n' \<leftarrow> h x';
       Some (if my_right n' \<noteq> y then y else x') } }"

definition decrement_node :: "addr \<Rightarrow> nodes \<Rightarrow> addr option" where
  "decrement_node x h = do {
     n \<leftarrow> h x;
     at_end \<leftarrow> (if my_color n = RED then do { p \<leftarrow> h (my_parent n); Some (my_parent p = x) } else Some False);
     if at_end then Some (my_right n)
     else if my_left n \<noteq> 0 then node_max (my_left n) h
     else do { (x', y) \<leftarrow> climb LEFT x (my_parent n) h; Some y } }"

subsection \<open>Rotation\<close>

text \<open>The pointer to the node \<open>x\<close>, in the trunk or in its parent, is set to \<open>y\<close>.\<close>

definition relink :: "addr \<Rightarrow> addr \<Rightarrow> node_direction \<Rightarrow> addr \<Rightarrow> nodes \<Rightarrow> nodes option" where
  "relink trunk x dir y h = do {
     nt \<leftarrow> h trunk;
     if x = my_parent nt then modify trunk (set_parent y) h
     else do {
       nx \<leftarrow> h x;
       np \<leftarrow> h (my_parent nx);
       modify (my_parent nx) (set_next (if x = next_of dir np then dir else opposite dir) y) h } }"

definition rotate_node :: "addr \<Rightarrow> addr \<Rightarrow> node_direction \<Rightarrow> nodes \<Rightarrow> nodes option" where
  "rotate_node trunk x dir h = do {
     let odir = opposite dir;
     nx \<leftarrow> h x;
     let y = next_of odir nx;
     ny \<leftarrow> h y;
     h1 \<leftarrow> modify x (set_next odir (next_of dir ny)) h;
     ny1 \<leftarrow> h1 y;
     h2 \<leftarrow> (if next_of dir ny1 \<noteq> 0 then modify (next_of dir ny1) (set_parent x) h1 else Some h1);
     nx2 \<leftarrow> h2 x;
     h3 \<leftarrow> modify y (set_parent (my_parent nx2)) h2;
     h4 \<leftarrow> relink trunk x dir y h3;
     h5 \<leftarrow> modify y (set_next dir x) h4;
     modify x (set_parent y) h5 }"

subsection \<open>Insertion\<close>

definition insertion_rebalance :: "addr \<Rightarrow> addr \<Rightarrow> nodes \<Rightarrow> (addr \<times> nodes) option" where
  "insertion_rebalance trunk x h = do {
     nx \<leftarrow> h x;
     let p = my_parent nx;
     np \<leftarrow> h p;
     let w = my_parent np;
     nw \<leftarrow> h w;
     let y = (if p = my_left nw then my_right nw else my_left nw);
     let z = (if p = my_left nw then my_right np else my_left np);
     y_black \<leftarrow> is_black y h;
     if \<not> y_black then do {
       h1 \<leftarrow> modify p (set_color BLACK) h;
       h2 \<leftarrow> modify y (set_color BLACK) h1;
       h3 \<leftarrow> modify w (set_color RED) h2;
       Some (w, h3) }
     else do {
       let dir = (if p = my_left nw then RIGHT else LEFT);
       (x1, h1) \<leftarrow> (if x = z then do { h' \<leftarrow> rotate_node trunk p (opposite dir) h; Some (p, h') } else Some (x, h));
       nx1 \<leftarrow> h1 x1;
       h2 \<leftarrow> modify (my_parent nx1) (set_color BLACK) h1;
       h3 \<leftarrow> modify w (set_color RED) h2;
       h4 \<leftarrow> rotate_node trunk w dir h3;
       Some (x1, h4) } }"

partial_function (option) insert_loop :: "addr \<Rightarrow> addr \<Rightarrow> nodes \<Rightarrow> nodes option" where
  "insert_loop trunk x h = do {
     nt \<leftarrow> h trunk;
     if x = my_parent nt then Some h
     else do {
       nx \<leftarrow> h x;
       np \<leftarrow> h (my_parent nx);
       if my_color np = RED
       then do { (x', h') \<leftarrow> insertion_rebalance trunk x h; insert_loop trunk x' h' }
       else Some h } }"

definition insert_and_rebalance :: "node_direction \<Rightarrow> addr \<Rightarrow> addr \<Rightarrow> addr \<Rightarrow> nodes \<Rightarrow> nodes option" where
  "insert_and_rebalance dir x p trunk h = do {
     h1 \<leftarrow> modify x (\<lambda>n. \<lparr>my_color = RED, my_parent = p, my_left = 0, my_right = 0\<rparr>) h;
     h2 \<leftarrow> (if p = trunk then modify p (\<lambda>n. n\<lparr>my_left := x, my_right := x, my_parent := x\<rparr>) h1
           else do {
             h' \<leftarrow> modify p (set_next dir x) h1;
             nt \<leftarrow> h' trunk;
             if p = next_of dir nt then modify trunk (set_next dir x) h' else Some h' });
     h3 \<leftarrow> insert_loop trunk x h2;
     nt \<leftarrow> h3 trunk;
     modify (my_parent nt) (set_color BLACK) h3 }"

subsection \<open>Removal\<close>

text \<open>
  \<open>__fix_double_black\<close>; the node \<open>x\<close> may be null, and then the rotation around it is an access through a null
  pointer.  The result is the new node and parent and whether the loop ends.
\<close>

definition fix_double_black :: "addr \<Rightarrow> addr \<Rightarrow> addr \<Rightarrow> node_direction \<Rightarrow> nodes \<Rightarrow> (bool \<times> addr \<times> addr \<times> nodes) option" where
  "fix_double_black trunk x xp dir h = do {
     np \<leftarrow> h xp;
     nw \<leftarrow> h (next_of dir np);
     (w, h1) \<leftarrow> (if my_color nw = RED then do {
         ha \<leftarrow> modify (next_of dir np) (set_color BLACK) h;
         hb \<leftarrow> modify xp (set_color RED) ha;
         hc \<leftarrow> rotate_node trunk x (opposite dir) hb;
         np' \<leftarrow> hc xp;
         Some (next_of dir np', hc) }
       else Some (next_of dir np, h));
     nw1 \<leftarrow> h1 w;
     bl \<leftarrow> is_black (my_left nw1) h1;
     br \<leftarrow> is_black (my_right nw1) h1;
     if bl \<and> br then do {
       h2 \<leftarrow> modify w (set_color RED) h1;
       np2 \<leftarrow> h2 xp;
       Some (False, xp, my_parent np2, h2) }
     else do {
       bd \<leftarrow> is_black (next_of dir nw1) h1;
       (w2, h2) \<leftarrow> (if bd then do {
           ha \<leftarrow> modify (next_of (opposite dir) nw1) (set_color BLACK) h1;
           hb \<leftarrow> modify w (set_color RED) ha;
           hc \<leftarrow> rotate_node trunk w dir hb;
           np' \<leftarrow> hc xp;
           Some (next_of dir np', hc) }
         else Some (w, h1));
       np2 \<leftarrow> h2 xp;
       h3 \<leftarrow> modify w2 (set_color (my_color np2)) h2;
       h4 \<leftarrow> modify xp (set_color BLACK) h3;
       nw4 \<leftarrow> h4 w2;
       if next_of dir nw4 \<noteq> 0 then do {
         h5 \<leftarrow> modify (next_of dir nw4) (set_color BLACK) h4;
         h6 \<leftarrow> rotate_node trunk xp (opposite dir) h5;
         Some (True, x, xp, h6) }
       else Some (False, x, xp, h4) } }"

partial_function (option) erase_loop :: "addr \<Rightarrow> addr \<Rightarrow> addr \<Rightarrow> nodes \<Rightarrow> nodes option" where
  "erase_loop trunk x xp h = do {
     nt \<leftarrow> h trunk;
     b \<leftarrow> is_black x h;
     if x = my_parent nt \<or> \<not> b then Some h
     else do {
       np \<leftarrow> h xp;
       (stop, x', xp', h') \<leftarrow> fix_double_black trunk x xp (if x = my_left np then RIGHT else LEFT) h;
       if stop then Some h'
       else do {
         h'' \<leftarrow> (if x' \<noteq> 0 then modify x' (set_color BLACK) h' else Some h');
         erase_loop trunk x' xp' h'' } } }"

text \<open>
  \<open>__rebalance_for_erase\<close>.  The code sets \<open>y\<close> to the node removed and only changes it where \<open>y\<close> differs from that
  node, so the part that moves the successor into its place is never reached and has no counterpart here.
\<close>

definition rebalance_for_erase :: "addr \<Rightarrow> addr \<Rightarrow> nodes \<Rightarrow> (addr \<times> nodes) option" where
  "rebalance_for_erase z trunk h = do {
     nz \<leftarrow> h z;
     x \<leftarrow> (if my_left nz = 0 then Some (my_right nz)
          else if my_right nz = 0 then Some (my_left nz)
          else do { m \<leftarrow> node_min (my_right nz) h; nm \<leftarrow> h m; Some (my_right nm) });
     let xp = my_parent nz;
     nt \<leftarrow> h trunk;
     h1 \<leftarrow> (if my_parent nt = z then modify trunk (set_parent x) h
           else do { np \<leftarrow> h xp; modify xp (set_next (if z = my_left np then LEFT else RIGHT) x) h });
     nt1 \<leftarrow> h1 trunk;
     h2 \<leftarrow> (if z = my_left nt1
           then (if my_right nz = 0 then modify trunk (set_next LEFT xp) h1
                 else do { m \<leftarrow> node_min x h1; modify trunk (set_next LEFT m) h1 })
           else Some h1);
     nt2 \<leftarrow> h2 trunk;
     h3 \<leftarrow> (if z = my_right nt2
           then (if my_left nz \<noteq> 0 then modify trunk (set_next RIGHT xp) h2
                 else do { m \<leftarrow> node_max z h2; modify trunk (set_next RIGHT m) h2 })
           else Some h2);
     h4 \<leftarrow> (if my_color nz \<noteq> RED then erase_loop trunk x xp h3 else Some h3);
     nt4 \<leftarrow> h4 trunk;
     h5 \<leftarrow> modify (my_parent nt4) (set_color BLACK) h4;
     Some (z, h5) }"

subsection \<open>Linked nodes as trees\<close>

text \<open>
  A tree of addresses and colors describes linked nodes: the pointers of each node are the roots of its subtrees,
  and its parent is the node above it.  \<open>mk d\<close> builds a tree whose subtree on side \<open>d\<close> is the first one, so
  that the two mirror images of a situation are one.
\<close>

type_synonym ntree = "(addr \<times> node_color) tree"

fun ptr :: "ntree \<Rightarrow> addr" where
  "ptr Leaf = 0"
| "ptr (Node l a r) = fst a"

fun tree_at :: "nodes \<Rightarrow> addr \<Rightarrow> ntree \<Rightarrow> bool" where
  "tree_at h par Leaf \<longleftrightarrow> True"
| "tree_at h par (Node l a r) \<longleftrightarrow>
     fst a \<noteq> 0 \<and> h (fst a) = Some \<lparr>my_color = snd a, my_parent = par, my_left = ptr l, my_right = ptr r\<rparr>
     \<and> tree_at h (fst a) l \<and> tree_at h (fst a) r"

definition addrs :: "ntree \<Rightarrow> addr list" where
  "addrs t = map fst (inorder t)"

definition mk :: "node_direction \<Rightarrow> 'a \<Rightarrow> 'a tree \<Rightarrow> 'a tree \<Rightarrow> 'a tree" where
  "mk d a t u = (if d = LEFT then Node t a u else Node u a t)"

definition mknode :: "node_direction \<Rightarrow> node_color \<Rightarrow> addr \<Rightarrow> addr \<Rightarrow> addr \<Rightarrow> node_base" where
  "mknode d c par p q =
     \<lparr>my_color = c, my_parent = par, my_left = (if d = LEFT then p else q), my_right = (if d = LEFT then q else p)\<rparr>"

lemma opposite_opposite [simp]: "opposite (opposite d) = d" "opposite d \<noteq> d" "d \<noteq> opposite d"
  by (cases d; simp add: opposite_def)+

lemma opposite_simps [simp]: "opposite LEFT = RIGHT" "opposite RIGHT = LEFT"
  by (simp_all add: opposite_def)

lemma direction_cases: obtains "d' = d" | "d' = opposite d"
  by (cases d; cases d') (auto simp: opposite_def)

lemma mknode_simps [simp]:
  "next_of d (mknode d c par p q) = p" "next_of (opposite d) (mknode d c par p q) = q"
  "set_next d r (mknode d c par p q) = mknode d c par r q" "set_next (opposite d) r (mknode d c par p q) = mknode d c par p r"
  "set_parent r (mknode d c par p q) = mknode d c r p q" "set_color c' (mknode d c par p q) = mknode d c' par p q"
  "my_parent (mknode d c par p q) = par" "my_color (mknode d c par p q) = c"
  by (cases d; simp add: next_of_def set_next_def set_parent_def set_color_def mknode_def opposite_def)+

lemma mknode_opposite: "mknode (opposite d) c par p q = mknode d c par q p"
  by (cases d) (simp_all add: mknode_def opposite_def)

lemma mk_opposite: "mk (opposite d) a t u = mk d a u t"
  by (cases d) (simp_all add: mk_def opposite_def)

lemma mk_not_Leaf [simp]: "mk d a t u \<noteq> Leaf"
  by (simp add: mk_def)

lemma ptr_mk [simp]: "ptr (mk d a t u) = fst a"
  by (simp add: mk_def)

lemma tree_at_mk [simp]:
  "tree_at h par (mk d a t u) \<longleftrightarrow>
     fst a \<noteq> 0 \<and> h (fst a) = Some (mknode d (snd a) par (ptr t) (ptr u)) \<and> tree_at h (fst a) t \<and> tree_at h (fst a) u"
  by (auto simp: mk_def mknode_def)

lemma addrs_simps [simp]:
  "addrs Leaf = []" "addrs (Node l a r) = addrs l @ fst a # addrs r"
  by (simp_all add: addrs_def)

lemma set_addrs_mk [simp]: "set (addrs (mk d a t u)) = {fst a} \<union> set (addrs t) \<union> set (addrs u)"
  by (auto simp: mk_def)

lemma distinct_addrs_mk [simp]:
  "distinct (addrs (mk d a t u)) \<longleftrightarrow>
     fst a \<notin> set (addrs t) \<and> fst a \<notin> set (addrs u) \<and> distinct (addrs t) \<and> distinct (addrs u)
     \<and> set (addrs t) \<inter> set (addrs u) = {}"
  by (auto simp: mk_def)

lemma ptr_mem: "ptr t = 0 \<or> ptr t \<in> set (addrs t)"
  by (cases t) auto

lemma tree_at_nonnull: "tree_at h par t \<Longrightarrow> 0 \<notin> set (addrs t)"
  by (induction t arbitrary: par) auto

lemma tree_at_cong: "(\<And>a. a \<in> set (addrs t) \<Longrightarrow> h' a = h a) \<Longrightarrow> tree_at h' par t \<longleftrightarrow> tree_at h par t"
  by (induction t arbitrary: par) auto

lemma tree_at_upd [simp]: "b \<notin> set (addrs t) \<Longrightarrow> tree_at (h(b \<mapsto> n)) par t \<longleftrightarrow> tree_at h par t"
  by (rule tree_at_cong) auto

text \<open>What is around a subtree: the nodes on the way up, each with the side taken, and the subtrees beside it.\<close>

type_synonym around = "(node_direction \<times> (addr \<times> node_color) \<times> ntree) list"

fun plug :: "around \<Rightarrow> ntree \<Rightarrow> ntree" where
  "plug [] t = t"
| "plug ((d, a, s) # cs) t = plug cs (mk d a t s)"

fun upper :: "addr \<Rightarrow> around \<Rightarrow> addr" where
  "upper trunk [] = trunk"
| "upper trunk ((d, a, s) # cs) = fst a"

fun around_at :: "nodes \<Rightarrow> addr \<Rightarrow> addr \<Rightarrow> around \<Rightarrow> bool" where
  "around_at h trunk p [] \<longleftrightarrow> (\<exists>nt. h trunk = Some nt \<and> my_parent nt = p)"
| "around_at h trunk p ((d, a, s) # cs) \<longleftrightarrow>
     fst a \<noteq> 0 \<and> h (fst a) = Some (mknode d (snd a) (upper trunk cs) p (ptr s)) \<and> tree_at h (fst a) s
     \<and> around_at h trunk (fst a) cs"

fun caddrs :: "around \<Rightarrow> addr list" where
  "caddrs [] = []"
| "caddrs ((d, a, s) # cs) = fst a # addrs s @ caddrs cs"

definition root_ptr :: "addr \<Rightarrow> around \<Rightarrow> addr" where
  "root_ptr p cs = (if cs = [] then p else fst (fst (snd (last cs))))"

lemma around_at_cong:
  assumes "\<And>a. a \<in> insert trunk (set (caddrs cs)) \<Longrightarrow> h' a = h a"
  shows "around_at h' trunk p cs \<longleftrightarrow> around_at h trunk p cs"
  using assms
proof (induction cs arbitrary: p)
  case (Cons c cs)
  obtain d a s where c: "c = (d, a, s)" by (cases c)
  have "tree_at h' (fst a) s \<longleftrightarrow> tree_at h (fst a) s" by (rule tree_at_cong) (use Cons.prems c in auto)
  moreover have "around_at h' trunk (fst a) cs \<longleftrightarrow> around_at h trunk (fst a) cs"
    by (rule Cons.IH) (use Cons.prems c in auto)
  ultimately show ?case using Cons.prems c by simp
qed simp

lemma around_at_upd [simp]:
  "b \<noteq> trunk \<Longrightarrow> b \<notin> set (caddrs cs) \<Longrightarrow> around_at (h(b \<mapsto> n)) trunk p cs \<longleftrightarrow> around_at h trunk p cs"
  by (rule around_at_cong) auto

lemma around_at_root:
  "around_at h trunk p cs \<Longrightarrow> \<exists>nt. h trunk = Some nt \<and> my_parent nt = root_ptr p cs"
proof (induction cs arbitrary: p)
  case (Cons c cs)
  then show ?case by (cases c) (auto simp: root_ptr_def split: if_splits)
qed (simp add: root_ptr_def)

lemma around_at_nonnull: "around_at h trunk p cs \<Longrightarrow> 0 \<notin> set (caddrs cs)"
  by (induction h trunk p cs rule: around_at.induct) (auto dest: tree_at_nonnull)

lemma upper_mem: "upper trunk cs \<in> insert trunk (set (caddrs cs))"
  by (cases "(trunk, cs)" rule: upper.cases) auto

lemma root_ptr_mem: "cs \<noteq> [] \<Longrightarrow> root_ptr p cs \<in> set (caddrs cs)"
  by (induction cs rule: caddrs.induct) (auto simp: root_ptr_def)

lemma plug_at:
  "tree_at h trunk (plug cs t) \<and> (\<exists>nt. h trunk = Some nt \<and> my_parent nt = ptr (plug cs t))
    \<longleftrightarrow> around_at h trunk (ptr t) cs \<and> tree_at h (upper trunk cs) t"
  by (induction cs t rule: plug.induct) auto

lemma set_addrs_plug: "set (addrs (plug cs t)) = set (caddrs cs) \<union> set (addrs t)"
  by (induction cs t rule: plug.induct) auto

lemma distinct_addrs_plug: "distinct (addrs (plug cs t)) \<longleftrightarrow> distinct (caddrs cs @ addrs t)"
  by (induction cs t rule: plug.induct) (auto simp: set_addrs_plug)

text \<open>The state of the routines: a subtree in its surroundings.\<close>

definition focus :: "nodes \<Rightarrow> addr \<Rightarrow> around \<Rightarrow> ntree \<Rightarrow> bool" where
  "focus h trunk cs t \<longleftrightarrow>
     h 0 = None \<and> around_at h trunk (ptr t) cs \<and> tree_at h (upper trunk cs) t \<and> distinct (trunk # caddrs cs @ addrs t)"

definition ends :: "nodes \<Rightarrow> addr \<Rightarrow> (addr \<times> addr \<times> node_color) option" where
  "ends h trunk = map_option (\<lambda>n. (my_left n, my_right n, my_color n)) (h trunk)"

definition same_rest :: "nodes \<Rightarrow> nodes \<Rightarrow> addr \<Rightarrow> addr set \<Rightarrow> bool" where
  "same_rest h h' trunk A \<longleftrightarrow> (\<forall>a. a \<notin> A \<longrightarrow> a \<noteq> trunk \<longrightarrow> h' a = h a) \<and> ends h' trunk = ends h trunk"


text \<open>A subtree that gets a new parent.\<close>

definition reparent :: "addr \<Rightarrow> ntree \<Rightarrow> nodes \<Rightarrow> nodes" where
  "reparent x t h = (case t of Leaf \<Rightarrow> h | Node l a r \<Rightarrow> h(fst a \<mapsto> \<lparr>my_color = snd a, my_parent = x, my_left = ptr l, my_right = ptr r\<rparr>))"

lemma reparent_at: "tree_at h par t \<Longrightarrow> distinct (addrs t) \<Longrightarrow> tree_at (reparent x t h) x t"
  by (cases t) (auto simp: reparent_def)

lemma reparent_other: "a \<notin> set (addrs t) \<Longrightarrow> reparent x t h a = h a"
  by (cases t) (auto simp: reparent_def)

lemma modify_parent:
  assumes "tree_at h par t"
  shows "(if ptr t \<noteq> 0 then modify (ptr t) (set_parent x) h else Some h) = Some (reparent x t h)"
  using assms by (cases t) (auto simp: reparent_def modify_def set_parent_def)

lemma relink_around:
  assumes "around_at h trunk x cs" "distinct (trunk # caddrs cs)" "x \<notin> set (caddrs cs)" "x \<noteq> 0" "h x = Some nx" "my_parent nx = upper trunk cs"
  obtains h' where "relink trunk x dir y h = Some h'" "around_at h' trunk y cs" "\<And>a. a \<noteq> upper trunk cs \<Longrightarrow> h' a = h a"
    "ends h' trunk = ends h trunk"
proof (cases cs)
  case Nil
  then show thesis using assms that by (auto simp: relink_def modify_def ends_def set_parent_def)
next
  case (Cons c cs')
  obtain d a s where c: "c = (d, a, s)" by (cases c)
  obtain nt where nt: "h trunk = Some nt" "my_parent nt = root_ptr x cs" using around_at_root [OF assms(1)] by auto
  then have ne: "x \<noteq> my_parent nt" using root_ptr_mem [of cs x] Cons assms(3) by auto
  have a: "fst a \<noteq> 0" "h (fst a) = Some (mknode d (snd a) (upper trunk cs') x (ptr s))" "tree_at h (fst a) s"
    "around_at h trunk (fst a) cs'" using assms(1) Cons c by simp_all
  have sx: "ptr s \<noteq> x" using ptr_mem [of s] assms(3,4) Cons c by auto
  define h' where "h' = h(fst a \<mapsto> mknode d (snd a) (upper trunk cs') y (ptr s))"
  have "relink trunk x dir y h = Some h'"
    using nt ne a sx assms(5,6) Cons c by (cases rule: direction_cases [of d dir]) (simp_all add: relink_def modify_def h'_def mknode_opposite)
  moreover have "around_at h' trunk y cs" using a assms(2) Cons c by (auto simp: h'_def)
  moreover have "h' b = h b" if "b \<noteq> upper trunk cs" for b using that Cons c by (simp add: h'_def)
  moreover have "ends h' trunk = ends h trunk" using assms(2) Cons c by (simp add: h'_def ends_def)
  ultimately show thesis using that by blast
qed

text \<open>Rotation, in any surroundings and to either side.\<close>

lemma rotate_focus:
  assumes f: "focus h trunk cs (mk dir (x, cx) A (mk dir (y, cy) B C))"
  obtains h' where "rotate_node trunk x dir h = Some h'" "focus h' trunk cs (mk dir (y, cy) (mk dir (x, cx) A B) C)"
    "same_rest h h' trunk (set (caddrs cs) \<union> set (addrs (mk dir (x, cx) A (mk dir (y, cy) B C))))"
proof -
  have x: "x \<noteq> 0" "h x = Some (mknode dir cx (upper trunk cs) (ptr A) y)"
    and y: "y \<noteq> 0" "h y = Some (mknode dir cy x (ptr B) (ptr C))"
    and t: "tree_at h x A" "tree_at h y B" "tree_at h y C" "around_at h trunk x cs" "h 0 = None"
    using f by (simp_all add: focus_def)
  have d: "x \<noteq> y" "trunk \<noteq> x" "trunk \<noteq> y" using f by (auto simp: focus_def)
  have dist: "distinct (trunk # caddrs cs)" "x \<notin> set (caddrs cs)" "y \<notin> set (caddrs cs)" "trunk \<notin> set (addrs B)"
    "set (addrs A) \<inter> (insert x (insert y (insert trunk (set (caddrs cs) \<union> set (addrs B))))) = {}"
    "set (addrs C) \<inter> (insert x (insert y (insert trunk (set (caddrs cs) \<union> set (addrs B))))) = {}"
    "set (addrs B) \<inter> insert x (insert y (set (caddrs cs))) = {}" "distinct (addrs B)" "trunk \<notin> set (addrs A)" "trunk \<notin> set (addrs C)"
    using f by (auto simp: focus_def)
  have up: "upper trunk cs \<in> insert trunk (set (caddrs cs))" by (rule upper_mem)
  have tz: "trunk \<noteq> 0" "0 \<notin> set (caddrs cs)" using around_at_root [OF t(4)] around_at_nonnull [OF t(4)] t(5) by (cases "trunk = 0"; auto)+
  define h1 where "h1 = h(x \<mapsto> mknode dir cx (upper trunk cs) (ptr A) (ptr B))"
  define h2 where "h2 = reparent x B h1"
  define h3 where "h3 = h2(y \<mapsto> mknode dir cy (upper trunk cs) (ptr B) (ptr C))"
  have B1: "tree_at h1 y B" using t(2) dist(7) by (simp add: h1_def)
  have h2: "h2 a = h1 a" if "a \<notin> set (addrs B)" for a using that by (simp add: h2_def reparent_other)
  have h3: "h3 a = h a" if "a \<notin> {x, y} \<union> set (addrs B)" for a using that by (simp add: h3_def h2 h1_def)
  have h3x: "h3 x = Some (mknode dir cx (upper trunk cs) (ptr A) (ptr B))" using d dist(7) by (simp add: h3_def h2 h1_def)
  have "h3 a = h a" if "a \<in> insert trunk (set (caddrs cs))" for a by (rule h3) (use that d dist in auto)
  then have ar3: "around_at h3 trunk x cs" using t(4) around_at_cong [of trunk cs h3 h] by blast
  obtain h4 where h4: "relink trunk x dir y h3 = Some h4" "around_at h4 trunk y cs" "\<And>a. a \<noteq> upper trunk cs \<Longrightarrow> h4 a = h3 a"
      "ends h4 trunk = ends h3 trunk"
    using relink_around [where h = h3, OF ar3 dist(1,2) x(1) h3x, of dir y] by auto
  define h' where "h' = h4(y \<mapsto> mknode dir cy (upper trunk cs) x (ptr C), x \<mapsto> mknode dir cx y (ptr A) (ptr B))"
  have fr: "h' a = h a" if "a \<notin> {x, y, upper trunk cs} \<union> set (addrs B)" for a using that h4(3) h3 by (simp add: h'_def)
  have ux: "upper trunk cs \<noteq> x" "upper trunk cs \<noteq> y" using up d dist by auto
  have "rotate_node trunk x dir h = Some h'"
  proof -
    have "h1 y = h y" "h2 x = h1 x" "h2 y = h y" using d dist(7) by (simp_all add: h2 h1_def)
    moreover have "modify x (set_next (opposite dir) (ptr B)) h = Some h1" using x by (simp add: h1_def)
    moreover have "modify y (set_parent (upper trunk cs)) h2 = Some h3" using y \<open>h2 y = h y\<close> by (simp add: h3_def)
    moreover have "modify y (set_next dir x) h4 = Some (h4(y \<mapsto> mknode dir cy (upper trunk cs) x (ptr C)))"
      using h4(3) [of y] ux by (simp add: h3_def)
    moreover have "modify x (set_parent y) (h4(y \<mapsto> mknode dir cy (upper trunk cs) x (ptr C))) = Some h'"
      using h4(3) [of x] ux h3x d by (simp add: h'_def)
    moreover have "h1 x = Some (mknode dir cx (upper trunk cs) (ptr A) (ptr B))" by (simp add: h1_def)
    ultimately show ?thesis
      using x y h4(1) modify_parent [OF B1, of x] by (cases "ptr B = 0") (simp_all add: rotate_node_def Let_def h2_def [symmetric] del: modify_Some)
  qed
  moreover have "focus h' trunk cs (mk dir (y, cy) (mk dir (x, cx) A B) C)"
  proof -
    have "h' a = h a" if "a \<in> set (addrs A) \<union> set (addrs C)" for a by (rule fr) (use that up dist in auto)
    then have "tree_at h' x A" "tree_at h' y C" using t(1,3) tree_at_cong [of A h' h] tree_at_cong [of C h' h] by auto
    moreover have "tree_at h' x B"
    proof -
      have "h' a = h2 a" if "a \<in> set (addrs B)" for a
      proof -
        have "a \<noteq> x" "a \<noteq> y" "a \<noteq> upper trunk cs" using that up dist by auto
        then show ?thesis using h4(3) [of a] by (simp add: h'_def h3_def)
      qed
      then show ?thesis using reparent_at [OF B1 dist(8), of x] tree_at_cong [of B h' h2] by (simp add: h2_def)
    qed
    moreover have "around_at h' trunk y cs" using h4(2) d dist by (simp add: h'_def)
    moreover have "h' 0 = None" using fr [of 0] x(1) y(1) t(5) tz up tree_at_nonnull [OF t(2)] by (cases "upper trunk cs = 0") auto
    ultimately show ?thesis using f x y d by (auto simp: focus_def h'_def)
  qed
  moreover have "same_rest h h' trunk (set (caddrs cs) \<union> set (addrs (mk dir (x, cx) A (mk dir (y, cy) B C))))"
  proof -
    have "h' a = h a" if "a \<notin> set (caddrs cs) \<union> set (addrs (mk dir (x, cx) A (mk dir (y, cy) B C)))" "a \<noteq> trunk" for a
      by (rule fr) (use that up in auto)
    moreover have "ends h' trunk = ends h trunk" using h4(4) h3 [of trunk] d dist(4) by (simp add: ends_def h'_def)
    ultimately show ?thesis by (simp add: same_rest_def)
  qed
  ultimately show thesis by (rule that)
qed

subsection \<open>Insertion\<close>

lemma focus_Cons: "focus h trunk ((d, a, s) # cs) t \<longleftrightarrow> focus h trunk cs (mk d a t s)"
  by (auto simp: focus_def)

lemma focus_beside: "focus h trunk ((d, a, s) # cs) t \<longleftrightarrow> focus h trunk ((opposite d, a, t) # cs) s"
  by (simp add: focus_Cons mk_opposite)

lemma focus_nonnull: "focus h trunk cs t \<Longrightarrow> 0 \<notin> set (addrs t) \<and> trunk \<noteq> 0 \<and> 0 \<notin> set (caddrs cs)"
  using around_at_root [of h trunk "ptr t" cs] around_at_nonnull [of h trunk "ptr t" cs] tree_at_nonnull [of h "upper trunk cs" t]
  by (cases "trunk = 0") (auto simp: focus_def)

fun root_color :: "ntree \<Rightarrow> node_color" where
  "root_color Leaf = BLACK"
| "root_color (Node l a r) = snd a"

lemma root_color_mk [simp]: "root_color (mk d a t u) = snd a"
  by (simp add: mk_def)

fun paint :: "node_color \<Rightarrow> ntree \<Rightarrow> ntree" where
  "paint c Leaf = Leaf"
| "paint c (Node l a r) = Node l (fst a, c) r"

lemma paint_simps [simp]:
  "ptr (paint c t) = ptr t" "addrs (paint c t) = addrs t" "paint c (mk d a t u) = mk d (fst a, c) t u"
  by (cases t; simp add: mk_def)+

lemma is_black_ptr: "tree_at h par t \<Longrightarrow> is_black (ptr t) h = Some (root_color t = BLACK)"
  by (cases t) (auto simp: is_black_def)

text \<open>Coloring the root of the subtree in focus.\<close>

lemma recolor_focus:
  assumes "focus h trunk cs t" "t \<noteq> Leaf"
  obtains h' where "modify (ptr t) (set_color c) h = Some h'" "focus h' trunk cs (paint c t)" "same_rest h h' trunk (set (addrs t))"
proof (cases t)
  case (Node l a r)
  define h' where "h' = h(fst a \<mapsto> \<lparr>my_color = c, my_parent = upper trunk cs, my_left = ptr l, my_right = ptr r\<rparr>)"
  have "modify (ptr t) (set_color c) h = Some h'" using assms Node by (simp add: focus_def h'_def set_color_def)
  moreover have "focus h' trunk cs (paint c t)" using assms Node by (auto simp: focus_def h'_def)
  moreover have "same_rest h h' trunk (set (addrs t))" using assms Node by (auto simp: same_rest_def h'_def ends_def focus_def)
  ultimately show thesis by (rule that)
qed (use assms in simp)

lemma same_rest_trans: "same_rest h h1 trunk A \<Longrightarrow> same_rest h1 h2 trunk B \<Longrightarrow> same_rest h h2 trunk (A \<union> B)"
  by (simp add: same_rest_def)

lemma same_rest_mono: "same_rest h h' trunk A \<Longrightarrow> A \<subseteq> B \<Longrightarrow> same_rest h h' trunk B"
  by (auto simp: same_rest_def)

lemma mknode_sides:
  assumes "p \<noteq> q"
  shows "(if p = my_left (mknode d c par p q) then my_right (mknode d c par p q) else my_left (mknode d c par p q)) = q"
    "(if p = my_left (mknode d c par p q) then my_right n else my_left n) = next_of (opposite d) n"
    "(if p = my_left (mknode d c par p q) then RIGHT else LEFT) = opposite d"
  using assms by (cases d; auto simp: mknode_def next_of_def opposite_def)+

text \<open>One step of the loop, for a red node whose parent is red.\<close>

lemma rebalance_recolors:
  assumes f: "focus h trunk ((d1, (p, RED), s) # (d2, (w, cw), u) # cs) t" and t: "ptr t = x" "x \<noteq> 0" and u: "root_color u = RED"
  obtains h' where "insertion_rebalance trunk x h = Some (w, h')"
    "focus h' trunk cs (mk d2 (w, RED) (mk d1 (p, BLACK) t s) (paint BLACK u))"
    "same_rest h h' trunk (set (addrs (mk d2 (w, cw) (mk d1 (p, RED) t s) u)))"
proof -
  have a: "h p = Some (mknode d1 RED w x (ptr s))" "h w = Some (mknode d2 cw (upper trunk cs) p (ptr u))"
    "tree_at h p t" "tree_at h w u" "ptr u \<noteq> p" "p \<noteq> 0" "w \<noteq> 0" "u \<noteq> Leaf"
    using f t u ptr_mem [of u] by (auto simp: focus_def)
  obtain nx where x: "h x = Some nx" "my_parent nx = p" using a(3) t by (cases t) auto
  obtain h1 where h1: "modify p (set_color BLACK) h = Some h1" "focus h1 trunk ((d2, (w, cw), u) # cs) (mk d1 (p, BLACK) t s)"
      "same_rest h h1 trunk (set (addrs (mk d1 (p, RED) t s)))"
    using recolor_focus [of h trunk "(d2, (w, cw), u) # cs" "mk d1 (p, RED) t s" BLACK] f by (auto simp: focus_Cons)
  obtain h2 where h2: "modify (ptr u) (set_color BLACK) h1 = Some h2" "focus h2 trunk ((opposite d2, (w, cw), mk d1 (p, BLACK) t s) # cs) (paint BLACK u)"
      "same_rest h1 h2 trunk (set (addrs u))"
    using recolor_focus [of h1 trunk "(opposite d2, (w, cw), mk d1 (p, BLACK) t s) # cs" u BLACK] h1(2) a(8) focus_beside by metis
  obtain h3 where h3: "modify w (set_color RED) h2 = Some h3" "focus h3 trunk cs (mk d2 (w, RED) (mk d1 (p, BLACK) t s) (paint BLACK u))"
      "same_rest h2 h3 trunk (set (addrs (mk d2 (w, cw) (mk d1 (p, BLACK) t s) (paint BLACK u))))"
    using recolor_focus [of h2 trunk cs "mk d2 (w, cw) (mk d1 (p, BLACK) t s) (paint BLACK u)" RED] h2(2)
    by (auto simp: focus_Cons mk_opposite)
  have "insertion_rebalance trunk x h = Some (w, h3)"
    using a(1,2,5) x h1(1) h2(1) h3(1) is_black_ptr [OF a(4)] u mknode_sides [of p "ptr u"]
    by (simp add: insertion_rebalance_def Let_def)
  moreover have "same_rest h h3 trunk (set (addrs (mk d2 (w, cw) (mk d1 (p, RED) t s) u)))"
    by (rule same_rest_mono [OF same_rest_trans [OF same_rest_trans [OF h1(3) h2(3)] h3(3)]]) auto
  ultimately show thesis using that h3(2) by blast
qed


text \<open>The end of the step with a black uncle: the grandparent is rotated away from its subtree \<open>mk d (q, RED) A B\<close>.\<close>

lemma rotate_grandparent:
  assumes f: "focus h trunk cs (mk d (w, cw) (mk d (q, cq) A B) u)"
  obtains h2 h3 h4 where "modify q (set_color BLACK) h = Some h2" "modify w (set_color RED) h2 = Some h3"
    "rotate_node trunk w (opposite d) h3 = Some h4" "focus h4 trunk cs (mk d (q, BLACK) A (mk d (w, RED) B u))"
    "same_rest h h4 trunk (set (caddrs cs) \<union> set (addrs (mk d (w, cw) (mk d (q, cq) A B) u)))"
proof -
  obtain h2 where h2: "modify q (set_color BLACK) h = Some h2" "focus h2 trunk ((d, (w, cw), u) # cs) (mk d (q, BLACK) A B)"
      "same_rest h h2 trunk (set (addrs (mk d (q, cq) A B)))"
    using recolor_focus [of h trunk "(d, (w, cw), u) # cs" "mk d (q, cq) A B" BLACK] f by (auto simp: focus_Cons)
  obtain h3 where h3: "modify w (set_color RED) h2 = Some h3" "focus h3 trunk cs (mk d (w, RED) (mk d (q, BLACK) A B) u)"
      "same_rest h2 h3 trunk (set (addrs (mk d (w, cw) (mk d (q, cq) A B) u)))"
    using recolor_focus [of h2 trunk cs "mk d (w, cw) (mk d (q, BLACK) A B) u" RED] h2(2) by (auto simp: focus_Cons)
  have sw: "mk d (w, RED) (mk d (q, BLACK) A B) u = mk (opposite d) (w, RED) u (mk (opposite d) (q, BLACK) B A)"
    by (simp add: mk_opposite)
  obtain h4 where h4: "rotate_node trunk w (opposite d) h3 = Some h4" "focus h4 trunk cs (mk d (q, BLACK) A (mk d (w, RED) B u))"
      "same_rest h3 h4 trunk (set (caddrs cs) \<union> set (addrs (mk d (w, cw) (mk d (q, cq) A B) u)))"
    using rotate_focus [OF h3(2) [unfolded sw]] by (auto simp: mk_opposite)
  have "same_rest h h4 trunk (set (caddrs cs) \<union> set (addrs (mk d (w, cw) (mk d (q, cq) A B) u)))"
    by (rule same_rest_mono [OF same_rest_trans [OF same_rest_trans [OF h2(3) h3(3)] h4(3)]]) auto
  then show thesis using that h2(1) h3(1) h4(1,2) by blast
qed

lemma rebalance_outer:
  assumes f: "focus h trunk ((d, (p, RED), s) # (d, (w, cw), u) # cs) t" and t: "ptr t = x" "x \<noteq> 0" and u: "root_color u = BLACK"
  obtains h' where "insertion_rebalance trunk x h = Some (x, h')" "focus h' trunk cs (mk d (p, BLACK) t (mk d (w, RED) s u))"
    "same_rest h h' trunk (set (caddrs cs) \<union> set (addrs (mk d (w, cw) (mk d (p, RED) t s) u)))"
proof -
  have a: "h p = Some (mknode d RED w x (ptr s))" "h w = Some (mknode d cw (upper trunk cs) p (ptr u))"
    "tree_at h p t" "tree_at h w u" "ptr u \<noteq> p" "ptr s \<noteq> x"
    using f t u ptr_mem [of u] ptr_mem [of s] ptr_mem [of t] by (auto simp: focus_def)
  obtain nx where x: "h x = Some nx" "my_parent nx = p" using a(3) t by (cases t) auto
  obtain h2 h3 h4 where "modify p (set_color BLACK) h = Some h2" "modify w (set_color RED) h2 = Some h3"
      "rotate_node trunk w (opposite d) h3 = Some h4" and r: "focus h4 trunk cs (mk d (p, BLACK) t (mk d (w, RED) s u))"
      "same_rest h h4 trunk (set (caddrs cs) \<union> set (addrs (mk d (w, cw) (mk d (p, RED) t s) u)))"
    using rotate_grandparent f unfolding focus_Cons by blast
  then have "insertion_rebalance trunk x h = Some (x, h4)"
    using a(1,2,5,6) x is_black_ptr [OF a(4)] u mknode_sides [of p "ptr u"]
    by (simp add: insertion_rebalance_def Let_def)
  then show thesis using that r by blast
qed

lemma rebalance_inner:
  assumes f: "focus h trunk ((opposite d, (p, RED), s) # (d, (w, cw), u) # cs) (mk d (x, cx) A B)" and u: "root_color u = BLACK"
  obtains h' where "insertion_rebalance trunk x h = Some (p, h')"
    "focus h' trunk cs (mk d (x, BLACK) (mk d (p, RED) s A) (mk d (w, RED) B u))"
    "same_rest h h' trunk (set (caddrs cs) \<union> set (addrs (mk d (w, cw) (mk d (p, RED) s (mk d (x, cx) A B)) u)))"
proof -
  have a: "h p = Some (mknode d RED w (ptr s) x)" "h w = Some (mknode d cw (upper trunk cs) p (ptr u))"
    "tree_at h w u" "ptr u \<noteq> p" "h x = Some (mknode d cx p (ptr A) (ptr B))"
    using f u ptr_mem [of u] by (auto simp: focus_def mknode_opposite)
  obtain h1 where h1: "rotate_node trunk p d h = Some h1"
      "focus h1 trunk ((d, (w, cw), u) # cs) (mk d (x, cx) (mk d (p, RED) s A) B)"
      "same_rest h h1 trunk (set (caddrs ((d, (w, cw), u) # cs)) \<union> set (addrs (mk d (p, RED) s (mk d (x, cx) A B))))"
    using rotate_focus [of h trunk "(d, (w, cw), u) # cs" d p RED s x cx A B] f unfolding focus_Cons mk_opposite by blast
  obtain h2 h3 h4 where m: "modify x (set_color BLACK) h1 = Some h2" "modify w (set_color RED) h2 = Some h3"
      "rotate_node trunk w (opposite d) h3 = Some h4" and r: "focus h4 trunk cs (mk d (x, BLACK) (mk d (p, RED) s A) (mk d (w, RED) B u))"
      "same_rest h1 h4 trunk (set (caddrs cs) \<union> set (addrs (mk d (w, cw) (mk d (x, cx) (mk d (p, RED) s A) B) u)))"
    using rotate_grandparent h1(2) unfolding focus_Cons by blast
  have "h1 p = Some (mknode d RED x (ptr s) (ptr A))" using h1(2) by (simp add: focus_def)
  then have "insertion_rebalance trunk x h = Some (p, h4)"
    using a(1,2,4,5) is_black_ptr [OF a(3)] u mknode_sides [of p "ptr u"] h1(1) m
    by (simp add: insertion_rebalance_def Let_def)
  moreover have "same_rest h h4 trunk (set (caddrs cs) \<union> set (addrs (mk d (w, cw) (mk d (p, RED) s (mk d (x, cx) A B)) u)))"
    by (rule same_rest_mono [OF same_rest_trans [OF h1(3) r(2)]]) auto
  ultimately show thesis using that r(1) by blast
qed

subsection \<open>Red-black trees\<close>

fun bheight :: "ntree \<Rightarrow> nat" where
  "bheight Leaf = 0"
| "bheight (Node l a r) = bheight l + (if snd a = BLACK then 1 else 0)"

fun invc :: "ntree \<Rightarrow> bool" where
  "invc Leaf \<longleftrightarrow> True"
| "invc (Node l a r) \<longleftrightarrow> (snd a = RED \<longrightarrow> root_color l = BLACK \<and> root_color r = BLACK) \<and> invc l \<and> invc r"

fun invh :: "ntree \<Rightarrow> bool" where
  "invh Leaf \<longleftrightarrow> True"
| "invh (Node l a r) \<longleftrightarrow> bheight l = bheight r \<and> invh l \<and> invh r"

definition rbt :: "ntree \<Rightarrow> bool" where
  "rbt t \<longleftrightarrow> invc t \<and> invh t \<and> root_color t = BLACK"

lemma color_cases: "c \<noteq> RED \<longleftrightarrow> c = BLACK"
  by (cases c) auto

lemma inv_mk [simp]:
  "invc (mk d a t u) \<longleftrightarrow> (snd a = RED \<longrightarrow> root_color t = BLACK \<and> root_color u = BLACK) \<and> invc t \<and> invc u"
  "invh (mk d a t u) \<longleftrightarrow> bheight t = bheight u \<and> invh t \<and> invh u"
  "bheight t = bheight u \<Longrightarrow> bheight (mk d a t u) = bheight u + (if snd a = BLACK then 1 else 0)"
  by (auto simp: mk_def)

lemma inv_paint [simp]:
  "invc t \<Longrightarrow> invc (paint BLACK t)" "invh (paint c t) = invh t" "root_color (paint BLACK t) = BLACK"
  "root_color t = RED \<Longrightarrow> bheight (paint BLACK t) = Suc (bheight t)"
  by (cases t; simp)+

lemma addrs_mk: "addrs (mk d a t u) = (if d = LEFT then addrs t @ fst a # addrs u else addrs u @ fst a # addrs t)"
  by (simp add: mk_def)

lemma addrs_plug_cong: "addrs t = addrs t' \<Longrightarrow> addrs (plug cs t) = addrs (plug cs t')"
  by (induction cs t arbitrary: t' rule: plug.induct) (simp_all add: addrs_mk)

lemma focus_plug: "focus h trunk [] (plug cs t) \<longleftrightarrow> focus h trunk cs t"
  by (induction cs t rule: plug.induct) (simp_all add: focus_Cons)

text \<open>Surroundings that make a red-black tree with a subtree of the right height; the trunk counts as red.\<close>

fun upper_color :: "around \<Rightarrow> node_color" where
  "upper_color [] = RED"
| "upper_color ((d, a, s) # cs) = snd a"

fun around_inv :: "around \<Rightarrow> nat \<Rightarrow> bool" where
  "around_inv [] n \<longleftrightarrow> True"
| "around_inv ((d, a, s) # cs) n \<longleftrightarrow>
     invc s \<and> invh s \<and> bheight s = n \<and> (snd a = RED \<longrightarrow> root_color s = BLACK \<and> upper_color cs = BLACK)
     \<and> around_inv cs (n + (if snd a = BLACK then 1 else 0))"

lemma plug_rbt:
  assumes "around_inv cs (bheight t)" "invc t" "invh t" "root_color t = RED \<Longrightarrow> cs = [] \<or> upper_color cs = BLACK"
  shows "rbt (paint BLACK (plug cs t))"
  using assms
proof (induction cs t rule: plug.induct)
  case (2 d a s cs t)
  have bh: "bheight t = bheight s" using "2.prems"(1) by simp
  have c: "root_color t = BLACK" if "snd a = RED" using "2.prems"(4) that by (cases "root_color t") auto
  have "around_inv cs (bheight (mk d a t s))" "invc (mk d a t s)" "invh (mk d a t s)" using "2.prems"(1-3) bh c by simp_all
  then show ?case unfolding plug.simps by (intro "2.IH") (use "2.prems"(1) in auto)
qed (simp add: rbt_def)

lemma plug_inv:
  assumes "invc (plug cs t)" "invh (plug cs t)" "root_color (plug cs t) = BLACK"
  shows "around_inv cs (bheight t) \<and> invc t \<and> invh t \<and> (root_color t = RED \<longrightarrow> upper_color cs = BLACK)"
  using assms
proof (induction cs t rule: plug.induct)
  case (2 d a s cs t)
  then have "around_inv cs (bheight (mk d a t s)) \<and> invc (mk d a t s) \<and> invh (mk d a t s)
    \<and> (snd a = RED \<longrightarrow> upper_color cs = BLACK)" by (simp del: inv_mk)
  moreover from this have "bheight (mk d a t s) = bheight t + (if snd a = BLACK then 1 else 0)" by simp
  ultimately show ?case by (cases "snd a") auto
qed simp

subsection \<open>The loop of the insertion\<close>

lemma insert_loop_root: "focus h trunk [] t \<Longrightarrow> insert_loop trunk (ptr t) h = Some h"
  by (subst insert_loop.simps) (auto simp: focus_def)

lemma focus_root_ne:
  assumes "focus h trunk ((d, a, s) # cs) t" "t \<noteq> Leaf"
  obtains nt nx where "h trunk = Some nt" "my_parent nt \<noteq> ptr t" "h (ptr t) = Some nx" "my_parent nx = fst a"
    "h (fst a) = Some (mknode d (snd a) (upper trunk cs) (ptr t) (ptr s))"
proof -
  obtain nt where nt: "h trunk = Some nt" "my_parent nt = root_ptr (ptr t) ((d, a, s) # cs)"
    using around_at_root assms(1) unfolding focus_def by blast
  moreover have "ptr t \<in> set (addrs t)" using assms(2) by (cases t) auto
  ultimately have "my_parent nt \<noteq> ptr t"
    using root_ptr_mem [of "(d, a, s) # cs" "ptr t"] assms(1) by (auto simp: focus_def simp del: caddrs.simps)
  moreover obtain nx where "h (ptr t) = Some nx" "my_parent nx = fst a" using assms by (cases t) (auto simp: focus_def)
  moreover have "h (fst a) = Some (mknode d (snd a) (upper trunk cs) (ptr t) (ptr s))" using assms(1) by (simp add: focus_def)
  ultimately show thesis using that nt(1) by blast
qed

lemma insert_loop_black:
  assumes "focus h trunk ((d, (q, BLACK), s) # cs) t" "t \<noteq> Leaf"
  shows "insert_loop trunk (ptr t) h = Some h"
proof -
  obtain nt nx where "h trunk = Some nt" "my_parent nt \<noteq> ptr t" "h (ptr t) = Some nx" "my_parent nx = q"
    "h q = Some (mknode d BLACK (upper trunk cs) (ptr t) (ptr s))" using focus_root_ne [OF assms] by auto
  then show ?thesis by (subst insert_loop.simps) auto
qed

lemma insert_loop_red:
  assumes "focus h trunk ((d, (q, RED), s) # cs) t" "t \<noteq> Leaf" "insertion_rebalance trunk (ptr t) h = Some (x', h')"
  shows "insert_loop trunk (ptr t) h = insert_loop trunk x' h'"
proof -
  obtain nt nx where "h trunk = Some nt" "my_parent nt \<noteq> ptr t" "h (ptr t) = Some nx" "my_parent nx = q"
    "h q = Some (mknode d RED (upper trunk cs) (ptr t) (ptr s))" using focus_root_ne [OF assms(1,2)] by auto
  then show ?thesis using assms(3) by (subst insert_loop.simps) auto
qed


text \<open>
  What the loop establishes: a tree that is red-black once its root is black, with the nodes in the order given, and
  nothing outside it changed.
\<close>

definition rebalanced :: "nodes \<Rightarrow> nodes \<Rightarrow> addr \<Rightarrow> addr list \<Rightarrow> addr set \<Rightarrow> bool" where
  "rebalanced h h' trunk xs A \<longleftrightarrow>
     (\<exists>t. focus h' trunk [] t \<and> rbt (paint BLACK t) \<and> t \<noteq> Leaf \<and> addrs t = xs \<and> same_rest h h' trunk A)"

lemma plug_not_Leaf: "t \<noteq> Leaf \<Longrightarrow> plug cs t \<noteq> Leaf"
  by (induction cs t rule: plug.induct) simp_all

lemma rebalanced_plug:
  assumes "focus h' trunk cs t" "root_color t = BLACK" "invc t" "invh t" "around_inv cs (bheight t)" "t \<noteq> Leaf"
    and "addrs t = addrs t0" "same_rest h h' trunk A"
  shows "rebalanced h h' trunk (addrs (plug cs t0)) A"
proof -
  have "rbt (paint BLACK (plug cs t))" by (rule plug_rbt) (use assms in auto)
  then show ?thesis unfolding rebalanced_def
    using assms focus_plug plug_not_Leaf addrs_plug_cong [OF assms(7), of cs] by (intro exI [of _ "plug cs t"]) simp
qed

lemma loop_black_uncle:
  assumes f: "focus h trunk ((d1, (p, RED), s) # (d2, (w, BLACK), u) # cs) t" and t: "root_color t = RED" "invc t" "invh t"
    and cs: "around_inv ((d1, (p, RED), s) # (d2, (w, BLACK), u) # cs) (bheight t)" and u: "root_color u = BLACK"
  shows "\<exists>h'. insert_loop trunk (ptr t) h = Some h'
    \<and> rebalanced h h' trunk (addrs (plug cs (mk d2 (w, BLACK) (mk d1 (p, RED) t s) u)))
        (set (caddrs cs) \<union> set (addrs (mk d2 (w, BLACK) (mk d1 (p, RED) t s) u)))"
proof (cases rule: direction_cases [of d1 d2])
  case 1
  have "t \<noteq> Leaf" using t(1) by auto
  then have px: "ptr t \<noteq> 0" using focus_nonnull [OF f] by (cases t) auto
  obtain h' where h': "insertion_rebalance trunk (ptr t) h = Some (ptr t, h')" "focus h' trunk cs (mk d2 (p, BLACK) t (mk d2 (w, RED) s u))"
      "same_rest h h' trunk (set (caddrs cs) \<union> set (addrs (mk d2 (w, BLACK) (mk d1 (p, RED) t s) u)))"
    using rebalance_outer [OF f [unfolded 1] refl px u] 1 by auto
  then have "insert_loop trunk (ptr t) h = Some h'"
    using insert_loop_red [OF f \<open>t \<noteq> Leaf\<close>] insert_loop_black [of h' trunk d2 p] \<open>t \<noteq> Leaf\<close> by (simp add: focus_Cons)
  moreover have "rebalanced h h' trunk (addrs (plug cs (mk d2 (w, BLACK) (mk d1 (p, RED) t s) u)))
      (set (caddrs cs) \<union> set (addrs (mk d2 (w, BLACK) (mk d1 (p, RED) t s) u)))"
    by (rule rebalanced_plug [OF h'(2) _ _ _ _ _ _ h'(3)]) (use t cs u 1 in \<open>simp_all add: addrs_mk\<close>)
  ultimately show ?thesis by blast
next
  case 2
  obtain x cx A B where x: "t = mk d2 (x, RED) A B"
    using t(1) by (cases t; cases d2) (auto simp: mk_def intro: that)
  obtain h' where h': "insertion_rebalance trunk x h = Some (p, h')"
      "focus h' trunk cs (mk d2 (x, BLACK) (mk d2 (p, RED) s A) (mk d2 (w, RED) B u))"
      "same_rest h h' trunk (set (caddrs cs) \<union> set (addrs (mk d2 (w, BLACK) (mk d1 (p, RED) t s) u)))"
    using rebalance_inner [OF f [unfolded 2 x] u] 2 x by (auto simp: mk_opposite)
  then have "insert_loop trunk (ptr t) h = Some h'"
    using insert_loop_red [OF f] insert_loop_black [of h' trunk d2 x _ _ "mk d2 (p, RED) s A"] x by (simp add: focus_Cons)
  moreover have "rebalanced h h' trunk (addrs (plug cs (mk d2 (w, BLACK) (mk d1 (p, RED) t s) u)))
      (set (caddrs cs) \<union> set (addrs (mk d2 (w, BLACK) (mk d1 (p, RED) t s) u)))"
  proof (rule rebalanced_plug [OF h'(2) _ _ _ _ _ _ h'(3)])
    show "addrs (mk d2 (x, BLACK) (mk d2 (p, RED) s A) (mk d2 (w, RED) B u)) = addrs (mk d2 (w, BLACK) (mk d1 (p, RED) t s) u)"
      using x 2 by (cases d2) (simp_all add: addrs_mk)
  qed (use t cs u x in simp_all)
  ultimately show ?thesis by blast
qed


lemma loop_red_uncle:
  assumes f: "focus h trunk ((d1, (p, RED), s) # (d2, (w, BLACK), u) # cs) t" and t: "root_color t = RED" "invc t" "invh t"
    and cs: "around_inv ((d1, (p, RED), s) # (d2, (w, BLACK), u) # cs) (bheight t)" and u: "root_color u = RED"
  obtains h1 t1 where "insert_loop trunk (ptr t) h = insert_loop trunk (ptr t1) h1" "focus h1 trunk cs t1" "root_color t1 = RED"
    "invc t1" "invh t1" "around_inv cs (bheight t1)" "addrs t1 = addrs (mk d2 (w, BLACK) (mk d1 (p, RED) t s) u)"
    "same_rest h h1 trunk (set (addrs t1))"
proof -
  define t1 where "t1 = mk d2 (w, RED) (mk d1 (p, BLACK) t s) (paint BLACK u)"
  have nl: "t \<noteq> Leaf" using t(1) by auto
  have px: "ptr t \<noteq> 0" using focus_nonnull [OF f] nl by (cases t) auto
  obtain h1 where h1: "insertion_rebalance trunk (ptr t) h = Some (w, h1)" "focus h1 trunk cs t1"
      "same_rest h h1 trunk (set (addrs (mk d2 (w, BLACK) (mk d1 (p, RED) t s) u)))"
    using rebalance_recolors [OF f refl px u] unfolding t1_def by blast
  moreover have "insert_loop trunk (ptr t) h = insert_loop trunk (ptr t1) h1"
    using insert_loop_red [OF f nl h1(1)] by (simp add: t1_def)
  moreover have "root_color t1 = RED" "invc t1" "invh t1" "around_inv cs (bheight t1)"
    using t cs u by (simp_all add: t1_def)
  moreover have "addrs t1 = addrs (mk d2 (w, BLACK) (mk d1 (p, RED) t s) u)" by (simp add: t1_def addrs_mk)
  ultimately show thesis using that by simp
qed

lemma around_cases:
  assumes "around_inv cs n"
  obtains "cs = []" | d p s cs1 where "cs = (d, (p, BLACK), s) # cs1"
    | d1 p s d2 w u cs2 where "cs = (d1, (p, RED), s) # (d2, (w, BLACK), u) # cs2"
proof (cases cs)
  case (Cons c cs1)
  obtain d p k s where c: "c = (d, (p, k), s)" by (cases c) auto
  show thesis
  proof (cases k)
    case RED
    then have "upper_color cs1 = BLACK" using assms Cons c by simp
    then obtain d2 w u cs2 where "cs1 = (d2, (w, BLACK), u) # cs2" by (cases cs1 rule: upper_color.cases) auto
    then show thesis using that(3) Cons c RED by blast
  qed (use that(2) Cons c in blast)
qed (use that(1) in blast)

lemma insert_loop_rebalances:
  assumes "focus h trunk cs t" "root_color t = RED" "invc t" "invh t" "around_inv cs (bheight t)"
  shows "\<exists>h'. insert_loop trunk (ptr t) h = Some h'
    \<and> rebalanced h h' trunk (addrs (plug cs t)) (set (caddrs cs) \<union> set (addrs t))"
  using assms
proof (induction "length cs" arbitrary: cs t h rule: less_induct)
  case less
  note f = less.prems(1)
  have t: "t \<noteq> Leaf" using less.prems(2) by auto
  consider "cs = []" | d p s cs1 where "cs = (d, (p, BLACK), s) # cs1"
    | d1 p s d2 w u cs2 where "cs = (d1, (p, RED), s) # (d2, (w, BLACK), u) # cs2"
    using around_cases [OF less.prems(5)] by metis
  then show ?case
  proof cases
    case 1
    then show ?thesis using f t insert_loop_root [of h trunk t] less.prems(3,4)
      by (auto simp: rebalanced_def same_rest_def rbt_def)
  next
    case 2
    have "insert_loop trunk (ptr t) h = Some h" using insert_loop_black f t 2 by simp
    moreover have "rbt (paint BLACK (plug cs t))" by (rule plug_rbt) (use less.prems 2 in auto)
    moreover have "focus h trunk [] (plug cs t)" using f focus_plug by simp
    ultimately show ?thesis using plug_not_Leaf [OF t] unfolding rebalanced_def same_rest_def by blast
  next
    case 3
    show ?thesis
    proof (cases "root_color u")
      case RED
      obtain h1 t1 where l: "insert_loop trunk (ptr t) h = insert_loop trunk (ptr t1) h1" and f1: "focus h1 trunk cs2 t1"
          "root_color t1 = RED" "invc t1" "invh t1" "around_inv cs2 (bheight t1)"
        and ad: "addrs t1 = addrs (mk d2 (w, BLACK) (mk d1 (p, RED) t s) u)" and sr: "same_rest h h1 trunk (set (addrs t1))"
        using loop_red_uncle [OF f [unfolded 3] less.prems(2-4) _ RED] less.prems(5) 3 by blast
      obtain h' where h': "insert_loop trunk (ptr t1) h1 = Some h'" "rebalanced h1 h' trunk (addrs (plug cs2 t1)) (set (caddrs cs2) \<union> set (addrs t1))"
        using less.hyps [OF _ f1] 3 by auto
      have "addrs (plug cs2 t1) = addrs (plug cs t)" using 3 addrs_plug_cong [OF ad, of cs2] by simp
      moreover have "set (addrs t1) \<union> (set (caddrs cs2) \<union> set (addrs t1)) = set (caddrs cs) \<union> set (addrs t)"
        using 3 by (auto simp: ad)
      ultimately have "rebalanced h h' trunk (addrs (plug cs t)) (set (caddrs cs) \<union> set (addrs t))"
        using h'(2) same_rest_trans [OF sr, of h' "set (caddrs cs2) \<union> set (addrs t1)"] unfolding rebalanced_def by metis
      then show ?thesis using h'(1) l by auto
    next
      case BLACK
      have "set (caddrs cs2) \<union> set (addrs (mk d2 (w, BLACK) (mk d1 (p, RED) t s) u)) = set (caddrs cs) \<union> set (addrs t)"
        by (auto simp: 3)
      then show ?thesis using loop_black_uncle [OF f [unfolded 3] less.prems(2-4) _ BLACK] less.prems(5) 3 by simp
    qed
  qed
qed

end
