(* ===== verification/Tree_Order.thy ===== *)
theory Tree_Order
  imports Tree_Links
begin

text \<open>
  What the linked red-black tree promises its users: \<open>__insert_and_rebalance\<close> puts a node next to its parent in the
  order of the nodes, keeps the tree red-black and keeps the pointers of the trunk to the first and the last node;
  and \<open>__increment_node\<close> and \<open>__decrement_node\<close> move along that order.
\<close>

subsection \<open>A tree object\<close>

text \<open>The nodes of a tree object: a red-black tree, with the trunk pointing to its root, its first and its last node.\<close>

definition tree_rep :: "nodes \<Rightarrow> addr \<Rightarrow> ntree \<Rightarrow> bool" where
  "tree_rep h trunk t \<longleftrightarrow>
     focus h trunk [] t \<and> rbt t \<and> ends h trunk = Some (hd (addrs t @ [trunk]), last (trunk # addrs t), RED)"

lemma around_at_trunk:
  assumes "trunk \<notin> set (caddrs cs)" "h trunk = Some nt" "my_parent n = my_parent nt"
  shows "around_at (h(trunk \<mapsto> n)) trunk p cs \<longleftrightarrow> around_at h trunk p cs"
  using assms by (induction cs arbitrary: p rule: caddrs.induct) auto

text \<open>The nodes before and after a subtree in the order.\<close>

fun before :: "around \<Rightarrow> addr list" where
  "before [] = []"
| "before ((d, a, s) # cs) = before cs @ (if d = LEFT then [] else addrs s @ [fst a])"

fun after :: "around \<Rightarrow> addr list" where
  "after [] = []"
| "after ((d, a, s) # cs) = (if d = LEFT then fst a # addrs s else []) @ after cs"

lemma addrs_plug: "addrs (plug cs t) = before cs @ addrs t @ after cs"
  by (induction cs t rule: plug.induct) (simp_all add: addrs_mk)

subsection \<open>Linking the new node\<close>

text \<open>The state of \<open>__insert_and_rebalance\<close> before its loop.\<close>

definition linked :: "node_direction \<Rightarrow> addr \<Rightarrow> addr \<Rightarrow> addr \<Rightarrow> nodes \<Rightarrow> nodes option" where
  "linked dir x p trunk h = do {
     h1 \<leftarrow> modify x (\<lambda>n. \<lparr>my_color = RED, my_parent = p, my_left = 0, my_right = 0\<rparr>) h;
     if p = trunk then modify p (\<lambda>n. n\<lparr>my_left := x, my_right := x, my_parent := x\<rparr>) h1
     else do {
       h' \<leftarrow> modify p (set_next dir x) h1;
       nt \<leftarrow> h' trunk;
       if p = next_of dir nt then modify trunk (set_next dir x) h' else Some h' } }"

lemma insert_and_rebalance_linked:
  "insert_and_rebalance dir x p trunk h = do {
     h2 \<leftarrow> linked dir x p trunk h;
     h3 \<leftarrow> insert_loop trunk x h2;
     nt \<leftarrow> h3 trunk;
     modify (my_parent nt) (set_color BLACK) h3 }"
  by (auto simp: insert_and_rebalance_def linked_def Let_def split: bind_splits)

abbreviation (input) new_node :: "addr \<Rightarrow> ntree" where
  "new_node x \<equiv> Node Leaf (x, RED) Leaf"

lemma linked_empty:
  assumes "tree_rep h trunk Leaf" "x \<noteq> 0" "x \<noteq> trunk" "h x = Some n0"
  obtains h2 where "linked dir x trunk trunk h = Some h2" "focus h2 trunk [] (new_node x)" "ends h2 trunk = Some (x, x, RED)"
    "\<And>a. a \<notin> {x, trunk} \<Longrightarrow> h2 a = h a"
proof -
  obtain nt where nt: "h trunk = Some nt" "my_color nt = RED" using assms(1) by (auto simp: tree_rep_def ends_def)
  have z: "h 0 = None" "trunk \<noteq> 0" using assms(1) focus_nonnull [of h trunk "[]" Leaf] by (auto simp: tree_rep_def focus_def)
  define h2 where "h2 = h(x \<mapsto> \<lparr>my_color = RED, my_parent = trunk, my_left = 0, my_right = 0\<rparr>, trunk \<mapsto> nt\<lparr>my_left := x, my_right := x, my_parent := x\<rparr>)"
  have "linked dir x trunk trunk h = Some h2" using assms nt by (simp add: linked_def h2_def)
  moreover have "focus h2 trunk [] (new_node x)" using assms z by (auto simp: focus_def h2_def)
  moreover have "ends h2 trunk = Some (x, x, RED)" using nt by (simp add: ends_def h2_def)
  ultimately show thesis using that by (auto simp: h2_def)
qed

lemma linked_below:
  assumes f: "focus h trunk ((d, (p, c), s) # cs) Leaf" and nt: "h trunk = Some nt"
    and x: "x \<noteq> 0" "x \<noteq> trunk" "x \<noteq> p" "x \<notin> set (addrs s)" "x \<notin> set (caddrs cs)" "h x = Some n0"
  obtains h2 where "linked d x p trunk h = Some h2" "focus h2 trunk ((d, (p, c), s) # cs) (new_node x)"
    "h2 trunk = Some (if p = next_of d nt then set_next d x nt else nt)" "\<And>a. a \<notin> {x, p, trunk} \<Longrightarrow> h2 a = h a"
proof -
  have p: "p \<noteq> 0" "h p = Some (mknode d c (upper trunk cs) 0 (ptr s))" "p \<noteq> trunk" "tree_at h p s" "around_at h trunk p cs"
    "h 0 = None" using f by (auto simp: focus_def)
  have z: "trunk \<noteq> 0" using focus_nonnull [OF f] by simp
  define n where "n = (if p = next_of d nt then set_next d x nt else nt)"
  define h2 where "h2 = h(x \<mapsto> \<lparr>my_color = RED, my_parent = p, my_left = 0, my_right = 0\<rparr>, p \<mapsto> mknode d c (upper trunk cs) x (ptr s), trunk \<mapsto> n)"
  have "linked d x p trunk h = Some h2"
    using x p nt by (auto simp: linked_def h2_def n_def fun_upd_idem)
  moreover have "my_parent n = my_parent nt" by (simp add: n_def set_next_def)
  then have "around_at h2 trunk p cs" unfolding h2_def
    using around_at_trunk [of trunk cs _ nt n p] f nt x p by (auto simp: focus_def)
  then have "focus h2 trunk ((d, (p, c), s) # cs) (new_node x)"
    using f x p z by (auto simp: focus_def h2_def)
  moreover have "h2 trunk = Some n" "\<And>a. a \<notin> {x, p, trunk} \<Longrightarrow> h2 a = h a" by (simp_all add: h2_def)
  ultimately show thesis using that n_def by blast
qed

subsection \<open>Insertion\<close>

lemma rebalanced_rep:
  assumes "focus h2 trunk cs (new_node x)" "around_inv cs 0" "linked dir x p trunk h = Some h2"
    and "ends h2 trunk = Some (hd (addrs (plug cs (new_node x))), last (addrs (plug cs (new_node x))), RED)"
  obtains h' t' where "insert_and_rebalance dir x p trunk h = Some h'" "tree_rep h' trunk t'" "addrs t' = addrs (plug cs (new_node x))"
    "\<And>a. a \<notin> insert x (insert trunk (set (caddrs cs))) \<Longrightarrow> h' a = h2 a"
proof -
  obtain h3 t3 where l: "insert_loop trunk x h2 = Some h3" and t3: "focus h3 trunk [] t3" "rbt (paint BLACK t3)" "t3 \<noteq> Leaf"
      "addrs t3 = addrs (plug cs (new_node x))" "same_rest h2 h3 trunk (set (caddrs cs) \<union> {x})"
    using insert_loop_rebalances [OF assms(1)] assms(2) by (auto simp: rebalanced_def)
  obtain h4 where h4: "modify (ptr t3) (set_color BLACK) h3 = Some h4" "focus h4 trunk [] (paint BLACK t3)" "same_rest h3 h4 trunk (set (addrs t3))"
    using recolor_focus [OF t3(1,3)] by blast
  obtain nt where nt: "h3 trunk = Some nt" "my_parent nt = ptr t3" using t3(1) by (auto simp: focus_def)
  have "insert_and_rebalance dir x p trunk h = Some h4"
    using assms(3) l nt h4(1) by (simp add: insert_and_rebalance_linked)
  moreover have "addrs t3 \<noteq> []" using t3(3) by (cases t3) auto
  then have "tree_rep h4 trunk (paint BLACK t3)"
    using h4(2,3) t3 assms(4) by (auto simp: tree_rep_def same_rest_def)
  moreover have "h4 a = h2 a" if "a \<notin> insert x (insert trunk (set (caddrs cs)))" for a
  proof -
    have "a \<notin> set (addrs t3)" using that by (simp add: t3(4) set_addrs_plug)
    then show ?thesis using that t3(5) h4(3) by (simp add: same_rest_def)
  qed
  ultimately show thesis using that t3(4) by simp
qed

text \<open>Where the new node is in the order: before or after its parent.\<close>

lemma split_unique: "distinct (xs @ p # ys) \<Longrightarrow> us @ p # vs = xs @ p # ys \<Longrightarrow> us = xs \<and> vs = ys"
  using append_Cons_eq_iff [of p xs ys us vs] by auto

lemma addrs_plug_new:
  assumes "addrs (plug ((d, (p, c), s) # cs) Leaf) = xs @ p # ys" "distinct (xs @ p # ys)"
  shows "addrs (plug ((d, (p, c), s) # cs) (new_node x)) = (if d = LEFT then xs @ x # p # ys else xs @ p # x # ys)"
proof (cases d)
  case LEFT
  then show ?thesis using split_unique [OF assms(2), of "before cs" "addrs s @ after cs"] assms(1)
    by (simp add: addrs_plug addrs_mk)
next
  case RIGHT
  then have "(before cs @ addrs s) @ p # after cs = xs @ p # ys" using assms(1) by (simp add: addrs_plug addrs_mk)
  from split_unique [OF assms(2) this] RIGHT show ?thesis by (auto simp: addrs_plug addrs_mk)
qed

lemma plug_append: "plug (cs @ cs') t = plug cs' (plug cs t)"
  by (induction cs t rule: plug.induct) simp_all

lemma plug_find:
  assumes "p \<in> set (addrs t)"
  obtains cs l c r where "t = plug cs (Node l (p, c) r)"
  using assms
proof (induction t arbitrary: thesis)
  case (Node l a r)
  consider "p = fst a" | "p \<in> set (addrs l)" | "p \<in> set (addrs r)" using Node.prems(2) by auto
  then show ?case
  proof cases
    case 1
    then show ?thesis using Node.prems(1) [of "[]" l "snd a" r] by simp
  next
    case 2
    then obtain cs l' c r' where "l = plug cs (Node l' (p, c) r')" using Node.IH(1) by blast
    then show ?thesis using Node.prems(1) [of "cs @ [(LEFT, a, r)]"] by (simp add: plug_append mk_def)
  next
    case 3
    then obtain cs l' c r' where "r = plug cs (Node l' (p, c) r')" using Node.IH(2) by blast
    then show ?thesis using Node.prems(1) [of "cs @ [(RIGHT, a, l)]"] by (simp add: plug_append mk_def)
  qed
qed simp

lemma Node_as_mk: "Node l a r = mk d a (if d = LEFT then l else r) (if d = LEFT then r else l)"
  by (cases d) (simp_all add: mk_def)

lemma insert_below:
  assumes rep: "tree_rep h trunk t" and t: "addrs t = xs @ p # ys" and n: "h p = Some n" "next_of d n = 0"
    and x: "x \<noteq> 0" "x \<noteq> trunk" "x \<notin> set (addrs t)" "h x = Some n0"
  obtains h' t' where "insert_and_rebalance d x p trunk h = Some h'" "tree_rep h' trunk t'"
    "addrs t' = (if d = LEFT then xs @ x # p # ys else xs @ p # x # ys)"
    "\<And>a. a \<notin> insert x (insert trunk (set (addrs t))) \<Longrightarrow> h' a = h a"
proof -
  have "p \<in> set (addrs t)" using t by simp
  then obtain cs0 l c r where "t = plug cs0 (Node l (p, c) r)" by (rule plug_find)
  then obtain s u where tm: "t = plug cs0 (mk d (p, c) u s)" using Node_as_mk by metis
  have f0: "focus h trunk cs0 (mk d (p, c) u s)" using rep tm by (simp add: tree_rep_def focus_plug)
  then have "ptr u = 0" using n by (simp add: focus_def)
  then have u: "u = Leaf" using focus_nonnull [OF f0] by (cases u) auto
  define cs where "cs = (d, (p, c), s) # cs0"
  have f: "focus h trunk cs Leaf" using f0 u by (simp add: cs_def focus_Cons)
  have tp: "t = plug cs Leaf" using tm u by (simp add: cs_def)
  have dist: "distinct (xs @ p # ys)" using rep t by (auto simp: tree_rep_def focus_def)
  have ad: "addrs (plug cs (new_node x)) = (if d = LEFT then xs @ x # p # ys else xs @ p # x # ys)"
    using addrs_plug_new [of d p c s cs0 xs ys] t tp dist by (simp add: cs_def)
  have xc: "x \<notin> set (caddrs cs)" using x(3) tp by (simp add: set_addrs_plug)
  obtain nt where nt: "h trunk = Some nt" "my_left nt = hd (xs @ p # ys)" "my_right nt = last (xs @ p # ys)" "my_color nt = RED"
    using rep t by (auto simp: tree_rep_def ends_def hd_append split: if_splits)
  obtain h2 where h2: "linked d x p trunk h = Some h2" "focus h2 trunk cs (new_node x)"
      "h2 trunk = Some (if p = next_of d nt then set_next d x nt else nt)" "\<And>a. a \<notin> {x, p, trunk} \<Longrightarrow> h2 a = h a"
    using linked_below [OF f [unfolded cs_def] nt(1) x(1,2) _ _ _ x(4)] xc unfolding cs_def by auto
  have "ends h2 trunk = Some (hd (addrs (plug cs (new_node x))), last (addrs (plug cs (new_node x))), RED)"
    using h2(3) nt dist unfolding ad by (cases d; cases xs; cases ys rule: rev_cases) (auto simp: ends_def next_of_def set_next_def)
  moreover have "around_inv cs 0" using rep plug_inv [of cs Leaf] tp by (simp add: tree_rep_def rbt_def)
  ultimately obtain h' t' where r: "insert_and_rebalance d x p trunk h = Some h'" "tree_rep h' trunk t'"
      "addrs t' = addrs (plug cs (new_node x))" "\<And>a. a \<notin> insert x (insert trunk (set (caddrs cs))) \<Longrightarrow> h' a = h2 a"
    using rebalanced_rep [OF h2(2) _ h2(1)] by metis
  have "set (addrs t) = set (caddrs cs)" using tp by (simp add: set_addrs_plug)
  moreover have "p \<in> set (caddrs cs)" by (simp add: cs_def)
  ultimately have "h' a = h a" if "a \<notin> insert x (insert trunk (set (addrs t)))" for a
    using that r(4) [of a] h2(4) [of a] by auto
  then show thesis using that r(1,2,3) ad by simp
qed

lemma insert_empty:
  assumes rep: "tree_rep h trunk Leaf" and x: "x \<noteq> 0" "x \<noteq> trunk" "h x = Some n0"
  obtains h' t' where "insert_and_rebalance d x trunk trunk h = Some h'" "tree_rep h' trunk t'" "addrs t' = [x]"
    "\<And>a. a \<notin> {x, trunk} \<Longrightarrow> h' a = h a"
proof -
  obtain h2 where h2: "linked d x trunk trunk h = Some h2" "focus h2 trunk [] (new_node x)" "ends h2 trunk = Some (x, x, RED)"
      "\<And>a. a \<notin> {x, trunk} \<Longrightarrow> h2 a = h a" using linked_empty [OF rep x] by metis
  obtain h' t' where "insert_and_rebalance d x trunk trunk h = Some h'" "tree_rep h' trunk t'" "addrs t' = [x]"
      "\<And>a. a \<notin> {x, trunk} \<Longrightarrow> h' a = h2 a"
    using rebalanced_rep [OF h2(2) _ h2(1)] h2(3) by auto
  then show thesis using that h2(4) by simp
qed

subsection \<open>Moving along the order\<close>

lemma ptr_eq_0: "tree_at h par t \<Longrightarrow> ptr t = 0 \<longleftrightarrow> t = Leaf"
  by (cases t) auto

lemma addrs_empty: "addrs t = [] \<longleftrightarrow> t = Leaf"
  by (cases t) auto

lemma node_min_at: "tree_at h par t \<Longrightarrow> t \<noteq> Leaf \<Longrightarrow> node_min (ptr t) h = Some (hd (addrs t))"
proof (induction t arbitrary: par)
  case (Node l a r)
  then show ?case by (cases "l = Leaf"; subst node_min.simps) (auto simp: ptr_eq_0 hd_append addrs_empty)
qed simp

lemma node_max_at: "tree_at h par t \<Longrightarrow> t \<noteq> Leaf \<Longrightarrow> node_max (ptr t) h = Some (last (addrs t))"
proof (induction t arbitrary: par)
  case (Node l a r)
  then show ?case by (cases "r = Leaf"; subst node_max.simps) (auto simp: ptr_eq_0 addrs_empty)
qed simp

lemma climb_right:
  assumes "focus h trunk cs t" "t \<noteq> Leaf" "h trunk = Some nt" "my_right nt = last (addrs (plug cs t))"
  shows "do { (x', y) \<leftarrow> climb RIGHT (ptr t) (upper trunk cs) h; n' \<leftarrow> h x'; Some (if my_right n' \<noteq> y then y else x') }
    = Some (hd (after cs @ [trunk]))"
  using assms
proof (induction cs arbitrary: t)
  case Nil
  obtain l a r where t: "t = Node l a r" using Nil.prems(2) by (cases t) auto
  have n: "h (fst a) = Some \<lparr>my_color = snd a, my_parent = trunk, my_left = ptr l, my_right = ptr r\<rparr>" "my_parent nt = fst a"
    "ptr r \<noteq> trunk" using Nil.prems focus_nonnull [OF Nil.prems(1)] ptr_mem [of r] by (auto simp: focus_def t)
  show ?case
  proof (cases "fst a = my_right nt")
    case True
    have "climb RIGHT trunk (fst a) h = Some (trunk, fst a)" using n by (subst climb.simps) (simp add: next_of_def)
    then have "climb RIGHT (fst a) trunk h = Some (trunk, fst a)" using n Nil.prems(3) True by (subst climb.simps) (simp add: next_of_def)
    then show ?thesis using t Nil.prems(3) True by simp
  next
    case False
    then have "climb RIGHT (fst a) trunk h = Some (fst a, trunk)" using Nil.prems(3) by (subst climb.simps) (simp add: next_of_def)
    then show ?thesis using t n by simp
  qed
next
  case (Cons c cs)
  obtain d a s where c: "c = (d, a, s)" by (cases c)
  have n: "h (fst a) = Some (mknode d (snd a) (upper trunk cs) (ptr t) (ptr s))" using Cons.prems(1) c by (simp add: focus_def)
  show ?case
  proof (cases d)
    case RIGHT
    have "climb RIGHT (ptr t) (fst a) h = climb RIGHT (fst a) (upper trunk cs) h" using n RIGHT by (subst climb.simps) (simp)
    then show ?thesis using Cons.IH [of "mk d a t s"] Cons.prems c RIGHT by (simp add: focus_Cons)
  next
    case LEFT
    obtain l b r where t: "t = Node l b r" using Cons.prems(2) by (cases t) auto
    have b: "h (fst b) = Some \<lparr>my_color = snd b, my_parent = fst a, my_left = ptr l, my_right = ptr r\<rparr>" "fst b \<noteq> ptr s" "ptr r \<noteq> fst a"
      using Cons.prems(1) c t ptr_mem [of r] ptr_mem [of s] by (auto simp: focus_def)
    have "climb RIGHT (fst b) (fst a) h = Some (fst b, fst a)" using n LEFT b(2) t
      by (subst climb.simps) (simp add: next_of_def mknode_def)
    then show ?thesis using c t b LEFT by simp
  qed
qed


lemma climb_left:
  assumes "focus h trunk cs t" "t \<noteq> Leaf" "before cs \<noteq> []"
  shows "\<exists>x'. climb LEFT (ptr t) (upper trunk cs) h = Some (x', last (before cs))"
  using assms
proof (induction cs arbitrary: t)
  case (Cons c cs)
  obtain d a s where c: "c = (d, a, s)" by (cases c)
  have n: "h (fst a) = Some (mknode d (snd a) (upper trunk cs) (ptr t) (ptr s))" using Cons.prems(1) c by (simp add: focus_def)
  show ?case
  proof (cases d)
    case LEFT
    have "climb LEFT (ptr t) (fst a) h = climb LEFT (fst a) (upper trunk cs) h" using n LEFT by (subst climb.simps) (simp)
    then show ?thesis using Cons.IH [of "mk d a t s"] Cons.prems c LEFT by (simp add: focus_Cons)
  next
    case RIGHT
    have "ptr t \<noteq> ptr s" using Cons.prems(1,2) c ptr_mem [of s] focus_nonnull [OF Cons.prems(1)] by (cases t) (auto simp: focus_def)
    then have "climb LEFT (ptr t) (fst a) h = Some (ptr t, fst a)" using n RIGHT
      by (subst climb.simps) (simp add: next_of_def mknode_def)
    then show ?thesis using c RIGHT by simp
  qed
qed simp

text \<open>A node of the tree, with what is around it and below it.\<close>

lemma node_of_rep:
  assumes "tree_rep h trunk t" "addrs t = xs @ x # ys"
  obtains cs l c r where "focus h trunk cs (Node l (x, c) r)" "xs = before cs @ addrs l" "ys = addrs r @ after cs" "t = plug cs (Node l (x, c) r)"
proof -
  have "x \<in> set (addrs t)" using assms(2) by simp
  then obtain cs l c r where t: "t = plug cs (Node l (x, c) r)" by (rule plug_find)
  have "distinct (xs @ x # ys)" using assms by (auto simp: tree_rep_def focus_def)
  moreover have "(before cs @ addrs l) @ x # addrs r @ after cs = xs @ x # ys" using assms(2) t by (simp add: addrs_plug)
  ultimately have "before cs @ addrs l = xs \<and> addrs r @ after cs = ys" by (rule split_unique)
  moreover have "focus h trunk cs (Node l (x, c) r)" using assms(1) t by (simp add: tree_rep_def focus_plug)
  ultimately show thesis using that t by blast
qed

lemma increment_in_order:
  assumes "tree_rep h trunk t" "addrs t = xs @ x # ys"
  shows "increment_node x h = Some (hd (ys @ [trunk]))"
proof -
  obtain cs l c r where t: "focus h trunk cs (Node l (x, c) r)" "xs = before cs @ addrs l" "ys = addrs r @ after cs" "t = plug cs (Node l (x, c) r)"
    using node_of_rep [OF assms] .
  have n: "h x = Some \<lparr>my_color = c, my_parent = upper trunk cs, my_left = ptr l, my_right = ptr r\<rparr>" "tree_at h x r"
    using t(1) by (simp_all add: focus_def)
  show ?thesis
  proof (cases "r = Leaf")
    case True
    obtain nt where "h trunk = Some nt" "my_right nt = last (addrs t)" using assms by (auto simp: tree_rep_def ends_def)
    then show ?thesis using climb_right [OF t(1)] n True t(3,4) by (simp add: increment_node_def)
  next
    case False
    then show ?thesis using node_min_at [OF n(2)] n ptr_eq_0 [OF n(2)] addrs_empty [of r] t(3) by (simp add: increment_node_def hd_append)
  qed
qed

lemma decrement_in_order:
  assumes "tree_rep h trunk t" "addrs t = xs @ x # ys" "xs \<noteq> []"
  shows "decrement_node x h = Some (last xs)"
proof -
  obtain cs l c r where t: "focus h trunk cs (Node l (x, c) r)" "xs = before cs @ addrs l" "t = plug cs (Node l (x, c) r)"
    using node_of_rep [OF assms(1,2)] by metis
  have n: "h x = Some \<lparr>my_color = c, my_parent = upper trunk cs, my_left = ptr l, my_right = ptr r\<rparr>" "tree_at h x l"
    using t(1) by (simp_all add: focus_def)
  have e: "c = BLACK \<or> (\<exists>np. h (upper trunk cs) = Some np \<and> my_parent np \<noteq> x)"
  proof (cases cs)
    case Nil
    then show ?thesis using assms(1) t(3) by (simp add: tree_rep_def rbt_def)
  next
    case (Cons a cs')
    have "upper trunk cs' \<noteq> x" using upper_mem [of trunk cs'] t(1) Cons by (cases a) (auto simp: focus_def)
    then show ?thesis using t(1) Cons by (cases a) (auto simp: focus_def)
  qed
  show ?thesis
  proof (cases "l = Leaf")
    case True
    then show ?thesis using climb_left [OF t(1)] n e assms(3) t(2) by (auto simp: decrement_node_def)
  next
    case False
    then show ?thesis using node_max_at [OF n(2)] n e ptr_eq_0 [OF n(2)] addrs_empty [of l] t(2) by (auto simp: decrement_node_def)
  qed
qed

lemma decrement_end:
  assumes "tree_rep h trunk t" "t \<noteq> Leaf"
  shows "decrement_node trunk h = Some (last (addrs t))"
proof -
  obtain nt where nt: "h trunk = Some nt" "my_right nt = last (addrs t)" "my_color nt = RED" "my_parent nt = ptr t"
    using assms addrs_empty [of t] by (auto simp: tree_rep_def ends_def focus_def)
  obtain nr where "h (ptr t) = Some nr" "my_parent nr = trunk" using assms by (cases t) (auto simp: tree_rep_def focus_def)
  then show ?thesis using nt by (simp add: decrement_node_def)
qed

text \<open>The pointers that are null at the ends of a subtree and between neighbours in the order.\<close>

lemma first_left: "tree_at h par t \<Longrightarrow> addrs t = b # ys \<Longrightarrow> \<exists>n. h b = Some n \<and> my_left n = 0"
proof (induction t arbitrary: par ys)
  case (Node l a r)
  then show ?case by (cases "addrs l") (auto simp: addrs_empty)
qed simp

lemma last_right: "tree_at h par t \<Longrightarrow> addrs t = xs @ [b] \<Longrightarrow> \<exists>n. h b = Some n \<and> my_right n = 0"
proof (induction t arbitrary: par xs)
  case (Node l a r)
  then show ?case by (cases "addrs r" rule: rev_cases) (auto simp: addrs_empty simp flip: append_assoc append_Cons)
qed simp

lemma neighbour_free:
  assumes "tree_rep h trunk t" "addrs t = xs @ a # b # ys" "h a = Some na" "my_right na \<noteq> 0"
  shows "\<exists>n. h b = Some n \<and> my_left n = 0"
proof -
  obtain cs l c r where t: "focus h trunk cs (Node l (a, c) r)" "b # ys = addrs r @ after cs"
    using node_of_rep [OF assms(1,2)] by metis
  then have "tree_at h a r" "r \<noteq> Leaf" using assms(3,4) by (auto simp: focus_def)
  moreover from this obtain zs where "addrs r = b # zs" using t(2) addrs_empty [of r] by (cases "addrs r") auto
  ultimately show ?thesis using first_left by blast
qed

lemma climb_left_ends: "focus h trunk cs t \<Longrightarrow> t \<noteq> Leaf \<Longrightarrow> \<exists>r. climb LEFT (ptr t) (upper trunk cs) h = Some r"
proof (induction cs arbitrary: t)
  case Nil
  obtain l a r where t: "t = Node l a r" using Nil.prems(2) by (cases t) auto
  obtain nt where n: "h (fst a) = Some \<lparr>my_color = snd a, my_parent = trunk, my_left = ptr l, my_right = ptr r\<rparr>"
    "h trunk = Some nt" "my_parent nt = fst a" "ptr l \<noteq> trunk"
    using Nil.prems focus_nonnull [OF Nil.prems(1)] ptr_mem [of l] by (auto simp: focus_def t)
  have "climb LEFT trunk (fst a) h = Some (trunk, fst a)" using n by (subst climb.simps) (simp add: next_of_def)
  then show ?case using n t by (cases "my_left nt = fst a"; subst climb.simps) (simp_all add: next_of_def)
next
  case (Cons c cs)
  obtain d a s where c: "c = (d, a, s)" by (cases c)
  have "h (fst a) = Some (mknode d (snd a) (upper trunk cs) (ptr t) (ptr s))" using Cons.prems(1) c by (simp add: focus_def)
  then show ?case using Cons.IH [of "mk d a t s"] Cons.prems c by (subst climb.simps) (simp add: focus_Cons)
qed

lemma decrement_ends:
  assumes "tree_rep h trunk t" "addrs t = xs @ x # ys"
  shows "\<exists>y. decrement_node x h = Some y"
proof (cases "xs = []")
  case True
  obtain cs l c r where t: "focus h trunk cs (Node l (x, c) r)" "xs = before cs @ addrs l" using node_of_rep [OF assms] by metis
  have n: "h x = Some \<lparr>my_color = c, my_parent = upper trunk cs, my_left = ptr l, my_right = ptr r\<rparr>" "ptr l = 0"
    using t True addrs_empty [of l] by (auto simp: focus_def)
  obtain p where "h (upper trunk cs) = Some p" using t(1) around_at_root by (cases "(trunk, cs)" rule: upper.cases) (auto simp: focus_def)
  then show ?thesis using n climb_left_ends [OF t(1)] by (auto simp: decrement_node_def)
qed (use decrement_in_order [OF assms] in blast)

text \<open>The loop over all elements, as copying and assigning a tree do it.\<close>

partial_function (option) nodes_from :: "addr \<Rightarrow> addr \<Rightarrow> nodes \<Rightarrow> addr list option" where
  "nodes_from trunk x h =
     (if x = trunk then Some []
      else do { y \<leftarrow> increment_node x h; ys \<leftarrow> nodes_from trunk y h; Some (x # ys) })"

lemma nodes_from_in_order:
  assumes "tree_rep h trunk t" "addrs t = xs @ ys"
  shows "nodes_from trunk (hd (ys @ [trunk])) h = Some ys"
  using assms(2)
proof (induction ys arbitrary: xs)
  case Nil
  then show ?case by (subst nodes_from.simps) simp
next
  case (Cons y ys)
  have "y \<noteq> trunk" using assms(1) Cons.prems by (auto simp: tree_rep_def focus_def)
  moreover have "nodes_from trunk (hd (ys @ [trunk])) h = Some ys" using Cons.IH [of "xs @ [y]"] Cons.prems by simp
  ultimately show ?case using increment_in_order [OF assms(1) Cons.prems] by (subst nodes_from.simps) simp
qed

text \<open>The height of a balanced tree.\<close>

lemma black_height:
  assumes "invc t" "invh t"
  shows "height t + of_bool (root_color t = BLACK) \<le> 2 * bheight t + 1" "2 ^ bheight t \<le> size1 t"
  using assms
proof (induction t)
  case (Node l a r)
  {
    case 1
    then show ?case using Node.IH(1,3) by (cases "snd a") auto
  next
    case 2
    then show ?case using Node.IH(2,4) by (cases "snd a") auto
  }
qed simp_all

lemma rbt_height:
  assumes "rbt t"
  shows "2 ^ height t \<le> (length (addrs t) + 1) ^ 2"
proof -
  have "height t \<le> 2 * bheight t" "2 ^ bheight t \<le> size1 t" using black_height [of t] assms by (auto simp: rbt_def)
  then have "(2 :: nat) ^ height t \<le> (2 ^ bheight t) ^ 2" by (metis mult.commute one_le_numeral power_increasing power_mult)
  also have "\<dots> \<le> size1 t ^ 2" using \<open>2 ^ bheight t \<le> size1 t\<close> by (rule power_mono) simp
  finally show ?thesis by (simp add: addrs_def size1_size)
qed

text \<open>
  C34. Linking a node \<open>x\<close> below a node \<open>p\<close> whose link on that side is free: the routine ends without following a null
  pointer, the tree is a red-black tree again with its first and last node recorded in the trunk, \<open>x\<close> stands next to \<open>p\<close>
  in the order of the tree and the order of the other nodes has not changed, no other node in memory is written, and the
  tree is at most twice as high as a complete tree with its nodes.
\<close>

theorem insert_keeps_red_black:
  assumes "tree_rep h trunk t" "addrs t = xs @ p # ys" "h p = Some n" "next_of d n = 0"
    and "x \<noteq> 0" "x \<noteq> trunk" "x \<notin> set (addrs t)" "h x = Some n0"
  shows "\<exists>h' t'. insert_and_rebalance d x p trunk h = Some h' \<and> tree_rep h' trunk t'
    \<and> addrs t' = (if d = LEFT then xs @ x # p # ys else xs @ p # x # ys)
    \<and> (\<forall>a. a \<notin> insert x (insert trunk (set (addrs t))) \<longrightarrow> h' a = h a)
    \<and> 2 ^ height t' \<le> (length (addrs t') + 1) ^ 2"
proof -
  obtain h' t' where h': "insert_and_rebalance d x p trunk h = Some h'" "tree_rep h' trunk t'"
      "addrs t' = (if d = LEFT then xs @ x # p # ys else xs @ p # x # ys)"
      "\<And>a. a \<notin> insert x (insert trunk (set (addrs t))) \<Longrightarrow> h' a = h a"
    by (rule insert_below [OF assms]) blast
  have "rbt t'" using h'(2) by (simp add: tree_rep_def)
  then show ?thesis using h' rbt_height by blast
qed

definition chain_nodes :: nodes where
  "chain_nodes =
     [64 \<mapsto> \<lparr>my_color = RED, my_parent = 8, my_left = 16, my_right = 8\<rparr>,
      8 \<mapsto> \<lparr>my_color = BLACK, my_parent = 64, my_left = 16, my_right = 0\<rparr>,
      16 \<mapsto> \<lparr>my_color = RED, my_parent = 8, my_left = 0, my_right = 0\<rparr>,
      24 \<mapsto> \<lparr>my_color = RED, my_parent = 0, my_left = 0, my_right = 0\<rparr>]"

theorem insert_keeps_red_black_witness:
  "\<exists>h' t'. insert_and_rebalance RIGHT 24 16 64 chain_nodes = Some h' \<and> tree_rep h' 64 t' \<and> addrs t' = [16, 24, 8]"
proof -
  have "tree_rep chain_nodes 64 (Node (Node Leaf (16, RED) Leaf) (8, BLACK) Leaf)"
    by (simp add: chain_nodes_def tree_rep_def focus_def rbt_def ends_def addrs_def)
  from insert_keeps_red_black [OF this, of "[]" 16 "[8]" "\<lparr>my_color = RED, my_parent = 8, my_left = 0, my_right = 0\<rparr>" RIGHT 24]
  show ?thesis by (fastforce simp: chain_nodes_def addrs_def next_of_def)
qed

text \<open>
  C35. Iterating over a tree with \<open>operator++\<close> from its first node ends at the trunk, having visited every node once and in
  the order of the tree; each step back with \<open>operator--\<close> returns to the node before.
\<close>

theorem iteration_ends:
  assumes "tree_rep h trunk t"
  shows "nodes_from trunk (hd (addrs t @ [trunk])) h = Some (addrs t) \<and> distinct (addrs t)
    \<and> (\<forall>xs x y ys. addrs t = xs @ x # y # ys \<longrightarrow> increment_node x h = Some y \<and> decrement_node y h = Some x)"
proof -
  have "distinct (addrs t)" using assms by (simp add: tree_rep_def focus_def)
  moreover have "increment_node x h = Some y \<and> decrement_node y h = Some x" if "addrs t = xs @ x # y # ys" for xs x y ys
    using increment_in_order [OF assms that] decrement_in_order [OF assms, of "xs @ [x]" y ys] that by simp
  ultimately show ?thesis using nodes_from_in_order [OF assms, of "[]" "addrs t"] by simp
qed

theorem iteration_ends_witness: "nodes_from 64 16 chain_nodes = Some [16, 8] \<and> decrement_node 8 chain_nodes = Some 16"
proof -
  have "tree_rep chain_nodes 64 (Node (Node Leaf (16, RED) Leaf) (8, BLACK) Leaf)"
    by (simp add: chain_nodes_def tree_rep_def focus_def rbt_def ends_def addrs_def)
  note ends = iteration_ends [OF this, THEN conjunct1] iteration_ends [OF this, THEN conjunct2, THEN conjunct2, rule_format, of "[]" 16 8 "[]"]
  show ?thesis using ends by (simp add: addrs_def)
qed

end
