(* ===== verification/Rb_Tree.thy ===== *)
theory Rb_Tree
  imports Tree_Order
begin

text \<open>
  The class \<open>__rb_tree\<close> of \<open>common/include/c++/bits/stl_tree.hpp\<close> and the parts of \<open>std::map\<close> that are not mere
  calls of it (\<open>common/include/c++/map\<close>).  A tree object is its linked nodes, the elements they hold, the address of
  its trunk and its count.  The comparison is a parameter.  The addresses that the allocator returns are arguments.
  Freeing a node that is not allocated makes an operation \<open>None\<close>, as does a loop that does not end.
\<close>

subsection \<open>State\<close>

record 'a rb_tree =
  tnodes :: nodes
  tdata :: "addr \<rightharpoonup> 'a"
  ttrunk :: addr
  tcount :: nat

type_synonym 'a comparator = "'a \<Rightarrow> 'a \<Rightarrow> bool"

definition new_tree :: "addr \<Rightarrow> 'a rb_tree" where
  "new_tree trunk =
     \<lparr>tnodes = [trunk \<mapsto> \<lparr>my_color = RED, my_parent = 0, my_left = trunk, my_right = trunk\<rparr>], tdata = Map.empty,
      ttrunk = trunk, tcount = 0\<rparr>"

definition get_root :: "'a rb_tree \<Rightarrow> addr option" where
  "get_root st = map_option my_parent (tnodes st (ttrunk st))"

definition leftmost :: "'a rb_tree \<Rightarrow> addr option" where
  "leftmost st = map_option my_left (tnodes st (ttrunk st))"

definition rightmost :: "'a rb_tree \<Rightarrow> addr option" where
  "rightmost st = map_option my_right (tnodes st (ttrunk st))"

definition compare_l :: "'a comparator \<Rightarrow> 'a \<Rightarrow> addr \<Rightarrow> 'a rb_tree \<Rightarrow> bool option" where
  "compare_l lt u p st = map_option (\<lambda>v. lt u v) (tdata st p)"

definition compare_r :: "'a comparator \<Rightarrow> addr \<Rightarrow> 'a \<Rightarrow> 'a rb_tree \<Rightarrow> bool option" where
  "compare_r lt p u st = map_option (\<lambda>v. lt v u) (tdata st p)"

subsection \<open>Search\<close>

partial_function (option) lower_bound :: "'a comparator \<Rightarrow> addr \<Rightarrow> addr \<Rightarrow> 'a \<Rightarrow> 'a rb_tree \<Rightarrow> addr option" where
  "lower_bound lt x y u st =
     (if x = 0 then Some y
      else do {
        b \<leftarrow> compare_r lt x u st;
        n \<leftarrow> tnodes st x;
        if \<not> b then lower_bound lt (my_left n) x u st else lower_bound lt (my_right n) y u st })"

partial_function (option) upper_bound :: "'a comparator \<Rightarrow> addr \<Rightarrow> addr \<Rightarrow> 'a \<Rightarrow> 'a rb_tree \<Rightarrow> addr option" where
  "upper_bound lt x y u st =
     (if x = 0 then Some y
      else do {
        b \<leftarrow> compare_l lt u x st;
        n \<leftarrow> tnodes st x;
        if b then upper_bound lt (my_left n) x u st else upper_bound lt (my_right n) y u st })"

definition find_node :: "'a comparator \<Rightarrow> 'a \<Rightarrow> 'a rb_tree \<Rightarrow> addr option" where
  "find_node lt u st = do {
     rt \<leftarrow> get_root st;
     r \<leftarrow> lower_bound lt rt (ttrunk st) u st;
     if r = ttrunk st then Some r
     else do { b \<leftarrow> compare_l lt u r st; Some (if b then ttrunk st else r) } }"

definition contains :: "'a comparator \<Rightarrow> 'a \<Rightarrow> 'a rb_tree \<Rightarrow> bool option" where
  "contains lt u st = map_option (\<lambda>r. r \<noteq> ttrunk st) (find_node lt u st)"

text \<open>The way down to the place of a new element: the last node and whether the way went left from it.\<close>

partial_function (option) descend_unique :: "'a comparator \<Rightarrow> addr \<Rightarrow> addr \<Rightarrow> bool \<Rightarrow> 'a \<Rightarrow> 'a rb_tree \<Rightarrow> (addr \<times> bool) option" where
  "descend_unique lt x y left_of u st =
     (if x = 0 then Some (y, left_of)
      else do {
        b \<leftarrow> compare_l lt u x st;
        n \<leftarrow> tnodes st x;
        descend_unique lt (if b then my_left n else my_right n) x b u st })"

definition pos_for_unique :: "'a comparator \<Rightarrow> 'a \<Rightarrow> 'a rb_tree \<Rightarrow> (addr \<times> addr) option" where
  "pos_for_unique lt u st = do {
     rt \<leftarrow> get_root st;
     (y, left_of) \<leftarrow> descend_unique lt rt (ttrunk st) True u st;
     lm \<leftarrow> leftmost st;
     if left_of \<and> y = lm then Some (0, y)
     else do {
       j \<leftarrow> (if left_of then decrement_node y (tnodes st) else Some y);
       b \<leftarrow> compare_r lt j u st;
       Some (if b then (0, y) else (j, 0)) } }"

partial_function (option) descend_equal :: "'a comparator \<Rightarrow> addr \<Rightarrow> addr \<Rightarrow> 'a \<Rightarrow> 'a rb_tree \<Rightarrow> addr option" where
  "descend_equal lt x y u st =
     (if x = 0 then Some y
      else do {
        b \<leftarrow> compare_r lt x u st;
        n \<leftarrow> tnodes st x;
        descend_equal lt (if \<not> b then my_left n else my_right n) x u st })"

definition pos_for_equal :: "'a comparator \<Rightarrow> 'a \<Rightarrow> 'a rb_tree \<Rightarrow> (addr \<times> addr) option" where
  "pos_for_equal lt u st = do {
     rt \<leftarrow> get_root st;
     y \<leftarrow> descend_equal lt rt (ttrunk st) u st;
     Some (0, y) }"

definition insert_unique_hint_pos :: "'a comparator \<Rightarrow> addr \<Rightarrow> 'a \<Rightarrow> 'a rb_tree \<Rightarrow> (addr \<times> addr) option" where
  "insert_unique_hint_pos lt pos u st = do {
     lm \<leftarrow> leftmost st;
     rm \<leftarrow> rightmost st;
     if pos = 0 \<or> pos = ttrunk st then do {
       b \<leftarrow> (if tcount st > 0 then compare_r lt rm u st else Some False);
       if b then Some (0, rm) else pos_for_unique lt u st }
     else do {
       bl \<leftarrow> compare_l lt u pos st;
       br \<leftarrow> compare_r lt pos u st;
       if bl then do {
         pv \<leftarrow> decrement_node pos (tnodes st);
         if pos = lm then Some (lm, lm)
         else do {
           b \<leftarrow> compare_r lt pv u st;
           n \<leftarrow> tnodes st pv;
           if b then Some (if my_right n = 0 then (0, pv) else (pos, pos))
           else pos_for_unique lt u st } }
       else if br then do {
         nx \<leftarrow> increment_node pos (tnodes st);
         if pos = rm then Some (0, rm)
         else do {
           b \<leftarrow> compare_l lt u nx st;
           n \<leftarrow> tnodes st pos;
           if b then Some (if my_right n = 0 then (0, pos) else (nx, nx))
           else pos_for_unique lt u st } }
       else Some (pos, 0) } }"

subsection \<open>Nodes and insertion\<close>

definition construct_node :: "addr \<Rightarrow> 'a \<Rightarrow> 'a rb_tree \<Rightarrow> 'a rb_tree" where
  "construct_node l u st =
     st\<lparr>tnodes := (tnodes st)(l \<mapsto> \<lparr>my_color = RED, my_parent = 0, my_left = 0, my_right = 0\<rparr>), tdata := (tdata st)(l \<mapsto> u)\<rparr>"

definition destroy_node :: "addr \<Rightarrow> 'a rb_tree \<Rightarrow> 'a rb_tree option" where
  "destroy_node n st =
     (if n = 0 then Some st
      else if tnodes st n = None then None
      else Some (st\<lparr>tnodes := (tnodes st)(n := None), tdata := (tdata st)(n := None)\<rparr>))"

definition insert_node :: "'a comparator \<Rightarrow> addr \<Rightarrow> addr \<Rightarrow> addr \<Rightarrow> 'a rb_tree \<Rightarrow> (addr \<times> 'a rb_tree) option" where
  "insert_node lt x p l st = do {
     left \<leftarrow> (if x \<noteq> 0 \<or> p = ttrunk st then Some True else do { u \<leftarrow> tdata st l; compare_l lt u p st });
     h \<leftarrow> insert_and_rebalance (if left then LEFT else RIGHT) l p (ttrunk st) (tnodes st);
     Some (l, st\<lparr>tnodes := h, tcount := u64_add (tcount st) 1\<rparr>) }"

definition insert_unique :: "'a comparator \<Rightarrow> addr \<Rightarrow> 'a \<Rightarrow> 'a rb_tree \<Rightarrow> ((addr \<times> bool) \<times> 'a rb_tree) option" where
  "insert_unique lt l u st = do {
     (x, p) \<leftarrow> insert_unique_hint_pos lt 0 u st;
     if p \<noteq> 0 then do { (r, st') \<leftarrow> insert_node lt x p l (construct_node l u st); Some ((r, True), st') }
     else Some ((x, False), st) }"

definition hint_insert_unique :: "'a comparator \<Rightarrow> addr \<Rightarrow> addr \<Rightarrow> 'a \<Rightarrow> 'a rb_tree \<Rightarrow> (addr \<times> 'a rb_tree) option" where
  "hint_insert_unique lt l hint u st = do {
     (x, p) \<leftarrow> insert_unique_hint_pos lt hint u st;
     if p \<noteq> 0 then insert_node lt x p l (construct_node l u st) else Some (x, st) }"

definition hint_emplace_unique :: "'a comparator \<Rightarrow> addr \<Rightarrow> addr \<Rightarrow> 'a \<Rightarrow> 'a rb_tree \<Rightarrow> ((addr \<times> bool) \<times> 'a rb_tree) option" where
  "hint_emplace_unique lt l hint u st0 = do {
     let st = construct_node l u st0;
     (x, p) \<leftarrow> insert_unique_hint_pos lt hint u st;
     if p \<noteq> 0 then do { (r, st') \<leftarrow> insert_node lt x p l st; Some ((r, True), st') }
     else do { st' \<leftarrow> destroy_node l st; Some ((x, False), st') } }"

definition emplace_unique :: "'a comparator \<Rightarrow> addr \<Rightarrow> 'a \<Rightarrow> 'a rb_tree \<Rightarrow> ((addr \<times> bool) \<times> 'a rb_tree) option" where
  "emplace_unique lt l u st0 = do {
     let st = construct_node l u st0;
     (x, p) \<leftarrow> pos_for_unique lt u st;
     if p \<noteq> 0 then do { (r, st') \<leftarrow> insert_node lt x p l st; Some ((r, True), st') }
     else do { st' \<leftarrow> destroy_node l st; Some ((x, False), st') } }"

definition insert_equal :: "'a comparator \<Rightarrow> addr \<Rightarrow> 'a \<Rightarrow> 'a rb_tree \<Rightarrow> (addr \<times> 'a rb_tree) option" where
  "insert_equal lt l u st = do {
     (x, p) \<leftarrow> pos_for_equal lt u st;
     insert_node lt x p l (construct_node l u st) }"

definition insert_lower :: "'a comparator \<Rightarrow> addr \<Rightarrow> addr \<Rightarrow> 'a \<Rightarrow> 'a rb_tree \<Rightarrow> (addr \<times> 'a rb_tree) option" where
  "insert_lower lt l p u st = do {
     left \<leftarrow> (if p = ttrunk st then Some True else compare_l lt u p st);
     let st' = construct_node l u st;
     h \<leftarrow> insert_and_rebalance (if left then LEFT else RIGHT) l p (ttrunk st) (tnodes st');
     Some (l, st'\<lparr>tnodes := h, tcount := u64_add (tcount st) 1\<rparr>) }"

definition insert_lower_equal :: "'a comparator \<Rightarrow> addr \<Rightarrow> 'a \<Rightarrow> 'a rb_tree \<Rightarrow> (addr \<times> 'a rb_tree) option" where
  "insert_lower_equal lt l u st = do {
     rt \<leftarrow> get_root st;
     y \<leftarrow> descend_equal lt rt (ttrunk st) u st;
     insert_lower lt l y u st }"

text \<open>The elements of a range, each with the address its node gets if it is inserted.\<close>

fun insert_range_unique :: "'a comparator \<Rightarrow> (addr \<times> 'a) list \<Rightarrow> 'a rb_tree \<Rightarrow> 'a rb_tree option" where
  "insert_range_unique lt [] st = Some st"
| "insert_range_unique lt ((l, u) # us) st = do { (r, st') \<leftarrow> insert_unique lt l u st; insert_range_unique lt us st' }"

subsection \<open>Removal and destruction\<close>

definition erase_node :: "addr \<Rightarrow> 'a rb_tree \<Rightarrow> (addr \<times> 'a rb_tree) option" where
  "erase_node n st = do {
     (y, h) \<leftarrow> rebalance_for_erase n (ttrunk st) (tnodes st);
     result \<leftarrow> increment_node y h;
     st' \<leftarrow> destroy_node y (st\<lparr>tnodes := h\<rparr>);
     Some (result, st'\<lparr>tcount := u64_sub (tcount st) 1\<rparr>) }"

definition erase_key :: "'a comparator \<Rightarrow> 'a \<Rightarrow> 'a rb_tree \<Rightarrow> (nat \<times> 'a rb_tree) option" where
  "erase_key lt u st = do {
     r \<leftarrow> find_node lt u st;
     if r = ttrunk st then Some (0, st) else do { (_, st') \<leftarrow> erase_node r st; Some (1, st') } }"

partial_function (option) recursive_destroy :: "addr \<Rightarrow> 'a rb_tree \<Rightarrow> 'a rb_tree option" where
  "recursive_destroy n st =
     (if n = 0 then Some st
      else do {
        k \<leftarrow> tnodes st n;
        st1 \<leftarrow> recursive_destroy (my_right k) st;
        k1 \<leftarrow> tnodes st1 n;
        st2 \<leftarrow> destroy_node n st1;
        recursive_destroy (my_left k1) st2 })"

definition reset_trunk :: "'a rb_tree \<Rightarrow> 'a rb_tree" where
  "reset_trunk st = st\<lparr>tnodes := (tnodes st)(ttrunk st \<mapsto> \<lparr>my_color = RED, my_parent = 0, my_left = ttrunk st, my_right = ttrunk st\<rparr>), tcount := 0\<rparr>"

definition clear :: "'a rb_tree \<Rightarrow> 'a rb_tree option" where
  "clear st = do {
     rt \<leftarrow> get_root st;
     st' \<leftarrow> recursive_destroy rt st;
     Some (reset_trunk st') }"

text \<open>Assignment: the elements of the other tree in their order, which is read through its own nodes.\<close>

definition tree_copy_assign :: "'a comparator \<Rightarrow> 'a rb_tree \<Rightarrow> addr list \<Rightarrow> 'a rb_tree \<Rightarrow> 'a rb_tree option" where
  "tree_copy_assign lt that ls st = do {
     st' \<leftarrow> clear st;
     lm \<leftarrow> leftmost that;
     xs \<leftarrow> nodes_from (ttrunk that) lm (tnodes that);
     us \<leftarrow> those (map (tdata that) xs);
     insert_range_unique lt (zip ls us) st' }"

subsection \<open>Maps\<close>

type_synonym ('k, 'v) rb_map = "('k \<times> 'v) rb_tree"

definition key_compare :: "('k \<Rightarrow> 'k \<Rightarrow> bool) \<Rightarrow> ('k \<times> 'v) comparator" where
  "key_compare c a b \<longleftrightarrow> c (fst a) (fst b)"

text \<open>\<open>operator[]\<close> returns a reference: the address of the node and the state; \<open>dflt\<close> is the value of a new element.\<close>

definition map_index :: "('k \<Rightarrow> 'k \<Rightarrow> bool) \<Rightarrow> 'v \<Rightarrow> addr \<Rightarrow> 'k \<Rightarrow> ('k, 'v) rb_map \<Rightarrow> (addr \<times> ('k, 'v) rb_map) option" where
  "map_index c dflt l k st = do {
     rt \<leftarrow> get_root st;
     r \<leftarrow> lower_bound (key_compare c) rt (ttrunk st) (k, dflt) st;
     absent \<leftarrow> (if r = ttrunk st then Some True else compare_l (key_compare c) (k, dflt) r st);
     if absent then hint_insert_unique (key_compare c) l r (k, dflt) st else Some (r, st) }"

definition insert_or_assign :: "('k \<Rightarrow> 'k \<Rightarrow> bool) \<Rightarrow> addr \<Rightarrow> 'k \<Rightarrow> 'v \<Rightarrow> ('k, 'v) rb_map \<Rightarrow> ((addr \<times> bool) \<times> ('k, 'v) rb_map) option" where
  "insert_or_assign c l k v st = do {
     rt \<leftarrow> get_root st;
     r \<leftarrow> lower_bound (key_compare c) rt (ttrunk st) (k, v) st;
     absent \<leftarrow> (if r = ttrunk st then Some True else compare_l (key_compare c) (k, v) r st);
     if absent then do { (r', st') \<leftarrow> hint_insert_unique (key_compare c) l r (k, v) st; Some ((r', True), st') }
     else Some ((r, False), st\<lparr>tdata := (tdata st)(r := map_option (\<lambda>(k', _). (k', v)) (tdata st r))\<rparr>) }"

end
