(* ===== verification/Rb_Sets.thy ===== *)
theory Rb_Sets
  imports Rb_Tree
begin

text \<open>
  The trees as ordered sets and maps.  The comparison is that of a key in a linear order, which covers every strict
  weak order: the key of an element is its class of equivalent elements.  Elements with equal keys are equivalent.
\<close>

subsection \<open>Elements in order\<close>

abbreviation (input) by_key :: "('a \<Rightarrow> 'k::linorder) \<Rightarrow> 'a comparator" where
  "by_key key \<equiv> (\<lambda>u v. key u < key v)"

definition elem :: "'a rb_tree \<Rightarrow> addr \<Rightarrow> 'a" where
  "elem st a = the (tdata st a)"

text \<open>A tree object holds the elements \<open>vs\<close>, in the order of its nodes.\<close>

definition rb_rep :: "'a rb_tree \<Rightarrow> ntree \<Rightarrow> 'a list \<Rightarrow> bool" where
  "rb_rep st t vs \<longleftrightarrow>
     tree_rep (tnodes st) (ttrunk st) t \<and> map (tdata st) (addrs t) = map Some vs \<and> tcount st = length vs \<and> length vs < 2 ^ 64"

lemma rb_rep_elems:
  assumes "rb_rep st t vs"
  shows "vs = map (elem st) (addrs t)" "a \<in> set (addrs t) \<Longrightarrow> tdata st a = Some (elem st a)" "length (addrs t) = length vs"
proof -
  have e: "map (tdata st) (addrs t) = map Some vs" using assms by (simp add: rb_rep_def)
  then have "map the (map (tdata st) (addrs t)) = vs" by (simp add: comp_def)
  then show "vs = map (elem st) (addrs t)" by (simp add: elem_def [abs_def] comp_def)
  show "tdata st a = Some (elem st a)" if "a \<in> set (addrs t)"
  proof -
    have "tdata st a \<in> set (map Some vs)" using that unfolding e [symmetric] by simp
    then show ?thesis by (auto simp: elem_def)
  qed
  show "length (addrs t) = length vs" using arg_cong [OF e, of length] by simp
qed

lemma sorted_split:
  assumes "sorted_wrt (\<lambda>a b. f a \<le> f b) (xs @ a # ys)"
  shows "\<And>b. b \<in> set xs \<Longrightarrow> f b \<le> (f a :: 'k::linorder)" "\<And>b. b \<in> set ys \<Longrightarrow> f a \<le> f b"
    "sorted_wrt (\<lambda>a b. f a \<le> f b) xs" "sorted_wrt (\<lambda>a b. f a \<le> f b) ys"
  using assms by (auto simp: sorted_wrt_append)

lemma lower_bound_at:
  assumes "tree_at (tnodes st) par t" "\<And>a. a \<in> set (addrs t) \<Longrightarrow> tdata st a = Some (elem st a)"
    and "sorted_wrt (\<lambda>a b. key (elem st a) \<le> (key (elem st b) :: 'k::linorder)) (addrs t)"
  shows "lower_bound (by_key key) (ptr t) y u st = Some (hd (dropWhile (\<lambda>a. key (elem st a) < key u) (addrs t) @ [y]))"
  using assms
proof (induction t arbitrary: par y)
  case Leaf
  then show ?case by (subst lower_bound.simps) simp
next
  case (Node l a r)
  note s = sorted_split [of "\<lambda>a. key (elem st a)", OF Node.prems(3) [unfolded addrs_simps(2)]]
  have v: "tdata st (fst a) = Some (elem st (fst a))" using Node.prems(2) by simp
  show ?case
  proof (cases "key (elem st (fst a)) < key u")
    case True
    then have "key (elem st b) < key u" if "b \<in> set (addrs l)" for b using s(1) [OF that] by simp
    then have "dropWhile (\<lambda>a. key (elem st a) < key u) (addrs (Node l a r)) = dropWhile (\<lambda>a. key (elem st a) < key u) (addrs r)"
      using True by (simp add: dropWhile_append)
    then show ?thesis using Node True v s(4) by (subst lower_bound.simps) (auto simp: compare_r_def)
  next
    case False
    have "hd (dropWhile (\<lambda>a. key (elem st a) < key u) (addrs (Node l a r)) @ [y])
      = hd (dropWhile (\<lambda>a. key (elem st a) < key u) (addrs l) @ [fst a])"
      using False by (simp add: dropWhile_append hd_append)
    then show ?thesis using Node False v s(3) by (subst lower_bound.simps) (auto simp: compare_r_def)
  qed
qed


text \<open>
  The place of a new element: below the node \<open>y\<close>, on its free side \<open>d\<close>, after the elements whose keys are not greater
  and before those whose keys are.
\<close>

definition place :: "'a rb_tree \<Rightarrow> ntree \<Rightarrow> ('a \<Rightarrow> 'k::linorder) \<Rightarrow> 'a \<Rightarrow> node_direction \<Rightarrow> addr \<Rightarrow> bool" where
  "place st t key u d y \<longleftrightarrow>
     (\<exists>xs ys n. addrs t = xs @ y # ys \<and> tnodes st y = Some n \<and> next_of d n = 0
        \<and> (\<forall>a \<in> set (xs @ (if d = LEFT then [] else [y])). key (elem st a) \<le> key u)
        \<and> (\<forall>b \<in> set ((if d = LEFT then [y] else []) @ ys). key u < key (elem st b)))"

lemma place_left:
  assumes "place st l key u d y" "key u < key (elem st (fst a))" "\<And>b. b \<in> set (addrs r) \<Longrightarrow> key (elem st (fst a)) \<le> key (elem st b)"
  shows "place st (Node l a r) key u d y"
proof -
  obtain xs ys n where *: "addrs l = xs @ y # ys" "tnodes st y = Some n" "next_of d n = 0"
      "\<forall>a \<in> set (xs @ (if d = LEFT then [] else [y])). key (elem st a) \<le> key u"
      "\<forall>b \<in> set ((if d = LEFT then [y] else []) @ ys). key u < key (elem st b)"
    using assms(1) by (auto simp: place_def)
  have "key u < key (elem st b)" if "b \<in> set (addrs r)" for b using assms(2) assms(3) [OF that] by simp
  then show ?thesis unfolding place_def using * assms(2)
    by (intro exI [of _ xs] exI [of _ "ys @ fst a # addrs r"] exI [of _ n]) auto
qed

lemma place_right:
  assumes "place st r key u d y" "key (elem st (fst a)) \<le> key u" "\<And>b. b \<in> set (addrs l) \<Longrightarrow> key (elem st b) \<le> key (elem st (fst a))"
  shows "place st (Node l a r) key u d y"
proof -
  obtain xs ys n where *: "addrs r = xs @ y # ys" "tnodes st y = Some n" "next_of d n = 0"
      "\<forall>a \<in> set (xs @ (if d = LEFT then [] else [y])). key (elem st a) \<le> key u"
      "\<forall>b \<in> set ((if d = LEFT then [y] else []) @ ys). key u < key (elem st b)"
    using assms(1) by (auto simp: place_def)
  have "key (elem st b) \<le> key u" if "b \<in> set (addrs l)" for b using assms(2) assms(3) [OF that] by simp
  then show ?thesis unfolding place_def using * assms(2)
    by (intro exI [of _ "addrs l @ fst a # xs"] exI [of _ ys] exI [of _ n]) auto
qed

lemma descend_at:
  assumes "tree_at (tnodes st) par t" "\<And>a. a \<in> set (addrs t) \<Longrightarrow> tdata st a = Some (elem st a)"
    and "sorted_wrt (\<lambda>a b. key (elem st a) \<le> (key (elem st b) :: 'k::linorder)) (addrs t)" "t \<noteq> Leaf"
  shows "\<exists>y c. descend_unique (by_key key) (ptr t) y0 c0 u st = Some (y, c) \<and> place st t key u (if c then LEFT else RIGHT) y"
  using assms
proof (induction t arbitrary: par y0 c0)
  case (Node l a r)
  note s = sorted_split [of "\<lambda>a. key (elem st a)", OF Node.prems(3) [unfolded addrs_simps(2)]]
  have n: "tnodes st (fst a) = Some \<lparr>my_color = snd a, my_parent = par, my_left = ptr l, my_right = ptr r\<rparr>" "fst a \<noteq> 0"
    and v: "tdata st (fst a) = Some (elem st (fst a))" using Node.prems(1,2) by simp_all
  define b where "b = (key u < key (elem st (fst a)))"
  have step: "descend_unique (by_key key) (ptr (Node l a r)) y0 c0 u st = descend_unique (by_key key) (ptr (if b then l else r)) (fst a) b u st"
    using n v by (subst descend_unique.simps) (simp add: compare_l_def b_def)
  show ?case
  proof (cases "(if b then l else r) = Leaf")
    case True
    have "place st (Node l a r) key u (if b then LEFT else RIGHT) (fst a)"
      unfolding place_def using n s True
      by (intro exI [of _ "addrs l"] exI [of _ "addrs r"] exI [of _ "\<lparr>my_color = snd a, my_parent = par, my_left = ptr l, my_right = ptr r\<rparr>"])
        (auto simp: b_def next_of_def split: if_splits dest!: s(1,2))
    then show ?thesis using step True by (subst (asm) (2) descend_unique.simps) auto
  next
    case False
    show ?thesis
    proof (cases b)
      case True
      have "\<exists>y c. descend_unique (by_key key) (ptr l) (fst a) True u st = Some (y, c) \<and> place st l key u (if c then LEFT else RIGHT) y"
        by (rule Node.IH(1) [of "fst a"]) (use Node.prems False True s(3) in auto)
      then show ?thesis using step True place_left [of st l key u _ _ a r] s(2) unfolding b_def by auto metis
    next
      case F: False
      have "\<exists>y c. descend_unique (by_key key) (ptr r) (fst a) False u st = Some (y, c) \<and> place st r key u (if c then LEFT else RIGHT) y"
        by (rule Node.IH(2) [of "fst a"]) (use Node.prems False F s(4) in auto)
      then show ?thesis using step F place_right [of st r key u _ _ a l] s(1) unfolding b_def by (auto simp: not_less) metis
    qed
  qed
qed simp

subsection \<open>Positions\<close>

lemma tree_at_node: "tree_at h par t \<Longrightarrow> a \<in> set (addrs t) \<Longrightarrow> \<exists>n. h a = Some n"
  by (induction t arbitrary: par) auto

text \<open>
  What the searches for a position return: an equivalent element and a null pointer, or a place for the element, whose
  side is the one that \<open>__insert_node\<close> will choose.
\<close>

definition pos_ok :: "'a rb_tree \<Rightarrow> ntree \<Rightarrow> ('a \<Rightarrow> 'k::linorder) \<Rightarrow> 'a \<Rightarrow> addr \<times> addr \<Rightarrow> bool" where
  "pos_ok st t key u = (\<lambda>(x, p).
     if p = 0 then x \<in> set (addrs t) \<and> key (elem st x) = key u
     else (\<forall>a \<in> set (addrs t). key (elem st a) \<noteq> key u)
       \<and> (if p = ttrunk st then t = Leaf
          else place st t key u (if x \<noteq> 0 \<or> key u < key (elem st p) then LEFT else RIGHT) p))"

abbreviation (input) ascending :: "('a \<Rightarrow> 'k::linorder) \<Rightarrow> 'a list \<Rightarrow> bool" where
  "ascending key \<equiv> sorted_wrt (\<lambda>u v. key u < key v)"

lemma rb_rep_parts:
  assumes "rb_rep st t vs"
  obtains nt where "tnodes st (ttrunk st) = Some nt" "get_root st = Some (ptr t)" "leftmost st = Some (hd (addrs t @ [ttrunk st]))"
    "rightmost st = Some (last (ttrunk st # addrs t))" "tree_at (tnodes st) (ttrunk st) t" "ttrunk st \<notin> set (addrs t)"
    "0 \<notin> set (addrs t)" "ttrunk st \<noteq> 0"
proof -
  have r: "tree_rep (tnodes st) (ttrunk st) t" using assms by (simp add: rb_rep_def)
  then obtain nt where "tnodes st (ttrunk st) = Some nt" "my_parent nt = ptr t" "my_left nt = hd (addrs t @ [ttrunk st])"
      "my_right nt = last (ttrunk st # addrs t)"
    by (auto simp: tree_rep_def focus_def ends_def)
  moreover have "tree_at (tnodes st) (ttrunk st) t" "ttrunk st \<notin> set (addrs t)" using r by (auto simp: tree_rep_def focus_def)
  moreover have "0 \<notin> set (addrs t)" "ttrunk st \<noteq> 0" using r focus_nonnull by (auto simp: tree_rep_def)
  ultimately show thesis using that by (simp add: get_root_def leftmost_def rightmost_def)
qed

lemma ascending_addrs:
  assumes "rb_rep st t vs" "ascending key vs"
  shows "sorted_wrt (\<lambda>a b. key (elem st a) < (key (elem st b) :: 'k::linorder)) (addrs t)"
    "sorted_wrt (\<lambda>a b. key (elem st a) \<le> (key (elem st b) :: 'k::linorder)) (addrs t)"
proof -
  show *: "sorted_wrt (\<lambda>a b. key (elem st a) < (key (elem st b) :: 'k::linorder)) (addrs t)"
    using assms(2) rb_rep_elems(1) [OF assms(1)] by (simp add: sorted_wrt_map)
  show "sorted_wrt (\<lambda>a b. key (elem st a) \<le> (key (elem st b) :: 'k::linorder)) (addrs t)"
    by (rule sorted_wrt_mono_rel [OF _ *]) simp
qed

text \<open>The node \<open>j\<close> before the place decides whether there is an equivalent element.\<close>

lemma pos_of_place:
  assumes place: "place st t key u (if c then LEFT else RIGHT) y" and y: "y \<noteq> 0" "y \<noteq> ttrunk st"
    and srt: "sorted_wrt (\<lambda>a b. key (elem st a) \<le> (key (elem st b) :: 'k::linorder)) (addrs t)"
    and xy: "addrs t = xs @ y # ys" "\<forall>a \<in> set (xs @ (if c then [] else [y])). key (elem st a) \<le> key u"
        "\<forall>b \<in> set ((if c then [y] else []) @ ys). key u < key (elem st b)"
    and j: "xs @ (if c then [] else [y]) = zs @ [j]"
  shows "pos_ok st t key u (if key (elem st j) < key u then (0, y) else (j, 0))"
proof -
  have j': "j \<in> set (addrs t)" "key (elem st j) \<le> key u" using j xy by (cases c; force)+
  have "sorted_wrt (\<lambda>a b. key (elem st a) \<le> key (elem st b)) (zs @ [j])"
    using srt unfolding xy(1) j [symmetric] by (cases c) (auto simp: sorted_wrt_append)
  then have "key (elem st a) \<le> key (elem st j)" if "a \<in> set (xs @ (if c then [] else [y]))" for a
    using that unfolding j by (auto simp: sorted_wrt_append)
  then have "key (elem st a) \<noteq> key u" if "key (elem st j) < key u" "a \<in> set (addrs t)" for a
    using that xy by (cases c) force+
  moreover have "key u < key (elem st y) \<longleftrightarrow> c" using xy by (cases c) auto
  ultimately show ?thesis using place y j' by (auto simp: pos_ok_def)
qed

lemma pos_for_unique_ok:
  assumes rep: "rb_rep st t vs" and asc: "ascending key vs"
  shows "\<exists>r. pos_for_unique (by_key key) u st = Some r \<and> pos_ok st t key (u :: 'a) r"
proof -
  obtain nt where p: "tnodes st (ttrunk st) = Some nt" "get_root st = Some (ptr t)" "leftmost st = Some (hd (addrs t @ [ttrunk st]))"
    "tree_at (tnodes st) (ttrunk st) t" "ttrunk st \<notin> set (addrs t)" "0 \<notin> set (addrs t)" "ttrunk st \<noteq> 0" using rb_rep_parts [OF rep] by metis
  have el: "tdata st a = Some (elem st a)" if "a \<in> set (addrs t)" for a using rb_rep_elems(2) [OF rep that] .
  note srt = ascending_addrs [OF rep asc]
  show ?thesis
  proof (cases "t = Leaf")
    case True
    have "descend_unique (by_key key) 0 (ttrunk st) True u st = Some (ttrunk st, True)" by (subst descend_unique.simps) simp
    then show ?thesis using p True by (simp add: pos_for_unique_def pos_ok_def)
  next
    case False
    obtain y c where d: "descend_unique (by_key key) (ptr t) (ttrunk st) True u st = Some (y, c)" "place st t key u (if c then LEFT else RIGHT) y"
      using descend_at [OF p(4) el srt(2) False] by blast
    obtain xs ys n where xy: "addrs t = xs @ y # ys" "\<forall>a \<in> set (xs @ (if c then [] else [y])). key (elem st a) \<le> key u"
        "\<forall>b \<in> set ((if c then [y] else []) @ ys). key u < key (elem st b)"
      using d(2) by (auto simp: place_def split: if_splits)
    have y0: "y \<noteq> 0" "y \<noteq> ttrunk st" using p(5,6) xy(1) by auto
    show ?thesis
    proof (cases "c \<and> xs = []")
      case True
      then have "pos_ok st t key u (0, y)" using xy d(2) y0 by (force simp: pos_ok_def)
      then show ?thesis using p d(1) True xy(1) by (simp add: pos_for_unique_def)
    next
      case F: False
      define j where "j = (if c then last xs else y)"
      have "y = hd (addrs t @ [ttrunk st]) \<longleftrightarrow> xs = []"
        using rep xy(1) by (cases xs) (auto simp: rb_rep_def tree_rep_def focus_def)
      moreover have "(if c then decrement_node y (tnodes st) else Some y) = Some j"
        using F decrement_in_order [OF _ xy(1)] rep by (auto simp: j_def rb_rep_def)
      moreover have zs: "xs @ (if c then [] else [y]) = (if c then butlast xs else xs) @ [j]" using F by (auto simp: j_def)
      moreover have "j \<in> set (xs @ (if c then [] else [y]))" unfolding zs by simp
      then have "compare_r (by_key key) j u st = Some (key (elem st j) < key u)" using el [of j] xy(1) by (auto simp: compare_r_def split: if_splits)
      ultimately show ?thesis using p d(1) F pos_of_place [OF d(2) y0 srt(2) xy zs] by (auto simp: pos_for_unique_def)
    qed
  qed
qed


text \<open>Places beside a given node.\<close>

lemma place_before:
  assumes "addrs t = xs @ y # ys" "tnodes st y = Some n" "my_left n = 0"
    and "sorted_wrt (\<lambda>a b. key (elem st a) < (key (elem st b) :: 'k::linorder)) (addrs t)"
    and "key u < key (elem st y)" "xs = [] \<or> key (elem st (last xs)) < key u"
  shows "place st t key u LEFT y \<and> (\<forall>a \<in> set (addrs t). key (elem st a) \<noteq> key u)"
proof -
  have "key (elem st a) < key u" if "a \<in> set xs" for a
    using that assms(1,4,6) by (cases xs rule: rev_cases) (auto simp: sorted_wrt_append)
  moreover have "key u < key (elem st b)" if "b \<in> set ys" for b
    using that assms(1,4,5) by (auto simp: sorted_wrt_append)
  moreover have "place st t key u LEFT y" unfolding place_def
    by (intro exI [of _ xs] exI [of _ ys] exI [of _ n]) (use assms(1-3,5) calculation in \<open>auto simp: next_of_def intro: less_imp_le\<close>)
  ultimately show ?thesis using assms(1,5) by force
qed

lemma place_after:
  assumes "addrs t = xs @ y # ys" "tnodes st y = Some n" "my_right n = 0"
    and "sorted_wrt (\<lambda>a b. key (elem st a) < (key (elem st b) :: 'k::linorder)) (addrs t)"
    and "key (elem st y) < key u" "ys = [] \<or> key u < key (elem st (hd ys))"
  shows "place st t key u RIGHT y \<and> (\<forall>a \<in> set (addrs t). key (elem st a) \<noteq> key u)"
proof -
  have "key u < key (elem st b)" if "b \<in> set ys" for b
    using that assms(1,4,6) by (cases ys) (auto simp: sorted_wrt_append)
  moreover have "key (elem st a) < key u" if "a \<in> set xs" for a
    using that assms(1,4,5) by (auto simp: sorted_wrt_append)
  moreover have "place st t key u RIGHT y" unfolding place_def
    by (intro exI [of _ xs] exI [of _ ys] exI [of _ n]) (use assms(1-3,5) calculation in \<open>auto simp: next_of_def intro: less_imp_le\<close>)
  ultimately show ?thesis using assms(1,5) by force
qed


lemma hint_pos_end:
  assumes rep: "rb_rep st t vs" and asc: "ascending key vs" and pos: "pos = 0 \<or> pos = ttrunk st"
  shows "\<exists>r. insert_unique_hint_pos (by_key key) pos u st = Some r \<and> pos_ok st t key (u :: 'a) r"
proof -
  obtain nt where p: "leftmost st = Some (hd (addrs t @ [ttrunk st]))" "rightmost st = Some (last (ttrunk st # addrs t))"
    "tree_at (tnodes st) (ttrunk st) t" "ttrunk st \<notin> set (addrs t)" "0 \<notin> set (addrs t)" using rb_rep_parts [OF rep] by metis
  have cnt: "tcount st > 0 \<longleftrightarrow> addrs t \<noteq> []" using rep rb_rep_elems(3) [OF rep] by (auto simp: rb_rep_def)
  show ?thesis
  proof (cases "addrs t \<noteq> [] \<and> key (elem st (last (addrs t))) < key u")
    case True
    then obtain xs y where xy: "addrs t = xs @ [y]" by (cases "addrs t" rule: rev_cases) auto
    obtain n where n: "tnodes st y = Some n" "my_right n = 0" using last_right [OF p(3) xy] by blast
    have "place st t key u RIGHT y \<and> (\<forall>a \<in> set (addrs t). key (elem st a) \<noteq> key u)"
      by (rule place_after [OF _ n ascending_addrs(1) [OF rep asc]]) (use xy True in auto)
    then have "pos_ok st t key u (0, y)" using xy p(4,5) True by (auto simp: pos_ok_def)
    moreover have "compare_r (by_key key) y u st = Some True" using True xy rb_rep_elems(2) [OF rep, of y] by (simp add: compare_r_def)
    ultimately show ?thesis using pos p cnt xy by (simp add: insert_unique_hint_pos_def)
  next
    case False
    then have "compare_r (by_key key) (last (addrs t)) u st = Some False" if "addrs t \<noteq> []"
      using that rb_rep_elems(2) [OF rep, of "last (addrs t)"] by (auto simp: compare_r_def)
    then show ?thesis using pos p cnt pos_for_unique_ok [OF rep asc, of u]
      by (cases "addrs t = []") (auto simp: insert_unique_hint_pos_def)
  qed
qed

lemma hint_pos_less:
  assumes rep: "rb_rep st t vs" and asc: "ascending key vs" and xy: "addrs t = xs @ pos # ys" and lt: "key u < key (elem st pos)"
  shows "\<exists>r. insert_unique_hint_pos (by_key key) pos u st = Some r \<and> pos_ok st t key (u :: 'a) r"
proof -
  obtain nt where p: "leftmost st = Some (hd (addrs t @ [ttrunk st]))" "rightmost st = Some (last (ttrunk st # addrs t))"
    "tree_at (tnodes st) (ttrunk st) t" "ttrunk st \<notin> set (addrs t)" "0 \<notin> set (addrs t)" using rb_rep_parts [OF rep] by metis
  have tr: "tree_rep (tnodes st) (ttrunk st) t" using rep by (simp add: rb_rep_def)
  have el: "tdata st a = Some (elem st a)" if "a \<in> set (addrs t)" for a using rb_rep_elems(2) [OF rep that] .
  note srt = ascending_addrs(1) [OF rep asc]
  have c: "compare_l (by_key key) u pos st = Some True" "\<exists>b. compare_r (by_key key) pos u st = Some b" "pos \<noteq> 0" "pos \<noteq> ttrunk st"
    using xy lt el [of pos] p(4,5) by (auto simp: compare_l_def compare_r_def)
  have hd: "pos = hd (addrs t @ [ttrunk st]) \<longleftrightarrow> xs = []" using tr xy by (cases xs) (auto simp: tree_rep_def focus_def)
  show ?thesis
  proof (cases "xs = []")
    case True
    then obtain n where n: "tnodes st pos = Some n" "my_left n = 0" using first_left [OF p(3)] xy by auto
    have "place st t key u LEFT pos \<and> (\<forall>a \<in> set (addrs t). key (elem st a) \<noteq> key u)"
      by (rule place_before [OF xy n srt lt]) (use True in auto)
    then have "pos_ok st t key u (pos, pos)" using c by (auto simp: pos_ok_def)
    then show ?thesis using c p hd True decrement_ends [OF tr xy] by (auto simp: insert_unique_hint_pos_def)
  next
    case False
    then obtain zs q where zs: "xs = zs @ [q]" by (cases xs rule: rev_cases) auto
    have q: "decrement_node pos (tnodes st) = Some q" "q \<in> set (addrs t)" "pos \<noteq> hd (addrs t @ [ttrunk st])"
      using decrement_in_order [OF tr xy False] zs xy hd by auto
    have q0: "q \<noteq> 0" "q \<noteq> ttrunk st" using q(2) p(4,5) by metis+
    obtain nq where nq: "tnodes st q = Some nq" using tree_at_node [OF p(3) q(2)] by blast
    have cq: "compare_r (by_key key) q u st = Some (key (elem st q) < key u)" using el [OF q(2)] by (simp add: compare_r_def)
    have "pos_ok st t key u (if my_right nq = 0 then (0, q) else (pos, pos))" if l: "key (elem st q) < key u"
    proof (cases "my_right nq = 0")
      case True
      have "place st t key u RIGHT q \<and> (\<forall>a \<in> set (addrs t). key (elem st a) \<noteq> key u)"
        by (rule place_after [of t zs q "pos # ys", OF _ nq True srt l]) (use xy zs lt in auto)
      then show ?thesis using True l q0 by (auto simp: pos_ok_def)
    next
      case F: False
      then obtain n where n: "tnodes st pos = Some n" "my_left n = 0" using neighbour_free [OF tr _ nq F, of zs pos ys] xy zs by auto
      have "place st t key u LEFT pos \<and> (\<forall>a \<in> set (addrs t). key (elem st a) \<noteq> key u)"
        by (rule place_before [OF xy n srt lt]) (use zs l in auto)
      then show ?thesis using F c by (auto simp: pos_ok_def)
    qed
    then show ?thesis using c p q nq cq pos_for_unique_ok [OF rep asc, of u]
      by (cases "key (elem st q) < key u") (auto simp: insert_unique_hint_pos_def)
  qed
qed


lemma hint_pos_greater:
  assumes rep: "rb_rep st t vs" and asc: "ascending key vs" and xy: "addrs t = xs @ pos # ys" and gt: "key (elem st pos) < key u"
  shows "\<exists>r. insert_unique_hint_pos (by_key key) pos u st = Some r \<and> pos_ok st t key (u :: 'a) r"
proof -
  obtain nt where p: "leftmost st = Some (hd (addrs t @ [ttrunk st]))" "rightmost st = Some (last (ttrunk st # addrs t))"
    "tree_at (tnodes st) (ttrunk st) t" "ttrunk st \<notin> set (addrs t)" "0 \<notin> set (addrs t)" using rb_rep_parts [OF rep] by metis
  have tr: "tree_rep (tnodes st) (ttrunk st) t" using rep by (simp add: rb_rep_def)
  have el: "tdata st a = Some (elem st a)" if "a \<in> set (addrs t)" for a using rb_rep_elems(2) [OF rep that] .
  note srt = ascending_addrs(1) [OF rep asc]
  have c: "compare_l (by_key key) u pos st = Some False" "compare_r (by_key key) pos u st = Some True" "pos \<noteq> 0" "pos \<noteq> ttrunk st"
    using xy gt el [of pos] p(4,5) by (auto simp: compare_l_def compare_r_def)
  have lst: "pos = last (ttrunk st # addrs t) \<longleftrightarrow> ys = []"
    using tr xy by (cases ys rule: rev_cases) (auto simp: tree_rep_def focus_def)
  have inc: "increment_node pos (tnodes st) = Some (hd (ys @ [ttrunk st]))" using increment_in_order [OF tr xy] .
  obtain n where n: "tnodes st pos = Some n" using tree_at_node [OF p(3), of pos] xy by auto
  show ?thesis
  proof (cases ys)
    case Nil
    then have "my_right n = 0" using last_right [OF p(3), of xs pos] xy n by auto
    then have "place st t key u RIGHT pos \<and> (\<forall>a \<in> set (addrs t). key (elem st a) \<noteq> key u)"
      by (intro place_after [OF xy n _ srt gt]) (use Nil in auto)
    then have "pos_ok st t key u (0, pos)" using c gt by (auto simp: pos_ok_def)
    then show ?thesis using c p lst inc Nil n by (auto simp: insert_unique_hint_pos_def)
  next
    case (Cons q zs)
    then have q: "q \<in> set (addrs t)" "hd (ys @ [ttrunk st]) = q" using xy by auto
    have q0: "q \<noteq> 0" "q \<noteq> ttrunk st" using q(1) p(4,5) by metis+
    have cq: "compare_l (by_key key) u q st = Some (key u < key (elem st q))" using el [OF q(1)] by (simp add: compare_l_def)
    have "pos_ok st t key u (if my_right n = 0 then (0, pos) else (q, q))" if l: "key u < key (elem st q)"
    proof (cases "my_right n = 0")
      case True
      then have "place st t key u RIGHT pos \<and> (\<forall>a \<in> set (addrs t). key (elem st a) \<noteq> key u)"
        by (intro place_after [OF xy n _ srt gt]) (use Cons l in auto)
      then show ?thesis using True gt c by (auto simp: pos_ok_def)
    next
      case F: False
      then obtain nq where nq: "tnodes st q = Some nq" "my_left nq = 0" using neighbour_free [OF tr _ n F, of xs q zs] xy Cons by auto
      have "place st t key u LEFT q \<and> (\<forall>a \<in> set (addrs t). key (elem st a) \<noteq> key u)"
        by (rule place_before [of t "xs @ [pos]" q zs, OF _ nq srt l]) (use xy Cons gt in auto)
      then show ?thesis using F q0 by (auto simp: pos_ok_def)
    qed
    then show ?thesis using c p lst inc q n cq Cons pos_for_unique_ok [OF rep asc, of u]
      by (cases "key u < key (elem st q)") (auto simp: insert_unique_hint_pos_def)
  qed
qed

text \<open>Whatever the hint: null, the end or any node of the tree.\<close>

lemma hint_pos_ok:
  assumes rep: "rb_rep st t vs" and asc: "ascending key vs" and pos: "pos \<in> {0, ttrunk st} \<union> set (addrs t)"
  shows "\<exists>r. insert_unique_hint_pos (by_key key) pos u st = Some r \<and> pos_ok st t key (u :: 'a) r"
proof (cases "pos = 0 \<or> pos = ttrunk st")
  case True
  then show ?thesis by (rule hint_pos_end [OF rep asc])
next
  case False
  then obtain xs ys where xy: "addrs t = xs @ pos # ys" using pos split_list by fastforce
  consider "key u < key (elem st pos)" | "key (elem st pos) < key u" | "key (elem st pos) = key u" by (metis linorder_neqE)
  then show ?thesis
  proof cases
    case 3
    have "compare_l (by_key key) u pos st = Some False" "compare_r (by_key key) pos u st = Some False"
      using xy 3 rb_rep_elems(2) [OF rep, of pos] by (auto simp: compare_l_def compare_r_def)
    moreover obtain nt where "leftmost st = Some (hd (addrs t @ [ttrunk st]))" "rightmost st = Some (last (ttrunk st # addrs t))"
      using rb_rep_parts [OF rep] by metis
    ultimately show ?thesis using False xy 3 by (auto simp: insert_unique_hint_pos_def pos_ok_def)
  qed (use hint_pos_less [OF rep asc xy] hint_pos_greater [OF rep asc xy] in blast)+
qed

subsection \<open>Insertion\<close>

text \<open>The list with a new element, unless it has an equivalent one.\<close>

definition ins_key :: "('a \<Rightarrow> 'k::linorder) \<Rightarrow> 'a \<Rightarrow> 'a list \<Rightarrow> 'a list" where
  "ins_key key u vs =
     (if \<exists>v \<in> set vs. key v = key u then vs
      else takeWhile (\<lambda>v. key v < key u) vs @ u # dropWhile (\<lambda>v. key v < key u) vs)"

lemma ins_key_split:
  assumes "\<And>v. v \<in> set us \<Longrightarrow> key v < key u" "\<And>v. v \<in> set ws \<Longrightarrow> key u < key v"
  shows "ins_key key u (us @ ws) = us @ u # ws"
proof -
  have "takeWhile (\<lambda>v. key v < key u) ws = []" "dropWhile (\<lambda>v. key v < key u) ws = ws"
    using assms(2) by (cases ws; force)+
  then have "takeWhile (\<lambda>v. key v < key u) (us @ ws) = us" "dropWhile (\<lambda>v. key v < key u) (us @ ws) = ws"
    using assms(1) by (simp_all add: takeWhile_append dropWhile_append)
  moreover have "\<not> (\<exists>v \<in> set (us @ ws). key v = key u)" using assms by force
  ultimately show ?thesis by (simp add: ins_key_def)
qed

lemma take_drop_while: "set (takeWhile P xs) \<union> set (dropWhile P xs) = set xs" "length (takeWhile P xs) + length (dropWhile P xs) = length xs"
  by (metis set_append takeWhile_dropWhile_id) (metis length_append takeWhile_dropWhile_id)

lemma ins_key_length: "length (ins_key key u vs) \<le> Suc (length vs)"
  using take_drop_while(2) [of "\<lambda>v. key v < key u" vs] by (simp add: ins_key_def)

lemma ins_key_keys: "(\<exists>v \<in> set (ins_key key u vs). key v = k) \<longleftrightarrow> key u = k \<or> (\<exists>v \<in> set vs. key v = k)"
proof (cases "\<exists>v \<in> set vs. key v = key u")
  case False
  then have "set (ins_key key u vs) = insert u (set vs)"
    using take_drop_while(1) [of "\<lambda>v. key v < key u" vs] by (simp add: ins_key_def)
  then show ?thesis by auto
qed (auto simp: ins_key_def)

lemma ins_key_ascending: "ascending key vs \<Longrightarrow> ascending key (ins_key key u vs)"
proof (cases "\<exists>v \<in> set vs. key v = key u")
  case False
  assume asc: "ascending key vs"
  define A B where "A = takeWhile (\<lambda>v. key v < key u) vs" and "B = dropWhile (\<lambda>v. key v < key u) vs"
  have vs: "vs = A @ B" by (simp add: A_def B_def)
  have A: "key v < key u" if "v \<in> set A" for v using set_takeWhileD that unfolding A_def by force
  have B: "key u < key v" if v: "v \<in> set B" for v
  proof -
    obtain w ws where d: "B = w # ws" using v by (cases B) auto
    then have "\<not> key w < key u" using hd_dropWhile [of "\<lambda>v. key v < key u" vs] by (simp add: B_def)
    then have "key u < key w" using False vs d by force
    moreover have "key w \<le> key v" using v asc d by (auto simp: vs sorted_wrt_append)
    ultimately show ?thesis by simp
  qed
  have "ins_key key u vs = A @ u # B" using False by (simp add: ins_key_def A_def B_def)
  then show ?thesis using asc A B by (simp add: vs sorted_wrt_append)
qed (simp add: ins_key_def)

definition avail :: "'a rb_tree \<Rightarrow> addr \<Rightarrow> bool" where
  "avail st l \<longleftrightarrow> l \<noteq> 0 \<and> tnodes st l = None \<and> tdata st l = None"

lemma avail_fresh:
  assumes "rb_rep st t vs" "avail st l"
  shows "l \<noteq> 0" "l \<noteq> ttrunk st" "l \<notin> set (addrs t)"
proof -
  obtain nt where "tnodes st (ttrunk st) = Some nt" "tree_at (tnodes st) (ttrunk st) t" using rb_rep_parts [OF assms(1)] by metis
  then show "l \<noteq> 0" "l \<noteq> ttrunk st" "l \<notin> set (addrs t)"
    using assms(2) tree_at_node [of "tnodes st" "ttrunk st" t l] by (auto simp: avail_def)
qed

lemma tree_rep_upd:
  assumes "tree_rep h trunk t" "l \<noteq> 0" "l \<noteq> trunk" "l \<notin> set (addrs t)"
  shows "tree_rep (h(l \<mapsto> n)) trunk t"
  using assms by (auto simp: tree_rep_def focus_def ends_def)

lemma construct_rep:
  assumes "rb_rep st t vs" "avail st l"
  shows "rb_rep (construct_node l u st) t vs" "a \<in> set (addrs t) \<Longrightarrow> elem (construct_node l u st) a = elem st a"
  using assms avail_fresh [OF assms] tree_rep_upd [of "tnodes st" "ttrunk st" t l]
  by (auto simp: rb_rep_def construct_node_def elem_def)

text \<open>What an insertion leaves: the elements, the nodes outside the tree, and the elements of all other nodes.\<close>

definition inserted :: "'a rb_tree \<Rightarrow> addr \<Rightarrow> 'a \<Rightarrow> 'a rb_tree \<Rightarrow> ntree \<Rightarrow> bool" where
  "inserted st l u st' t \<longleftrightarrow>
     ttrunk st' = ttrunk st \<and> tdata st' = (tdata st)(l \<mapsto> u)
     \<and> (\<forall>a. a \<notin> {l, ttrunk st} \<union> set (addrs t) \<longrightarrow> tnodes st' a = tnodes st a)"

lemma insert_node_ok:
  assumes rep: "rb_rep st t vs" and l: "avail st l" and len: "Suc (length vs) < 2 ^ 64"
    and pos: "pos_ok (construct_node l u st) t key (u :: 'a) (x, p)" "p \<noteq> 0"
  shows "\<exists>st' t'. insert_node (by_key key) x p l (construct_node l u st) = Some (l, st') \<and> rb_rep st' t' (ins_key key u vs)
    \<and> inserted st l u st' t \<and> set (addrs t') = insert l (set (addrs t))"
proof -
  define s1 where "s1 = construct_node l u st"
  have r1: "rb_rep s1 t vs" using construct_rep [OF rep l] by (simp add: s1_def)
  then have tr: "tree_rep (tnodes s1) (ttrunk s1) t" by (simp add: rb_rep_def)
  note fr = avail_fresh [OF rep l]
  have s1: "ttrunk s1 = ttrunk st" "tdata s1 = (tdata st)(l \<mapsto> u)" "\<exists>n. tnodes s1 l = Some n" "tcount s1 = length vs"
    "\<And>a. a \<noteq> l \<Longrightarrow> tnodes s1 a = tnodes st a"
    using rep by (simp_all add: s1_def construct_node_def rb_rep_def)
  have ok: "\<forall>a \<in> set (addrs t). key (elem s1 a) \<noteq> key u"
    "if p = ttrunk s1 then t = Leaf else place s1 t key u (if x \<noteq> 0 \<or> key u < key (elem s1 p) then LEFT else RIGHT) p"
    using pos by (auto simp: pos_ok_def s1_def)
  show ?thesis unfolding s1_def [symmetric]
  proof (cases "p = ttrunk s1")
    case True
    then have t: "t = Leaf" "vs = []" using ok r1 by (auto simp: rb_rep_def)
    obtain h' t' where h': "insert_and_rebalance LEFT l (ttrunk s1) (ttrunk s1) (tnodes s1) = Some h'" "tree_rep h' (ttrunk s1) t'"
        "addrs t' = [l]" "\<And>a. a \<notin> {l, ttrunk s1} \<Longrightarrow> h' a = tnodes s1 a"
      using insert_empty [OF tr [unfolded t(1)], of l] fr s1 by metis
    define s2 where "s2 = s1\<lparr>tnodes := h', tcount := u64_add (tcount s1) 1\<rparr>"
    have "insert_node (by_key key) x p l s1 = Some (l, s2)" using h'(1) True by (simp add: insert_node_def s2_def)
    moreover have "rb_rep s2 t' (ins_key key u vs)"
      using h' s1 t by (simp add: rb_rep_def s2_def ins_key_def u64_add_def)
    moreover have "inserted st l u s2 t" using h'(4) s1 t by (auto simp: inserted_def s2_def)
    ultimately show "\<exists>st' t'. insert_node (by_key key) x p l s1 = Some (l, st') \<and> rb_rep st' t' (ins_key key u vs) \<and> inserted st l u st' t
        \<and> set (addrs t') = insert l (set (addrs t))" using h'(3) t by auto
  next
    case False
    define d where "d = (if x \<noteq> 0 \<or> key u < key (elem s1 p) then LEFT else RIGHT)"
    obtain xs ys n where xy: "addrs t = xs @ p # ys" "tnodes s1 p = Some n" "next_of d n = 0"
        "\<forall>a \<in> set (xs @ (if d = LEFT then [] else [p])). key (elem s1 a) \<le> key u"
        "\<forall>b \<in> set ((if d = LEFT then [p] else []) @ ys). key u < key (elem s1 b)"
      using ok(2) False unfolding d_def [symmetric] place_def by auto
    obtain n0 where n0: "tnodes s1 l = Some n0" using s1(3) by blast
    have ne: "l \<noteq> ttrunk s1" using fr(2) s1(1) by simp
    obtain h' t' where h': "insert_and_rebalance d l p (ttrunk s1) (tnodes s1) = Some h'" "tree_rep h' (ttrunk s1) t'"
        "addrs t' = (if d = LEFT then xs @ l # p # ys else xs @ p # l # ys)"
        "\<And>a. a \<notin> insert l (insert (ttrunk s1) (set (addrs t))) \<Longrightarrow> h' a = tnodes s1 a"
      using insert_below [OF tr xy(1-3) fr(1) ne fr(3) n0] by blast
    define s2 where "s2 = s1\<lparr>tnodes := h', tcount := u64_add (tcount s1) 1\<rparr>"
    have "tdata s1 p = Some (elem s1 p)" "tdata s1 l = Some u" using rb_rep_elems(2) [OF r1] xy(1) s1(2) by auto
    then have "insert_node (by_key key) x p l s1 = Some (l, s2)"
      using h'(1) False by (auto simp: insert_node_def s2_def d_def compare_l_def split: if_splits)
    moreover have "rb_rep s2 t' (ins_key key u vs)"
    proof -
      define us ws where "us = map (elem s1) (xs @ (if d = LEFT then [] else [p]))" and "ws = map (elem s1) ((if d = LEFT then [p] else []) @ ys)"
      have vs: "vs = us @ ws" using rb_rep_elems(1) [OF r1] xy(1) by (auto simp: us_def ws_def)
      have "key v < key u" if "v \<in> set us" for v using that xy(1,4) ok(1) by (fastforce simp: us_def less_le split: if_splits)
      moreover have "key u < key v" if "v \<in> set ws" for v using that xy(5) by (auto simp: ws_def split: if_splits)
      ultimately have ik: "ins_key key u vs = us @ u # ws" using ins_key_split vs by metis
      have el: "tdata s1 a = Some (elem s1 a)" if "a \<in> set (addrs t)" for a using rb_rep_elems(2) [OF r1 that] .
      have "map (tdata s1) (addrs t') = map Some (us @ u # ws)"
        using el xy(1) s1(2) by (auto simp: h'(3) us_def ws_def)
      then show ?thesis using h'(2) ik vs s1(4) len by (simp add: rb_rep_def s2_def u64_add_id)
    qed
    moreover have "inserted st l u s2 t" using h'(4) s1 by (auto simp: inserted_def s2_def)
    ultimately show "\<exists>st' t'. insert_node (by_key key) x p l s1 = Some (l, st') \<and> rb_rep st' t' (ins_key key u vs) \<and> inserted st l u st' t
        \<and> set (addrs t') = insert l (set (addrs t))" using h'(3) xy(1) by (intro exI [of _ s2] exI [of _ t']) auto
  qed
qed


lemma place_construct:
  assumes "rb_rep st t vs" "avail st l"
  shows "place (construct_node l u st) t key v d y \<longleftrightarrow> place st t key v d y"
proof -
  note fr = avail_fresh [OF assms]
  have e: "elem (construct_node l u st) a = elem st a" if "a \<in> set (addrs t)" for a using construct_rep(2) [OF assms that] .
  show ?thesis unfolding place_def
  proof (intro iff_exI conj_cong refl)
    fix xs ys n assume t: "addrs t = xs @ y # ys"
    show "tnodes (construct_node l u st) y = Some n \<longleftrightarrow> tnodes st y = Some n" using t fr(3) by (auto simp: construct_node_def)
    show "(\<forall>a\<in>set (xs @ (if d = LEFT then [] else [y])). key (elem (construct_node l u st) a) \<le> key v)
        \<longleftrightarrow> (\<forall>a\<in>set (xs @ (if d = LEFT then [] else [y])). key (elem st a) \<le> key v)"
      by (intro ball_cong refl) (use e t in \<open>auto split: if_splits\<close>)
    show "(\<forall>b\<in>set ((if d = LEFT then [y] else []) @ ys). key v < key (elem (construct_node l u st) b))
        \<longleftrightarrow> (\<forall>b\<in>set ((if d = LEFT then [y] else []) @ ys). key v < key (elem st b))"
      by (intro ball_cong refl) (use e t in \<open>auto split: if_splits\<close>)
  qed
qed

lemma pos_ok_construct:
  assumes "rb_rep st t vs" "avail st l"
  shows "pos_ok (construct_node l u st) t key v r \<longleftrightarrow> pos_ok st t key v r"
proof -
  obtain x p where r: "r = (x, p)" by (cases r)
  have e: "elem (construct_node l u st) a = elem st a" if "a \<in> set (addrs t)" for a using construct_rep(2) [OF assms that] .
  have tr: "ttrunk (construct_node l u st) = ttrunk st" by (simp add: construct_node_def)
  show ?thesis
  proof (cases "p \<in> set (addrs t)")
    case True
    then show ?thesis using e tr unfolding r pos_ok_def by (auto simp: place_construct [OF assms])
  next
    case False
    then have "\<not> place st t key v d p" for d by (auto simp: place_def)
    then show ?thesis using e tr unfolding r pos_ok_def by (auto simp: place_construct [OF assms])
  qed
qed

text \<open>The result of every operation that inserts an element if there is no equivalent one.\<close>

definition unique_result :: "('a \<Rightarrow> 'k::linorder) \<Rightarrow> 'a \<Rightarrow> 'a list \<Rightarrow> addr \<Rightarrow> 'a rb_tree \<Rightarrow> addr \<times> bool \<Rightarrow> 'a rb_tree \<Rightarrow> bool" where
  "unique_result key u vs l st r st' \<longleftrightarrow>
     (\<exists>t. rb_rep st' t (ins_key key u vs) \<and> fst r \<in> set (addrs t) \<and> key (elem st' (fst r)) = key u)
     \<and> snd r = (\<forall>v \<in> set vs. key v \<noteq> key u) \<and> ttrunk st' = ttrunk st \<and> (\<forall>m. avail st m \<longrightarrow> m \<noteq> l \<longrightarrow> avail st' m)"

lemma unique_present:
  assumes "rb_rep st t vs" "pos_ok st t key u (x, 0)"
  shows "unique_result key u vs l st (x, False) st"
proof -
  have "x \<in> set (addrs t)" "key (elem st x) = key u" using assms(2) by (auto simp: pos_ok_def)
  moreover from this have "\<exists>v \<in> set vs. key v = key u" using rb_rep_elems(1) [OF assms(1)] by auto
  ultimately show ?thesis using assms(1) by (auto simp: unique_result_def ins_key_def)
qed

lemma unique_inserted:
  assumes rep: "rb_rep st t vs" and l: "avail st l" and len: "Suc (length vs) < 2 ^ 64" and pos: "pos_ok st t key (u :: 'a) (x, p)" "p \<noteq> 0"
  obtains st' where "insert_node (by_key key) x p l (construct_node l u st) = Some (l, st')" "unique_result key u vs l st (l, True) st'"
proof -
  obtain st' t' where st': "insert_node (by_key key) x p l (construct_node l u st) = Some (l, st')" "rb_rep st' t' (ins_key key u vs)"
      "inserted st l u st' t" "set (addrs t') = insert l (set (addrs t))"
    using insert_node_ok [OF rep l len pos_ok_construct [OF rep l, THEN iffD2, OF pos(1)] pos(2)] by blast
  have no: "\<forall>v \<in> set vs. key v \<noteq> key u" using pos rb_rep_elems(1) [OF rep] by (auto simp: pos_ok_def split: if_splits)
  have "elem st' l = u" using st'(3) by (simp add: inserted_def elem_def)
  moreover have "avail st' m" if "avail st m" "m \<noteq> l" for m
    using that avail_fresh [OF rep that(1)] st'(3) by (simp add: inserted_def avail_def)
  ultimately have "unique_result key u vs l st (l, True) st'"
    using st'(2-4) no by (auto simp: unique_result_def inserted_def)
  then show thesis using that st'(1) by blast
qed


lemma hint_insert_unique_ok:
  assumes rep: "rb_rep st t vs" and asc: "ascending key vs" and l: "avail st l" and len: "Suc (length vs) < 2 ^ 64"
    and pos: "pos \<in> {0, ttrunk st} \<union> set (addrs t)"
  shows "\<exists>r b st'. hint_insert_unique (by_key key) l pos u st = Some (r, st') \<and> unique_result key (u :: 'a) vs l st (r, b) st'"
proof -
  obtain x p where xp: "insert_unique_hint_pos (by_key key) pos u st = Some (x, p)" "pos_ok st t key u (x, p)"
    using hint_pos_ok [OF rep asc pos, of u] by auto
  show ?thesis
  proof (cases "p = 0")
    case True
    then show ?thesis using xp unique_present [OF rep, of key u x] by (auto simp: hint_insert_unique_def)
  next
    case False
    obtain st' where "insert_node (by_key key) x p l (construct_node l u st) = Some (l, st')" "unique_result key u vs l st (l, True) st'"
      using unique_inserted [OF rep l len xp(2) False] .
    then show ?thesis using xp(1) False by (auto simp: hint_insert_unique_def)
  qed
qed

lemma insert_unique_ok:
  assumes rep: "rb_rep st t vs" and asc: "ascending key vs" and l: "avail st l" and len: "Suc (length vs) < 2 ^ 64"
  shows "\<exists>r st'. insert_unique (by_key key) l u st = Some (r, st') \<and> unique_result key (u :: 'a) vs l st r st'"
proof -
  obtain x p where xp: "insert_unique_hint_pos (by_key key) 0 u st = Some (x, p)" "pos_ok st t key u (x, p)"
    using hint_pos_ok [OF rep asc, of 0 u] by auto
  show ?thesis
  proof (cases "p = 0")
    case True
    then show ?thesis using xp unique_present [OF rep, of key u x] by (auto simp: insert_unique_def)
  next
    case False
    obtain st' where "insert_node (by_key key) x p l (construct_node l u st) = Some (l, st')" "unique_result key u vs l st (l, True) st'"
      using unique_inserted [OF rep l len xp(2) False] .
    then show ?thesis using xp(1) False by (auto simp: insert_unique_def)
  qed
qed

lemma construct_destroy:
  assumes "avail st l"
  shows "destroy_node l (construct_node l u st) = Some st"
  using assms by (simp add: destroy_node_def construct_node_def avail_def fun_upd_idem)

lemma emplace_unique_ok:
  assumes rep: "rb_rep st t vs" and asc: "ascending key vs" and l: "avail st l" and len: "Suc (length vs) < 2 ^ 64"
  shows "\<exists>r st'. emplace_unique (by_key key) l u st = Some (r, st') \<and> unique_result key (u :: 'a) vs l st r st'"
proof -
  obtain x p where xp: "pos_for_unique (by_key key) u (construct_node l u st) = Some (x, p)" "pos_ok (construct_node l u st) t key u (x, p)"
    using pos_for_unique_ok [OF construct_rep(1) [OF rep l] asc, of u u] by auto
  have pos: "pos_ok st t key u (x, p)"
    using xp(2) by (simp only: pos_ok_construct [OF rep l])
  show ?thesis
  proof (cases "p = 0")
    case True
    then show ?thesis using xp(1) pos unique_present [OF rep, of key u x] construct_destroy [OF l] by (auto simp: emplace_unique_def)
  next
    case False
    obtain st' where "insert_node (by_key key) x p l (construct_node l u st) = Some (l, st')" "unique_result key u vs l st (l, True) st'"
      using unique_inserted [OF rep l len pos False] .
    then show ?thesis using xp(1) False by (auto simp: emplace_unique_def)
  qed
qed

subsection \<open>Search\<close>

lemma lower_bound_ok:
  assumes rep: "rb_rep st t vs" and asc: "ascending key vs"
  obtains r where "do { rt \<leftarrow> get_root st; lower_bound (by_key key) rt (ttrunk st) u st } = Some r" "r \<in> {ttrunk st} \<union> set (addrs t)"
    "r = ttrunk st \<Longrightarrow> \<forall>v \<in> set vs. key v < key (u :: 'a)" "r \<noteq> ttrunk st \<Longrightarrow> \<not> key (elem st r) < key u"
    "r \<noteq> ttrunk st \<Longrightarrow> key u < key (elem st r) \<Longrightarrow> \<forall>v \<in> set vs. key v \<noteq> key u"
proof -
  obtain nt where p: "get_root st = Some (ptr t)" "tree_at (tnodes st) (ttrunk st) t" "ttrunk st \<notin> set (addrs t)"
    using rb_rep_parts [OF rep] by metis
  have el: "tdata st a = Some (elem st a)" if "a \<in> set (addrs t)" for a using rb_rep_elems(2) [OF rep that] .
  note srt = ascending_addrs [OF rep asc]
  have vs: "vs = map (elem st) (addrs t)" using rb_rep_elems(1) [OF rep] .
  define P where "P = (\<lambda>a. key (elem st a) < key u)"
  have lb: "lower_bound (by_key key) (ptr t) (ttrunk st) u st = Some (hd (dropWhile P (addrs t) @ [ttrunk st]))"
    unfolding P_def by (rule lower_bound_at [OF p(2) el srt(2)])
  show thesis
  proof (cases "dropWhile P (addrs t)")
    case Nil
    then have "\<forall>v \<in> set vs. key v < key u" by (auto simp: vs P_def)
    then show thesis using that [of "ttrunk st"] lb p Nil by simp
  next
    case (Cons r rs)
    have t: "addrs t = takeWhile P (addrs t) @ r # rs" using Cons by (metis takeWhile_dropWhile_id)
    have r: "\<not> P r" using Cons hd_dropWhile [of P "addrs t"] by simp
    have rm: "r \<in> set (addrs t)" by (subst t) simp
    have "key (elem st a) \<noteq> key u" if a: "a \<in> set (addrs t)" "key u < key (elem st r)" for a
    proof -
      consider "a \<in> set (takeWhile P (addrs t))" | "a = r" | "a \<in> set rs" using a(1) by (subst (asm) t) auto
      then show ?thesis
      proof cases
        case 1
        then show ?thesis using set_takeWhileD [of a P "addrs t"] by (auto simp: P_def)
      next
        case 3
        have "sorted_wrt (\<lambda>a b. key (elem st a) < key (elem st b)) (takeWhile P (addrs t) @ r # rs)" using srt(1) t by simp
        then show ?thesis using 3 a(2) by (auto simp: sorted_wrt_append)
      qed (use a(2) in auto)
    qed
    then show thesis using that [of r] lb p Cons r rm by (auto simp: P_def vs)
  qed
qed

lemma find_node_ok:
  assumes rep: "rb_rep st t vs" and asc: "ascending key vs"
  obtains r where "find_node (by_key key) u st = Some r" "r = ttrunk st \<longleftrightarrow> (\<forall>v \<in> set vs. key v \<noteq> key (u :: 'a))"
    "r \<noteq> ttrunk st \<Longrightarrow> r \<in> set (addrs t) \<and> key (elem st r) = key u"
proof -
  obtain r where r: "do { rt \<leftarrow> get_root st; lower_bound (by_key key) rt (ttrunk st) u st } = Some r" "r \<in> {ttrunk st} \<union> set (addrs t)"
    "r = ttrunk st \<Longrightarrow> \<forall>v \<in> set vs. key v < key u" "r \<noteq> ttrunk st \<Longrightarrow> \<not> key (elem st r) < key u"
    "r \<noteq> ttrunk st \<Longrightarrow> key u < key (elem st r) \<Longrightarrow> \<forall>v \<in> set vs. key v \<noteq> key u" using lower_bound_ok [OF rep asc, of u] by metis
  show thesis
  proof (cases "r = ttrunk st")
    case True
    then have "find_node (by_key key) u st = Some (ttrunk st)" using r(1) by (auto simp: find_node_def split: bind_splits)
    then show thesis using that [of "ttrunk st"] r(3) True by force
  next
    case False
    then have m: "r \<in> set (addrs t)" using r(2) by simp
    then have v: "tdata st r = Some (elem st r)" "elem st r \<in> set vs" using rb_rep_elems(1,2) [OF rep] by auto
    have "find_node (by_key key) u st = Some (if key u < key (elem st r) then ttrunk st else r)"
      using r(1) False v(1) by (auto simp: find_node_def compare_l_def split: bind_splits)
    then show thesis using that r(4,5) [OF False] m v(2) False by (cases "key u < key (elem st r)") force+
  qed
qed

lemma contains_ok:
  assumes "rb_rep st t vs" "ascending key vs"
  shows "contains (by_key key) u st = Some (\<exists>v \<in> set vs. key v = key u)"
proof -
  obtain r where "find_node (by_key key) u st = Some r" "r = ttrunk st \<longleftrightarrow> (\<forall>v \<in> set vs. key v \<noteq> key u)"
    using find_node_ok [OF assms] by metis
  then show ?thesis by (simp add: contains_def)
qed

subsection \<open>The interface of an ordered set\<close>

text \<open>
  What users of a set rely on: an operation that inserts an element at a free address unless there is an equivalent
  one, and a test.  From these follows what inserting a whole range gives.
\<close>

definition holds :: "'a rb_tree \<Rightarrow> 'a list \<Rightarrow> bool" where
  "holds st vs \<longleftrightarrow> (\<exists>t. rb_rep st t vs)"

locale unique_set =
  fixes rep :: "'s \<Rightarrow> 'a list \<Rightarrow> bool" and free :: "'s \<Rightarrow> addr \<Rightarrow> bool"
    and ins :: "addr \<Rightarrow> 'a \<Rightarrow> 's \<Rightarrow> ('r \<times> 's) option" and mem :: "'a \<Rightarrow> 's \<Rightarrow> bool option"
    and range :: "(addr \<times> 'a) list \<Rightarrow> 's \<Rightarrow> 's option" and key :: "'a \<Rightarrow> 'k::linorder"
  assumes ins: "rep s vs \<Longrightarrow> ascending key vs \<Longrightarrow> free s l \<Longrightarrow> Suc (length vs) < 2 ^ 64
      \<Longrightarrow> \<exists>r s'. ins l u s = Some (r, s') \<and> rep s' (ins_key key u vs) \<and> (\<forall>m. free s m \<longrightarrow> m \<noteq> l \<longrightarrow> free s' m)"
    and mem: "rep s vs \<Longrightarrow> ascending key vs \<Longrightarrow> mem u s = Some (\<exists>v \<in> set vs. key v = key u)"
    and range_Nil: "range [] s = Some s"
    and range_Cons: "range ((l, u) # us) s = do { (r, s') \<leftarrow> ins l u s; range us s' }"
begin

lemma range_elements:
  assumes "rep s vs" "ascending key vs" "distinct (map fst us)" "\<And>l. l \<in> set (map fst us) \<Longrightarrow> free s l" "length vs + length us < 2 ^ 64"
  shows "\<exists>s'. range us s = Some s' \<and> rep s' (fold (ins_key key) (map snd us) vs)"
  using assms
proof (induction us arbitrary: s vs)
  case Nil
  then show ?case by (simp add: range_Nil)
next
  case (Cons a us)
  obtain l u where a: "a = (l, u)" by (cases a)
  obtain r s' where s': "ins l u s = Some (r, s')" "rep s' (ins_key key u vs)" "\<forall>m. free s m \<longrightarrow> m \<noteq> l \<longrightarrow> free s' m"
    using ins [OF Cons.prems(1,2), of l u] Cons.prems(4,5) a by auto
  have "free s' m" if "m \<in> set (map fst us)" for m using that s'(3) Cons.prems(3,4) a by auto
  then have "\<exists>s''. range us s' = Some s'' \<and> rep s'' (fold (ins_key key) (map snd us) (ins_key key u vs))"
    using Cons.prems(2,3,5) a ins_key_length [of key u vs] by (intro Cons.IH [OF s'(2) ins_key_ascending]) auto
  then show ?case using s'(1) a by (simp add: range_Cons)
qed

lemma fold_keys: "(\<exists>v \<in> set (fold (ins_key key) us vs). key v = k) \<longleftrightarrow> (\<exists>v \<in> set us \<union> set vs. key v = k)"
  by (induction us arbitrary: vs) (auto simp: bex_Un ins_key_keys)

lemma fold_ascending: "ascending key vs \<Longrightarrow> ascending key (fold (ins_key key) us vs)"
  by (induction us arbitrary: vs) (simp_all add: ins_key_ascending)

text \<open>A range inserted into the empty set: exactly its keys are found, and the elements are in order.\<close>

lemma range_members:
  assumes "rep s []" "distinct (map fst us)" "\<And>l. l \<in> set (map fst us) \<Longrightarrow> free s l" "length us < 2 ^ 64"
  shows "\<exists>s'. range us s = Some s' \<and> rep s' (fold (ins_key key) (map snd us) []) \<and> ascending key (fold (ins_key key) (map snd us) [])
    \<and> (\<forall>u. mem u s' = Some (\<exists>v \<in> set (map snd us). key v = key u))"
proof -
  obtain s' where s': "range us s = Some s'" "rep s' (fold (ins_key key) (map snd us) [])"
    using range_elements [OF assms(1) _ assms(2,3)] assms(4) by auto
  moreover have "ascending key (fold (ins_key key) (map snd us) [])" by (rule fold_ascending) simp
  ultimately show ?thesis using mem [OF s'(2)] by (simp add: fold_keys)
qed

end

interpretation ts: unique_set holds avail "insert_unique (by_key key)" "contains (by_key key)" "insert_range_unique (by_key key)" key
  for key :: "'a \<Rightarrow> 'k::linorder"
proof
  fix s :: "'a rb_tree" and vs l u
  assume "holds s vs" "ascending key vs" "avail s l" "Suc (length vs) < 2 ^ 64"
  then show "\<exists>r s'. insert_unique (by_key key) l u s = Some (r, s') \<and> holds s' (ins_key key u vs) \<and> (\<forall>m. avail s m \<longrightarrow> m \<noteq> l \<longrightarrow> avail s' m)"
    using insert_unique_ok [of s _ vs key l u] unfolding holds_def unique_result_def by blast
next
  fix s :: "'a rb_tree" and vs u
  assume "holds s vs" "ascending key vs"
  then show "contains (by_key key) u s = Some (\<exists>v \<in> set vs. key v = key u)" using contains_ok [of s _ vs key u] unfolding holds_def by blast
qed simp_all

end
