(* ===== verification/Rb_Maps.thy ===== *)
theory Rb_Maps
  imports Rb_Sets
begin

text \<open>
  The guarantees of \<open>std::set\<close> and \<open>std::map\<close> over the red-black tree: what a range of insertions builds, what
  \<open>operator[]\<close> and \<open>insert_or_assign\<close> do to the map, that clearing frees every node once, and what removal does.
\<close>

subsection \<open>Building a set\<close>

lemma new_tree_rep: "trunk \<noteq> 0 \<Longrightarrow> rb_rep (new_tree trunk) Leaf []"
  by (simp add: rb_rep_def new_tree_def tree_rep_def focus_def rbt_def ends_def)

lemma new_tree_avail: "avail (new_tree trunk) l \<longleftrightarrow> l \<noteq> 0 \<and> l \<noteq> trunk"
  by (auto simp: avail_def new_tree_def)

lemma rb_rep_iterates:
  assumes "rb_rep st t vs"
  shows "do { lm \<leftarrow> leftmost st; nodes_from (ttrunk st) lm (tnodes st) } = Some (addrs t)"
proof -
  obtain nt where "leftmost st = Some (hd (addrs t @ [ttrunk st]))" using rb_rep_parts [OF assms] by metis
  then show ?thesis using nodes_from_in_order [of "tnodes st" "ttrunk st" t "[]"] assms by (simp add: rb_rep_def)
qed

lemma range_trunk: "insert_range_unique lt us st = Some st' \<Longrightarrow> ttrunk st' = ttrunk st"
proof (induction us arbitrary: st)
  case (Cons a us)
  obtain l u where a: "a = (l, u)" by (cases a)
  obtain r s1 where s1: "insert_unique lt l u st = Some (r, s1)" "insert_range_unique lt us s1 = Some st'"
    using Cons.prems a by (auto split: bind_splits)
  have "ttrunk s1 = ttrunk st" using s1(1)
    by (auto simp: insert_unique_def insert_node_def construct_node_def split: bind_splits if_splits)
  then show ?case using Cons.IH [OF s1(2)] by simp
qed simp

text \<open>
  C36. A set built from a range: inserting any sequence of elements into an empty tree succeeds; the tree then contains
  exactly the elements equivalent to one of the range, and iterating over it from the first node visits elements with
  strictly ascending keys, one for each key of the range.
\<close>

theorem range_builds_set:
  assumes "trunk \<noteq> 0" "distinct (map fst us)" "\<forall>l \<in> set (map fst us). l \<noteq> 0 \<and> l \<noteq> trunk" "length us < 2 ^ 64"
  shows "\<exists>st xs. insert_range_unique (by_key key) us (new_tree trunk) = Some st
    \<and> (\<forall>u. contains (by_key key) u st = Some (\<exists>v \<in> set (map snd us). key v = key u))
    \<and> do { lm \<leftarrow> leftmost st; nodes_from trunk lm (tnodes st) } = Some xs
    \<and> ascending key (map (elem st) xs) \<and> key ` set (map (elem st) xs) = (key ` set (map snd us) :: 'k::linorder set)"
proof -
  obtain st where st: "insert_range_unique (by_key key) us (new_tree trunk) = Some st" "holds st (fold (ins_key key) (map snd us) [])"
      "ascending key (fold (ins_key key) (map snd us) [])" "\<forall>u. contains (by_key key) u st = Some (\<exists>v \<in> set (map snd us). key v = key u)"
    using ts.range_members [of "new_tree trunk" us key] new_tree_rep [OF assms(1)] assms(2-4) new_tree_avail [of trunk] unfolding holds_def by auto
  obtain t where t: "rb_rep st t (fold (ins_key key) (map snd us) [])" using st(2) unfolding holds_def by blast
  have e: "map (elem st) (addrs t) = fold (ins_key key) (map snd us) []" using rb_rep_elems(1) [OF t] by simp
  have "ttrunk st = trunk" using range_trunk [OF st(1)] by (simp add: new_tree_def)
  then have "do { lm \<leftarrow> leftmost st; nodes_from trunk lm (tnodes st) } = Some (addrs t)" using rb_rep_iterates [OF t] by simp
  moreover have "k \<in> key ` set (map (elem st) (addrs t)) \<longleftrightarrow> k \<in> key ` set (map snd us)" for k
    unfolding e using ts.fold_keys [of key "map snd us" "[]" k] by (simp add: image_iff eq_commute [of k])
  then have "key ` set (map (elem st) (addrs t)) = key ` set (map snd us)" by blast
  ultimately show ?thesis using st(1,4) st(3) [folded e] by (intro exI [of _ st] exI [of _ "addrs t"]) simp
qed


theorem range_builds_set_witness:
  "\<exists>st xs. insert_range_unique (by_key (\<lambda>v. v)) [(8, 5), (16, 3), (24, 5 :: nat)] (new_tree 64) = Some st
    \<and> do { lm \<leftarrow> leftmost st; nodes_from 64 lm (tnodes st) } = Some xs
    \<and> ascending (\<lambda>v. v) (map (elem st) xs) \<and> set (map (elem st) xs) = {3, 5}"
  using range_builds_set [of 64 "[(8, 5), (16, 3), (24, 5 :: nat)]" "\<lambda>v. v"] by auto

subsection \<open>Maps\<close>

lemma key_compare_less: "key_compare (<) = by_key fst"
  by (auto simp: key_compare_def fun_eq_iff)

lemma map_of_ins_key:
  assumes "\<forall>e \<in> set kvs. fst e \<noteq> k"
  shows "map_of (ins_key fst (k, v) kvs) = (map_of kvs)(k \<mapsto> v)"
proof -
  define A B where "A = takeWhile (\<lambda>e. fst e < k) kvs" and "B = dropWhile (\<lambda>e. fst e < k) kvs"
  have kvs: "kvs = A @ B" by (simp add: A_def B_def)
  have "map_of A k = None" using assms by (auto simp: kvs map_of_eq_None_iff)
  moreover have "ins_key fst (k, v) kvs = A @ (k, v) # B" using assms by (auto simp: ins_key_def A_def B_def)
  ultimately show ?thesis by (auto simp: kvs map_add_def fun_eq_iff split: option.splits)
qed

lemma map_of_ascending:
  assumes "ascending fst kvs" "(k, w) \<in> set kvs"
  shows "map_of kvs k = Some w"
proof -
  have "distinct (map fst kvs)" using assms(1) by (induction kvs) force+
  then show ?thesis using assms(2) by simp
qed

text \<open>What both operations find out first: the node of the key, or the node that is the hint for a new one.\<close>

lemma map_position:
  assumes rep: "rb_rep st t kvs" and asc: "ascending fst kvs"
  obtains (absent) rt r where "get_root st = Some rt" "lower_bound (key_compare (<)) rt (ttrunk st) (k, v) st = Some r"
      "(if r = ttrunk st then Some True else compare_l (key_compare (<)) (k, v) r st) = Some True"
      "r \<in> {0, ttrunk st} \<union> set (addrs t)" "\<forall>e \<in> set kvs. fst e \<noteq> k"
    | (present) rt r w where "get_root st = Some rt" "lower_bound (key_compare (<)) rt (ttrunk st) (k, v) st = Some r"
      "(if r = ttrunk st then Some True else compare_l (key_compare (<)) (k, v) r st) = Some False"
      "r \<in> set (addrs t)" "elem st r = (k, w)" "map_of kvs k = Some w"
proof -
  obtain r where r: "do { rt \<leftarrow> get_root st; lower_bound (by_key fst) rt (ttrunk st) (k, v) st } = Some r"
    "r \<in> {ttrunk st} \<union> set (addrs t)" "r = ttrunk st \<Longrightarrow> \<forall>e \<in> set kvs. fst e < k" "r \<noteq> ttrunk st \<Longrightarrow> \<not> fst (elem st r) < k"
    "r \<noteq> ttrunk st \<Longrightarrow> k < fst (elem st r) \<Longrightarrow> \<forall>e \<in> set kvs. fst e \<noteq> k"
    using lower_bound_ok [OF rep asc, of "(k, v)"] unfolding fst_conv by blast
  obtain rt where rt: "get_root st = Some rt" "lower_bound (by_key fst) rt (ttrunk st) (k, v) st = Some r"
    using r(1) by (auto simp: bind_eq_Some_conv)
  show thesis
  proof (cases "r = ttrunk st \<or> k < fst (elem st r)")
    case True
    have "compare_l (by_key fst) (k, v) r st = Some True" if "r \<noteq> ttrunk st"
      using True that rb_rep_elems(2) [OF rep, of r] r(2) by (simp add: compare_l_def)
    moreover have "\<forall>e \<in> set kvs. fst e \<noteq> k"
    proof (cases "r = ttrunk st")
      case T: True
      then show ?thesis using r(3) by auto
    qed (use True r(5) in blast)
    ultimately show thesis using rt r(2) by (intro absent [of rt r]) (auto simp: key_compare_less)
  next
    case False
    then have m: "r \<in> set (addrs t)" "fst (elem st r) = k" using r(2,4) by auto
    then have "(k, snd (elem st r)) \<in> set kvs" using rb_rep_elems(1) [OF rep] by force
    then have "map_of kvs k = Some (snd (elem st r))" using map_of_ascending [OF asc] by blast
    moreover have "compare_l (by_key fst) (k, v) r st = Some False"
      using m rb_rep_elems(2) [OF rep, of r] by (simp add: compare_l_def)
    moreover have "elem st r = (k, snd (elem st r))" using m(2) by (metis prod.collapse)
    ultimately show thesis using rt m(1) False by (intro present [of rt r "snd (elem st r)"]) (auto simp: key_compare_less)
  qed
qed


text \<open>
  \<open>operator[]\<close> of a map: it returns a reference to an element with the key, whose value is the one the map had or the
  default value; afterwards the map has that value at the key and is unchanged elsewhere.
\<close>

theorem map_index_refers:
  assumes "rb_rep st t kvs" "ascending fst kvs" "avail st l" "Suc (length kvs) < 2 ^ 64"
  shows "\<exists>r st' t' kvs'. map_index (<) d l k st = Some (r, st') \<and> rb_rep st' t' kvs' \<and> ascending fst kvs'
    \<and> r \<in> set (addrs t') \<and> elem st' r = (k, case map_of kvs k of None \<Rightarrow> d | Some w \<Rightarrow> w)
    \<and> map_of kvs' = (map_of kvs)(k \<mapsto> (case map_of kvs k of None \<Rightarrow> d | Some w \<Rightarrow> w))"
  using assms(1,2)
proof (cases rule: map_position [of st t kvs k d])
  case (absent rt r)
  obtain r' b st' where ins: "hint_insert_unique (by_key fst) l r (k, d) st = Some (r', st')" "unique_result fst (k, d) kvs l st (r', b) st'"
    using hint_insert_unique_ok [OF assms absent(4)] by blast
  then obtain t' where t': "rb_rep st' t' (ins_key fst (k, d) kvs)" "r' \<in> set (addrs t')" "fst (elem st' r') = k"
    by (auto simp: unique_result_def)
  have asc': "ascending fst (ins_key fst (k, d) kvs)" using ins_key_ascending [OF assms(2)] .
  have m: "map_of (ins_key fst (k, d) kvs) = (map_of kvs)(k \<mapsto> d)" using map_of_ins_key [OF absent(5)] .
  have "(k, snd (elem st' r')) \<in> set (ins_key fst (k, d) kvs)" using t' rb_rep_elems(1) [OF t'(1)] by (metis image_eqI list.set_map prod.collapse)
  then have "elem st' r' = (k, d)" using map_of_ascending [OF asc', of k "snd (elem st' r')"] m t'(3) by (metis fun_upd_same option.inject prod.collapse)
  moreover have "map_of kvs k = None" using absent(5) by (auto simp: map_of_eq_None_iff)
  moreover have "map_index (<) d l k st = Some (r', st')" using absent(1-3) ins(1) by (simp add: map_index_def key_compare_less)
  ultimately show ?thesis using t' asc' m by (intro exI [of _ r'] exI [of _ st'] exI [of _ t'] exI [of _ "ins_key fst (k, d) kvs"]) simp
next
  case (present rt r w)
  have "map_index (<) d l k st = Some (r, st)" using present(1-3) by (simp add: map_index_def)
  then show ?thesis using assms(1,2) present(4-6)
    by (intro exI [of _ r] exI [of _ st] exI [of _ t] exI [of _ kvs]) (simp add: fun_upd_idem)
qed

theorem map_index_refers_witness:
  "\<exists>r st' t' kvs'. map_index (<) (7 :: nat) 8 (5 :: nat) (new_tree 64) = Some (r, st') \<and> rb_rep st' t' kvs' \<and> ascending fst kvs'
    \<and> r \<in> set (addrs t') \<and> elem st' r = (5, 7) \<and> map_of kvs' = [5 \<mapsto> 7]"
  using map_index_refers [of "new_tree 64" Leaf "[]" 8 7 5] new_tree_rep [of 64] by (simp add: new_tree_avail)

text \<open>
  C37. \<open>insert_or_assign\<close> of a map: afterwards the map has the value at the key and is unchanged elsewhere, and the flag
  returned tells whether the key is new.
\<close>

theorem insert_or_assign_updates:
  assumes "rb_rep st t kvs" "ascending fst kvs" "avail st l" "Suc (length kvs) < 2 ^ 64"
  shows "\<exists>r st' t' kvs'. insert_or_assign (<) l k v st = Some ((r, map_of kvs k = None), st') \<and> rb_rep st' t' kvs' \<and> ascending fst kvs'
    \<and> map_of kvs' = (map_of kvs)(k \<mapsto> v)"
  using assms(1,2)
proof (cases rule: map_position [of st t kvs k v])
  case (absent rt r)
  obtain r' b st' where ins: "hint_insert_unique (by_key fst) l r (k, v) st = Some (r', st')" "unique_result fst (k, v) kvs l st (r', b) st'"
    using hint_insert_unique_ok [OF assms absent(4)] by blast
  then obtain t' where t': "rb_rep st' t' (ins_key fst (k, v) kvs)" by (auto simp: unique_result_def)
  moreover have "map_of kvs k = None" using absent(5) by (auto simp: map_of_eq_None_iff)
  moreover have "insert_or_assign (<) l k v st = Some ((r', True), st')" using absent(1-3) ins(1) by (simp add: insert_or_assign_def key_compare_less)
  ultimately show ?thesis using ins_key_ascending [OF assms(2)] map_of_ins_key [OF absent(5)]
    by (intro exI [of _ r'] exI [of _ st'] exI [of _ t'] exI [of _ "ins_key fst (k, v) kvs"]) simp
next
  case (present rt r w)
  define st' where "st' = st\<lparr>tdata := (tdata st)(r := map_option (\<lambda>(k', _). (k', v)) (tdata st r))\<rparr>"
  obtain xs ys where xy: "addrs t = xs @ r # ys" using present(4) by (meson split_list)
  have d: "r \<notin> set xs" "r \<notin> set ys" using assms(1) xy by (auto simp: rb_rep_def tree_rep_def focus_def)
  have el: "tdata st a = Some (elem st a)" if "a \<in> set (addrs t)" for a using rb_rep_elems(2) [OF assms(1) that] .
  define us ws where "us = map (elem st) xs" and "ws = map (elem st) ys"
  have kvs: "kvs = us @ (k, w) # ws" using rb_rep_elems(1) [OF assms(1)] xy present(5) by (simp add: us_def ws_def)
  have "map (tdata st') (addrs t) = map Some (us @ (k, v) # ws)"
    using el [unfolded xy] d present(5) by (auto simp: st'_def xy us_def ws_def)
  then have "rb_rep st' t (us @ (k, v) # ws)" using assms(1) kvs by (auto simp: rb_rep_def st'_def)
  moreover have "insert_or_assign (<) l k v st = Some ((r, False), st')" using present(1-3) by (simp add: insert_or_assign_def st'_def)
  moreover have "ascending fst (us @ (k, v) # ws)" using assms(2) by (auto simp: kvs sorted_wrt_append)
  moreover have "map_of us k = None" using assms(2) by (auto simp: kvs sorted_wrt_append map_of_eq_None_iff)
  then have "map_of (us @ (k, v) # ws) = (map_of kvs)(k \<mapsto> v)" by (auto simp: kvs map_add_def fun_eq_iff split: option.splits)
  ultimately show ?thesis using present(6)
    by (intro exI [of _ r] exI [of _ st'] exI [of _ t] exI [of _ "us @ (k, v) # ws"]) simp
qed

theorem insert_or_assign_updates_witness:
  "\<exists>r st' t' kvs'. insert_or_assign (<) 8 (5 :: nat) (7 :: nat) (new_tree 64) = Some ((r, True), st') \<and> rb_rep st' t' kvs'
    \<and> ascending fst kvs' \<and> map_of kvs' = [5 \<mapsto> 7]"
  using insert_or_assign_updates [of "new_tree 64" Leaf "[]" 8 5 7] new_tree_rep [of 64] by (simp add: new_tree_avail)

subsection \<open>Destruction\<close>

definition freed :: "addr set \<Rightarrow> 'a rb_tree \<Rightarrow> 'a rb_tree" where
  "freed A st = st\<lparr>tnodes := (tnodes st) |` (- A), tdata := (tdata st) |` (- A)\<rparr>"

lemma freed_freed: "freed A (freed B st) = freed (A \<union> B) st"
  by (simp add: freed_def Int_commute)

lemma freed_nodes: "a \<notin> A \<Longrightarrow> tnodes (freed A st) a = tnodes st a"
  by (simp add: freed_def restrict_map_def)

lemma destroy_freed: "tnodes st n = Some k \<Longrightarrow> n \<noteq> 0 \<Longrightarrow> destroy_node n st = Some (freed {n} st)"
  by (auto simp: destroy_node_def freed_def restrict_map_def fun_eq_iff)

lemma recursive_destroy_frees:
  assumes "tree_at (tnodes st) par t" "distinct (addrs t)"
  shows "recursive_destroy (ptr t) st = Some (freed (set (addrs t)) st)"
  using assms
proof (induction t arbitrary: st par)
  case Leaf
  then show ?case by (subst recursive_destroy.simps) (simp add: freed_def restrict_map_def)
next
  case (Node l a r)
  define k where "k = \<lparr>my_color = snd a, my_parent = par, my_left = ptr l, my_right = ptr r\<rparr>"
  have n: "tnodes st (fst a) = Some k" "fst a \<noteq> 0" using Node.prems(1) by (simp_all add: k_def)
  define s1 s2 where "s1 = freed (set (addrs r)) st" and "s2 = freed {fst a} s1"
  have r: "recursive_destroy (ptr r) st = Some s1" using Node.IH(2) [of st "fst a"] Node.prems by (simp add: s1_def)
  have n1: "tnodes s1 (fst a) = Some k" using n Node.prems(2) by (simp add: s1_def freed_nodes)
  have "tnodes s2 b = tnodes st b" if "b \<in> set (addrs l)" for b using that Node.prems(2) by (auto simp: s1_def s2_def freed_def restrict_map_def)
  then have "tree_at (tnodes s2) (fst a) l" using Node.prems(1) tree_at_cong [of l "tnodes s2" "tnodes st"] by simp
  then have l: "recursive_destroy (ptr l) s2 = Some (freed (set (addrs l)) s2)" using Node.IH(1) [of s2 "fst a"] Node.prems(2) by simp
  have "freed (set (addrs l)) s2 = freed (set (addrs (Node l a r))) st"
    by (simp add: s2_def s1_def freed_freed Un_commute insert_commute)
  then show ?case using n n1 r l destroy_freed [OF n1 n(2)]
    by (subst recursive_destroy.simps) (simp add: k_def s2_def)
qed

lemma clear_ok:
  assumes "rb_rep st t vs"
  shows "clear st = Some (reset_trunk (freed (set (addrs t)) st))" "rb_rep (reset_trunk (freed (set (addrs t)) st)) Leaf []"
proof -
  have p: "get_root st = Some (ptr t)" "tree_at (tnodes st) (ttrunk st) t" "ttrunk st \<noteq> 0" by (rule rb_rep_parts [OF assms]; assumption)+
  have d: "distinct (addrs t)" "tnodes st 0 = None" using assms by (auto simp: rb_rep_def tree_rep_def focus_def)
  show "clear st = Some (reset_trunk (freed (set (addrs t)) st))" using p recursive_destroy_frees [OF p(2) d(1)] by (simp add: clear_def)
  show "rb_rep (reset_trunk (freed (set (addrs t)) st)) Leaf []"
    using p d by (auto simp: rb_rep_def reset_trunk_def tree_rep_def focus_def rbt_def ends_def freed_def restrict_map_def)
qed

text \<open>
  C38. Clearing a tree frees each of its nodes exactly once and nothing else, and leaves an empty tree: no node is freed
  twice or used after it is freed, and the recursion ends.
\<close>

theorem clear_frees_nodes:
  assumes "rb_rep st t vs"
  shows "\<exists>st'. clear st = Some st' \<and> rb_rep st' Leaf []
    \<and> (\<forall>a. a \<noteq> ttrunk st \<longrightarrow> tnodes st' a = (if a \<in> set (addrs t) then None else tnodes st a))"
  using clear_ok [OF assms] by (auto simp: reset_trunk_def freed_def restrict_map_def)

definition two_nodes :: "nat rb_tree" where
  "two_nodes = \<lparr>tnodes = [64 \<mapsto> \<lparr>my_color = RED, my_parent = 8, my_left = 16, my_right = 8\<rparr>,
                       8 \<mapsto> \<lparr>my_color = BLACK, my_parent = 64, my_left = 16, my_right = 0\<rparr>,
                       16 \<mapsto> \<lparr>my_color = RED, my_parent = 8, my_left = 0, my_right = 0\<rparr>],
              tdata = [8 \<mapsto> 5, 16 \<mapsto> 3], ttrunk = 64, tcount = 2\<rparr>"

lemma two_nodes_rep: "rb_rep two_nodes (Node (Node Leaf (16, RED) Leaf) (8, BLACK) Leaf) [3, 5]"
  by (simp add: two_nodes_def rb_rep_def tree_rep_def focus_def rbt_def ends_def addrs_def)

theorem clear_frees_nodes_witness:
  "\<exists>st'. clear two_nodes = Some st' \<and> rb_rep st' Leaf [] \<and> tnodes st' 8 = None \<and> tnodes st' 16 = None"
proof -
  obtain st' where st': "clear two_nodes = Some st'" "rb_rep st' Leaf []"
      "\<forall>a. a \<noteq> ttrunk two_nodes \<longrightarrow>
         tnodes st' a = (if a \<in> set (addrs (Node (Node Leaf (16, RED) Leaf) (8, BLACK) Leaf)) then None else tnodes two_nodes a)"
    using clear_frees_nodes [OF two_nodes_rep] by blast
  have "tnodes st' 8 = None" "tnodes st' 16 = None"
    using st'(3) [rule_format, of 8] st'(3) [rule_format, of 16] by (simp_all add: two_nodes_def)
  then show ?thesis using st'(1,2) by blast
qed

subsection \<open>Copying\<close>

lemma fold_ins_key_ascending: "ascending key (vs @ us) \<Longrightarrow> fold (ins_key key) us vs = vs @ us"
proof (induction us arbitrary: vs)
  case (Cons u us)
  then have "ins_key key u (vs @ []) = vs @ u # []" by (intro ins_key_split) (auto simp: sorted_wrt_append)
  then show ?case using Cons.IH [of "vs @ [u]"] Cons.prems by simp
qed simp

lemma those_map_Some: "those (map Some vs) = Some vs"
  by (induction vs) simp_all



subsection \<open>Removal\<close>

text \<open>
  Erasing the only element writes the color of the root through a null pointer: the root has been replaced by the null
  child of the node removed.
\<close>

lemma erase_only_element_faults:
  assumes "rb_rep st t [v]"
  shows "erase_node (ptr t) st = None"
proof -
  have "length (addrs t) = 1" using rb_rep_elems(3) [OF assms] by simp
  then obtain a c where t: "t = Node Leaf (a, c) Leaf" by (cases t) (auto simp: addrs_def)
  have r: "tree_rep (tnodes st) (ttrunk st) t" using assms by (simp add: rb_rep_def)
  have h: "tnodes st 0 = None" "a \<noteq> 0" "ttrunk st \<noteq> a"
    "tnodes st a = Some \<lparr>my_color = c, my_parent = ttrunk st, my_left = 0, my_right = 0\<rparr>"
    using r by (auto simp: tree_rep_def focus_def t)
  have "ttrunk st \<noteq> 0" using r focus_nonnull by (auto simp: tree_rep_def)
  moreover obtain nt where "tnodes st (ttrunk st) = Some nt" "my_parent nt = a" "my_left nt = a" "my_right nt = a"
    using r by (auto simp: tree_rep_def focus_def ends_def t)
  ultimately have "rebalance_for_erase a (ttrunk st) (tnodes st) = None"
    using h by (auto simp: rebalance_for_erase_def modify_def set_parent_def set_next_def erase_loop.simps [of _ 0] node_max.simps [of a] Let_def)
  then show ?thesis by (simp add: erase_node_def t)
qed


text \<open>
  Removing a node with two subtrees: the variable \<open>y\<close> is never moved to the successor, so the node is replaced by the
  successor's right child and both subtrees leave the tree.  Here 2 is removed from \<open>{1, 2, 3, 4, 5}\<close>, and 1 and 3 go with it.
\<close>

declare node_min.simps [code] node_max.simps [code] climb.simps [code] insert_loop.simps [code] erase_loop.simps [code]
declare lower_bound.simps [code] descend_equal.simps [code]

definition five_nodes :: "nat rb_tree" where
  "five_nodes = \<lparr>tnodes = [64 \<mapsto> \<lparr>my_color = RED, my_parent = 32, my_left = 8, my_right = 40\<rparr>,
                        32 \<mapsto> \<lparr>my_color = BLACK, my_parent = 64, my_left = 16, my_right = 40\<rparr>,
                        16 \<mapsto> \<lparr>my_color = RED, my_parent = 32, my_left = 8, my_right = 24\<rparr>,
                        8 \<mapsto> \<lparr>my_color = BLACK, my_parent = 16, my_left = 0, my_right = 0\<rparr>,
                        24 \<mapsto> \<lparr>my_color = BLACK, my_parent = 16, my_left = 0, my_right = 0\<rparr>,
                        40 \<mapsto> \<lparr>my_color = BLACK, my_parent = 32, my_left = 0, my_right = 0\<rparr>],
               tdata = [8 \<mapsto> 1, 16 \<mapsto> 2, 24 \<mapsto> 3, 32 \<mapsto> 4, 40 \<mapsto> 5], ttrunk = 64, tcount = 5\<rparr>"

lemma erase_inner_loses_subtrees:
  "rb_rep five_nodes (Node (Node (Node Leaf (8, BLACK) Leaf) (16, RED) (Node Leaf (24, BLACK) Leaf)) (32, BLACK) (Node Leaf (40, BLACK) Leaf))
     [1, 2, 3, 4, 5]"
  "map_option (\<lambda>(n, st). (n, tcount st, contains (<) 1 st, contains (<) 3 st, contains (<) 4 st)) (erase_key (<) 2 five_nodes)
     = Some (1, 4, Some False, Some False, Some True)"
   apply (simp add: five_nodes_def rb_rep_def tree_rep_def focus_def rbt_def ends_def addrs_def)
  apply code_simp
  done

text \<open>
  Inserting an element equal to one that has a right subtree: the search goes left past the equal node, the insertion
  compares again and links the new node to the right, over the subtree that is there.
\<close>

definition right_heavy :: "nat rb_tree" where
  "right_heavy = \<lparr>tnodes = [64 \<mapsto> \<lparr>my_color = RED, my_parent = 8, my_left = 8, my_right = 16\<rparr>,
                         8 \<mapsto> \<lparr>my_color = BLACK, my_parent = 64, my_left = 0, my_right = 16\<rparr>,
                         16 \<mapsto> \<lparr>my_color = RED, my_parent = 8, my_left = 0, my_right = 0\<rparr>],
                tdata = [8 \<mapsto> 3, 16 \<mapsto> 5], ttrunk = 64, tcount = 2\<rparr>"

lemma insert_equal_loses_subtree:
  "rb_rep right_heavy (Node Leaf (8, BLACK) (Node Leaf (16, RED) Leaf)) [3, 5]"
  "map_option (\<lambda>(_, st). (tcount st, contains (<) 5 st)) (insert_equal (<) 24 3 right_heavy) = Some (3, Some False)"
   apply (simp add: right_heavy_def rb_rep_def tree_rep_def focus_def rbt_def ends_def addrs_def)
  apply code_simp
  done

end
