(* ===== verification/Qsort.thy ===== *)
theory Qsort
  imports OoOS_Prelude "HOL-Library.Monad_Syntax" "HOL-Library.Multiset"
begin

text \<open>
  The sorting routine of the boot loader's C library, \<open>boot/uefi/qsort.c\<close>: the quicksort of Bentley and McIlroy with a
  partition into three parts and insertion sort for short arrays.  Memory is a function from addresses to bytes,
  pointers are byte addresses, and the variables of type \<open>int\<close> are reduced to 32 bits.  The comparison function is a
  parameter that reads the bytes of two elements.  The loops and the recursion of the code need not end, for instance when
  the size of an element is 0; an operation that does not return is \<open>None\<close>.
\<close>

type_synonym bytes = "nat \<Rightarrow> u8"

type_synonym compar_fn = "u8 list \<Rightarrow> u8 list \<Rightarrow> int"

definition c_int :: "int \<Rightarrow> int" where
  "c_int x = (x + 2147483648) mod 4294967296 - 2147483648"

definition read_bytes :: "nat \<Rightarrow> nat \<Rightarrow> bytes \<Rightarrow> u8 list" where
  "read_bytes p n m = map m [p ..< p + n]"

definition write_bytes :: "nat \<Rightarrow> u8 list \<Rightarrow> bytes \<Rightarrow> bytes" where
  "write_bytes p bs m = (\<lambda>x. if p \<le> x \<and> x < p + length bs then bs ! (x - p) else m x)"

subsection \<open>Exchanging memory\<close>

text \<open>\<open>swapcode(TYPE, parmi, parmj, n)\<close> with \<open>w\<close> the size of the type and \<open>i\<close> the quotient it starts from.\<close>

fun swapcode :: "nat \<Rightarrow> nat \<Rightarrow> nat \<Rightarrow> nat \<Rightarrow> bytes \<Rightarrow> bytes" where
  "swapcode w i pi pj m =
     (let t = read_bytes pi w m;
          m1 = write_bytes pi (read_bytes pj w m) m;
          m2 = write_bytes pj t m1
      in if i - 1 > 0 then swapcode w (i - 1) (pi + w) (pj + w) m2 else m2)"

declare swapcode.simps [simp del]

definition swapinit :: "nat \<Rightarrow> nat \<Rightarrow> nat" where
  "swapinit a es = (if a mod 8 \<noteq> 0 \<or> es mod 8 \<noteq> 0 then 2 else if es = 8 then 0 else 1)"

definition swapfunc :: "nat \<Rightarrow> nat \<Rightarrow> nat \<Rightarrow> nat \<Rightarrow> bytes \<Rightarrow> bytes" where
  "swapfunc a b n swaptype m = (if swaptype \<le> 1 then swapcode 8 (n div 8) a b m else swapcode 1 n a b m)"

definition swap_elems :: "nat \<Rightarrow> nat \<Rightarrow> nat \<Rightarrow> nat \<Rightarrow> bytes \<Rightarrow> bytes" where
  "swap_elems swaptype es a b m =
     (if swaptype = 0
      then let t = read_bytes a 8 m in write_bytes b t (write_bytes a (read_bytes b 8 m) m)
      else swapfunc a b es swaptype m)"

definition vecswap :: "nat \<Rightarrow> nat \<Rightarrow> nat \<Rightarrow> int \<Rightarrow> bytes \<Rightarrow> bytes" where
  "vecswap swaptype a b n m = (if n > 0 then swapfunc a b (nat n) swaptype m else m)"

subsection \<open>The sorting routine\<close>

definition med3 :: "compar_fn \<Rightarrow> nat \<Rightarrow> nat \<Rightarrow> nat \<Rightarrow> nat \<Rightarrow> bytes \<Rightarrow> nat" where
  "med3 cmp es a b c m =
     (let cm = (\<lambda>x y. cmp (read_bytes x es m) (read_bytes y es m))
      in if cm a b < 0
         then (if cm b c < 0 then b else if cm a c < 0 then c else a)
         else (if cm b c > 0 then b else if cm a c < 0 then a else c))"

partial_function (option) insert_down :: "compar_fn \<Rightarrow> nat \<Rightarrow> nat \<Rightarrow> nat \<Rightarrow> nat \<Rightarrow> bytes \<Rightarrow> bytes option" where
  "insert_down cmp swaptype es a pl m =
     (if pl > a \<and> cmp (read_bytes (pl - es) es m) (read_bytes pl es m) > 0
      then insert_down cmp swaptype es a (pl - es) (swap_elems swaptype es pl (pl - es) m)
      else Some m)"

partial_function (option) insertion_sort :: "compar_fn \<Rightarrow> nat \<Rightarrow> nat \<Rightarrow> nat \<Rightarrow> nat \<Rightarrow> nat \<Rightarrow> bytes \<Rightarrow> bytes option" where
  "insertion_sort cmp swaptype es a n pm m =
     (if pm < a + n * es
      then do { m' \<leftarrow> insert_down cmp swaptype es a pm m; insertion_sort cmp swaptype es a n (pm + es) m' }
      else Some m)"

partial_function (option) scan_up :: "compar_fn \<Rightarrow> nat \<Rightarrow> nat \<Rightarrow> nat \<Rightarrow> nat \<Rightarrow> nat \<Rightarrow> nat \<Rightarrow> bool \<Rightarrow> bytes
    \<Rightarrow> (nat \<times> nat \<times> bool \<times> bytes) option" where
  "scan_up cmp swaptype es a pa pb pc swap_cnt m =
     (let r = cmp (read_bytes pb es m) (read_bytes a es m)
      in if pb \<le> pc \<and> r \<le> 0
         then (if r = 0 then scan_up cmp swaptype es a (pa + es) (pb + es) pc True (swap_elems swaptype es pa pb m)
               else scan_up cmp swaptype es a pa (pb + es) pc swap_cnt m)
         else Some (pa, pb, swap_cnt, m))"

partial_function (option) scan_down :: "compar_fn \<Rightarrow> nat \<Rightarrow> nat \<Rightarrow> nat \<Rightarrow> nat \<Rightarrow> nat \<Rightarrow> nat \<Rightarrow> bool \<Rightarrow> bytes
    \<Rightarrow> (nat \<times> nat \<times> bool \<times> bytes) option" where
  "scan_down cmp swaptype es a pb pc pd swap_cnt m =
     (let r = cmp (read_bytes pc es m) (read_bytes a es m)
      in if pb \<le> pc \<and> r \<ge> 0
         then (if r = 0 then scan_down cmp swaptype es a pb (pc - es) (pd - es) True (swap_elems swaptype es pc pd m)
               else scan_down cmp swaptype es a pb (pc - es) pd swap_cnt m)
         else Some (pc, pd, swap_cnt, m))"

partial_function (option) partition_loop :: "compar_fn \<Rightarrow> nat \<Rightarrow> nat \<Rightarrow> nat \<Rightarrow> nat \<Rightarrow> nat \<Rightarrow> nat \<Rightarrow> nat \<Rightarrow> bool \<Rightarrow> bytes
    \<Rightarrow> (nat \<times> nat \<times> nat \<times> nat \<times> bool \<times> bytes) option" where
  "partition_loop cmp swaptype es a pa pb pc pd swap_cnt m = do {
     (pa, pb, swap_cnt, m) \<leftarrow> scan_up cmp swaptype es a pa pb pc swap_cnt m;
     (pc, pd, swap_cnt, m) \<leftarrow> scan_down cmp swaptype es a pb pc pd swap_cnt m;
     if pb > pc then Some (pa, pb, pc, pd, swap_cnt, m)
     else partition_loop cmp swaptype es a pa (pb + es) (pc - es) pd True (swap_elems swaptype es pb pc m) }"

definition pivot_pos :: "compar_fn \<Rightarrow> nat \<Rightarrow> nat \<Rightarrow> nat \<Rightarrow> bytes \<Rightarrow> nat" where
  "pivot_pos cmp es a n m =
     (let pm = a + (n div 2) * es
      in if n > 7
         then let pl = a; pn = a + (n - 1) * es;
                  d = c_int (int ((n div 8) * es));
                  at = (\<lambda>p k. nat (int p + k * d));
                  (pl, pm, pn) = (if n > 40
                    then (med3 cmp es pl (at pl 1) (at pl 2) m, med3 cmp es (at pm (- 1)) pm (at pm 1) m, med3 cmp es (at pn (- 2)) (at pn (- 1)) pn m)
                    else (pl, pm, pn))
              in med3 cmp es pl pm pn m
         else pm)"

partial_function (option) qsort :: "compar_fn \<Rightarrow> nat \<Rightarrow> nat \<Rightarrow> nat \<Rightarrow> bytes \<Rightarrow> bytes option" where
  "qsort cmp es a n m =
     (let swaptype = swapinit a es
      in if n < 7 then insertion_sort cmp swaptype es a n (a + es) m
         else do {
           (pa, pb, pc, pd, swap_cnt, m) \<leftarrow>
             partition_loop cmp swaptype es a (a + es) (a + es) (a + (n - 1) * es) (a + (n - 1) * es) False
               (swap_elems swaptype es a (pivot_pos cmp es a n m) m);
           if \<not> swap_cnt then insertion_sort cmp swaptype es a n (a + es) m
           else do {
             let pn = a + n * es;
             let r = c_int (min (int pa - int a) (int pb - int pa));
             let m = vecswap swaptype a (nat (int pb - r)) r m;
             let r = c_int (min (int pd - int pc) (int pn - int pd - c_int (int es)));
             let m = vecswap swaptype pb (nat (int pn - r)) r m;
             let r = c_int (int pb - int pa);
             m \<leftarrow> (if r > c_int (int es) then qsort cmp es a (nat r div es) m else Some m);
             let r = c_int (int pd - int pc);
             if r > c_int (int es) then qsort cmp es (nat (int pn - r)) (nat r div es) m else Some m } })"

subsection \<open>What exchanging does to the elements\<close>

lemma c_int_id: "- 2147483648 \<le> x \<Longrightarrow> x < 2147483648 \<Longrightarrow> c_int x = x"
  by (simp add: c_int_def)

text \<open>The exchange of two blocks of \<open>n\<close> bytes at once.\<close>

definition block_swap :: "nat \<Rightarrow> nat \<Rightarrow> nat \<Rightarrow> bytes \<Rightarrow> bytes" where
  "block_swap p q n m =
     (\<lambda>x. if p \<le> x \<and> x < p + n then m (q + (x - p)) else if q \<le> x \<and> x < q + n then m (p + (x - q)) else m x)"

definition apart :: "nat \<Rightarrow> nat \<Rightarrow> nat \<Rightarrow> bool" where
  "apart p q n \<longleftrightarrow> p = q \<or> p + n \<le> q \<or> q + n \<le> p"

lemma read_bytes_nth [simp]: "i < n \<Longrightarrow> read_bytes p n m ! i = m (p + i)"
  by (simp add: read_bytes_def)

lemma read_bytes_length [simp]: "length (read_bytes p n m) = n"
  by (simp add: read_bytes_def)

lemma write_read:
  assumes "apart p q n"
  shows "write_bytes q (read_bytes p n m) (write_bytes p (read_bytes q n m) m) = block_swap p q n m"
proof
  fix x
  consider "p \<le> x" "x < p + n" "q = p" | "p \<le> x" "x < p + n" "\<not> (q \<le> x \<and> x < q + n)" | "\<not> (p \<le> x \<and> x < p + n)"
    using assms by (fastforce simp: apart_def)
  then show "write_bytes q (read_bytes p n m) (write_bytes p (read_bytes q n m) m) x = block_swap p q n m x"
    by cases (auto simp: write_bytes_def block_swap_def)
qed

lemma block_swap_sym: "apart p q n \<Longrightarrow> block_swap p q n m = block_swap q p n m"
  by (rule ext) (auto simp: block_swap_def apart_def)

lemma block_swap_same [simp]: "block_swap p p n m = m"
  by (rule ext) (auto simp: block_swap_def)

lemma block_swap_at:
  "t < n \<Longrightarrow> block_swap p q n m (p + t) = m (q + t)"
  "p + n \<le> q \<Longrightarrow> t < n \<Longrightarrow> block_swap p q n m (q + t) = m (p + t)"
  "\<not> (p \<le> x \<and> x < p + n) \<Longrightarrow> \<not> (q \<le> x \<and> x < q + n) \<Longrightarrow> block_swap p q n m x = m x"
  by (auto simp: block_swap_def)

lemma block_swap_append_below:
  assumes "p + (k + n) \<le> q"
  shows "block_swap (p + k) (q + k) n (block_swap p q k m) = block_swap p q (k + n) m"
proof
  fix x
  consider t where "x = p + t" "t < k" | t where "x = p + k + t" "t < n" | t where "x = q + t" "t < k" | t where "x = q + k + t" "t < n"
    | "\<not> (p \<le> x \<and> x < p + (k + n))" "\<not> (q \<le> x \<and> x < q + (k + n))"
  proof -
    have "x = p + (x - p) \<or> x = q + (x - q) \<or> x < p" "x < p + k \<or> x = p + k + (x - p - k)" "x < q + k \<or> x = q + k + (x - q - k)" by linarith+
    then show ?thesis using that(1) [of "x - p"] that(2) [of "x - p - k"] that(3) [of "x - q"] that(4) [of "x - q - k"] that(5) by linarith
  qed
  then show "block_swap (p + k) (q + k) n (block_swap p q k m) x = block_swap p q (k + n) m x"
  proof cases
    case (1 t)
    then show ?thesis using assms block_swap_at(1) [of t "k + n" p q m] block_swap_at(1) [of t k p q m]
      by (subst block_swap_at(3)) auto
  next
    case (2 t)
    then show ?thesis using assms block_swap_at(1) [of "k + t" "k + n" p q m] block_swap_at(1) [of t n "p + k" "q + k"]
      by (simp add: add.assoc) (subst block_swap_at(3), auto)
  next
    case (3 t)
    then show ?thesis using assms block_swap_at(2) [of p "k + n" q t m] block_swap_at(2) [of p k q t m]
      by (subst block_swap_at(3)) auto
  next
    case (4 t)
    then show ?thesis using assms block_swap_at(2) [of p "k + n" q "k + t" m] block_swap_at(2) [of "p + k" n "q + k" t]
      by (simp add: add.assoc) (subst block_swap_at(3), auto)
  next
    case 5
    then show ?thesis using block_swap_at(3) [of "p + k" x n "q + k" "block_swap p q k m"] block_swap_at(3) [of p x k q m]
        block_swap_at(3) [of p x "k + n" q m] by auto
  qed
qed

lemma block_swap_append:
  assumes "apart p q (k + n)"
  shows "block_swap (p + k) (q + k) n (block_swap p q k m) = block_swap p q (k + n) m"
proof -
  consider "p = q" | "p + (k + n) \<le> q" | "q + (k + n) \<le> p" using assms by (auto simp: apart_def)
  then show ?thesis
  proof cases
    case 2
    then show ?thesis by (rule block_swap_append_below)
  next
    case 3
    have "apart p q (k + n)" "apart p q k" "apart (p + k) (q + k) n" using 3 by (auto simp: apart_def)
    then show ?thesis 
      using block_swap_append_below [OF 3, of m] block_swap_sym [of p q "k + n" m] block_swap_sym [of p q k m]
        block_swap_sym [of "p + k" "q + k" n "block_swap p q k m"] by simp
  qed simp
qed

lemma swapcode_blocks: "apart p q (w * i) \<Longrightarrow> i > 0 \<Longrightarrow> swapcode w i p q m = block_swap p q (w * i) m"
proof (induction w i p q m rule: swapcode.induct)
  case (1 w i p q m)
  obtain k where i: "i = Suc k" using "1.prems"(2) by (cases i) auto
  have ap: "apart p q w" "apart (p + w) (q + w) (w * k)" using "1.prems"(1) by (auto simp: apart_def i)
  have one: "write_bytes q (read_bytes p w m) (write_bytes p (read_bytes q w m) m) = block_swap p q w m" using write_read [OF ap(1)] .
  show ?case
  proof (cases k)
    case 0
    then show ?thesis using i one by (subst swapcode.simps) (simp add: Let_def)
  next
    case (Suc k')
    then have "swapcode w k (p + w) (q + w) (block_swap p q w m) = block_swap (p + w) (q + w) (w * k) (block_swap p q w m)"
      using "1.IH" [OF refl refl refl] i one ap(2) by simp
    also have "\<dots> = block_swap p q (w + w * k) m" using "1.prems"(1) i by (intro block_swap_append) simp
    finally show ?thesis using i Suc one by (subst swapcode.simps) (simp add: Let_def)
  qed
qed

definition swap_ok :: "nat \<Rightarrow> nat \<Rightarrow> bool" where
  "swap_ok st es \<longleftrightarrow> es > 0 \<and> (st \<le> 1 \<longrightarrow> es mod 8 = 0) \<and> (st = 0 \<longrightarrow> es = 8)"

lemma swapinit_ok: "es > 0 \<Longrightarrow> swap_ok (swapinit a es) es"
  by (auto simp: swap_ok_def swapinit_def)

lemma swapfunc_blocks:
  assumes "swap_ok st es" "k > 0" "apart p q (es * k)"
  shows "swapfunc p q (es * k) st m = block_swap p q (es * k) m"
proof (cases "st \<le> 1")
  case True
  then obtain e where e: "es = 8 * e" using assms(1) by (auto simp: swap_ok_def elim: dvdE)
  then have "e * k > 0" using assms(1,2) by (auto simp: swap_ok_def)
  then show ?thesis using True e swapcode_blocks [of p q 8 "e * k" m] assms(3) by (simp add: swapfunc_def mult.assoc)
next
  case False
  then show ?thesis using swapcode_blocks [of p q 1 "es * k" m] assms by (simp add: swapfunc_def swap_ok_def)
qed

lemma swap_elems_blocks:
  assumes "swap_ok st es" "apart p q es"
  shows "swap_elems st es p q m = block_swap p q es m"
proof (cases "st = 0")
  case True
  then show ?thesis using write_read [of p q es m] assms by (simp add: swap_elems_def Let_def swap_ok_def)
qed (use swapfunc_blocks [of st es 1 p q m] assms in \<open>simp add: swap_elems_def\<close>)

text \<open>Elements: number \<open>i\<close> of the array at \<open>a\<close>.\<close>

definition elt :: "nat \<Rightarrow> nat \<Rightarrow> bytes \<Rightarrow> nat \<Rightarrow> u8 list" where
  "elt es a m i = read_bytes (a + es * i) es m"

lemma elt_shift: "elt es (a + es * k) m i = elt es a m (k + i)"
  by (simp add: elt_def algebra_simps)

lemma elt_length [simp]: "length (elt es a m i) = es"
  by (simp add: elt_def read_bytes_def)

lemma cell_order:
  fixes es :: nat
  assumes "t < es"
  shows "es * i \<le> es * l + t \<longleftrightarrow> i \<le> l" "es * l + t < es * i \<longleftrightarrow> l < i"
proof -
  have "es * i \<le> es * l + t \<Longrightarrow> i \<le> l"
  proof (rule ccontr)
    assume "es * i \<le> es * l + t" "\<not> i \<le> l"
    then have "es * Suc l \<le> es * i" by (intro mult_le_mono2) simp
    then show False using assms \<open>es * i \<le> es * l + t\<close> by simp
  qed
  moreover have "i \<le> l \<Longrightarrow> es * i \<le> es * l + t" by (simp add: trans_le_add1)
  ultimately show a: "es * i \<le> es * l + t \<longleftrightarrow> i \<le> l" by blast
  then show "es * l + t < es * i \<longleftrightarrow> l < i" by (meson not_le)
qed

definition exchange :: "nat \<Rightarrow> nat \<Rightarrow> nat \<Rightarrow> nat \<Rightarrow> nat" where
  "exchange i j k l = (if i \<le> l \<and> l < i + k then j + (l - i) else if j \<le> l \<and> l < j + k then i + (l - j) else l)"

lemma elt_block_swap: "elt es a (block_swap (a + es * i) (a + es * j) (es * k) m) l = elt es a m (exchange i j k l)"
proof (rule nth_equalityI)
  fix t assume "t < length (elt es a (block_swap (a + es * i) (a + es * j) (es * k) m) l)"
  then have t: "t < es" by simp
  have c: "a + es * i \<le> a + es * l + t \<longleftrightarrow> i \<le> l" "a + es * l + t < a + es * i + es * k \<longleftrightarrow> l < i + k" for i k
    using cell_order [OF t, of i l] cell_order [OF t, of l "i + k"] by (simp_all add: algebra_simps)
  have d: "a + es * j + (es * l + t - es * i) = a + es * (j + (l - i)) + t" if "i \<le> l" for i j
  proof -
    have "es * i \<le> es * l" using that by simp
    then have "es * l + t - es * i = es * l - es * i + t" "es * (j + (l - i)) = es * j + (es * l - es * i)" by (simp_all add: distrib_left diff_mult_distrib2)
    then show ?thesis by simp
  qed
  show "elt es a (block_swap (a + es * i) (a + es * j) (es * k) m) l ! t = elt es a m (exchange i j k l) ! t"
    using t by (simp add: elt_def block_swap_def exchange_def c d del: add_diff_assoc diff_add_assoc)
qed simp

end
