(* ===== verification/Qsort_Sorts.thy ===== *)
theory Qsort_Sorts
  imports Qsort
begin

text \<open>
  What \<open>qsort\<close> of \<open>boot/uefi/qsort.c\<close> does: it returns, and leaves the elements of the array in ascending order.
\<close>

subsection \<open>Rearranging\<close>

definition rearranges :: "nat \<Rightarrow> nat \<Rightarrow> nat \<Rightarrow> nat \<Rightarrow> bytes \<Rightarrow> bytes \<Rightarrow> bool" where
  "rearranges es a lo hi m m' \<longleftrightarrow>
     (\<forall>x. x < a + es * lo \<or> a + es * hi \<le> x \<longrightarrow> m' x = m x)
     \<and> mset (map (elt es a m') [lo ..< hi]) = mset (map (elt es a m) [lo ..< hi])"

lemma rearranges_refl [simp]: "rearranges es a lo hi m m"
  by (simp add: rearranges_def)

lemma rearranges_trans: "rearranges es a lo hi m m1 \<Longrightarrow> rearranges es a lo hi m1 m2 \<Longrightarrow> rearranges es a lo hi m m2"
  by (simp add: rearranges_def)

lemma rearranges_elt:
  assumes "rearranges es a lo hi m m'" "i < lo \<or> hi \<le> i"
  shows "elt es a m' i = elt es a m i"
proof -
  have "m' (a + es * i + t) = m (a + es * i + t)" if t: "t < es" for t
  proof -
    have "es * i + t < es * lo \<or> es * hi \<le> es * i + t" using assms(2) cell_order [OF t] by auto
    then show ?thesis using assms(1) by (auto simp: rearranges_def add.assoc)
  qed
  then show ?thesis by (auto simp: elt_def intro!: nth_equalityI)
qed

lemma rearranges_widen:
  assumes "rearranges es a lo hi m m'" "lo' \<le> lo" "lo \<le> hi" "hi \<le> hi'"
  shows "rearranges es a lo' hi' m m'"
proof -
  have u: "[lo' ..< hi'] = [lo' ..< lo] @ [lo ..< hi] @ [hi ..< hi']"
    using assms(2-4) upt_add_eq_append [of lo' lo "hi' - lo"] upt_add_eq_append [of lo hi "hi' - hi"] by simp
  have "map (elt es a m') [lo' ..< lo] = map (elt es a m) [lo' ..< lo]" "map (elt es a m') [hi ..< hi'] = map (elt es a m) [hi ..< hi']"
    using rearranges_elt [OF assms(1)] by auto
  then have "mset (map (elt es a m') [lo' ..< hi']) = mset (map (elt es a m) [lo' ..< hi'])"
    unfolding u map_append mset_append using assms(1) by (simp only: rearranges_def)
  moreover have "es * lo' \<le> es * lo" "es * hi \<le> es * hi'" using assms(2,4) by simp_all
  then have "m' x = m x" if "x < a + es * lo' \<or> a + es * hi' \<le> x" for x
    using that assms(1) unfolding rearranges_def by (meson add_left_mono le_trans less_le_trans)
  ultimately show ?thesis by (simp only: rearranges_def) blast
qed

lemma rearranges_all:
  assumes "rearranges es a lo hi m m'" "\<And>i. lo \<le> i \<Longrightarrow> i < hi \<Longrightarrow> P (elt es a m i)" "lo \<le> i" "i < hi"
  shows "P (elt es a m' i)"
proof -
  have "set (map (elt es a m') [lo ..< hi]) = set (map (elt es a m) [lo ..< hi])"
    using assms(1) by (metis rearranges_def set_mset_mset)
  moreover have "elt es a m' i \<in> set (map (elt es a m') [lo ..< hi])" using assms(3,4) by simp
  ultimately show ?thesis using assms(2) by auto
qed

lemma mset_permuted:
  assumes "bij_betw f {lo ..< hi} {lo ..< hi}" "\<And>i. g' i = g (f i)"
  shows "mset (map g' [lo ..< hi]) = mset (map g [lo ..< hi])"
proof -
  have "image_mset f (mset_set {lo ..< hi}) = mset_set {lo ..< hi}"
    using image_mset_mset_set [of f "{lo ..< hi}"] assms(1) by (simp add: bij_betw_def)
  then have "image_mset g (image_mset f (mset_set {lo ..< hi})) = image_mset g (mset_set {lo ..< hi})" by simp
  moreover have "g' = (\<lambda>i. g (f i))" using assms(2) by auto
  ultimately show ?thesis by (simp add: multiset.map_comp comp_def)
qed

lemma exchange_involution: "i = j \<or> i + k \<le> j \<or> j + k \<le> i \<Longrightarrow> exchange i j k (exchange i j k l) = l"
  by (auto simp: exchange_def)

lemma exchange_inside: "lo \<le> i \<Longrightarrow> lo \<le> j \<Longrightarrow> i + k \<le> hi \<Longrightarrow> j + k \<le> hi \<Longrightarrow> lo \<le> l \<Longrightarrow> l < hi \<Longrightarrow> lo \<le> exchange i j k l \<and> exchange i j k l < hi"
  by (auto simp: exchange_def)

lemma block_swap_rearranges:
  assumes "i = j \<or> i + k \<le> j \<or> j + k \<le> i" "lo \<le> i" "lo \<le> j" "i + k \<le> hi" "j + k \<le> hi"
  shows "rearranges es a lo hi m (block_swap (a + es * i) (a + es * j) (es * k) m)"
proof -
  have "bij_betw (exchange i j k) {lo ..< hi} {lo ..< hi}"
    using exchange_inside [OF assms(2-5)] exchange_involution [OF assms(1)]
    by (intro bij_betw_byWitness [of _ "exchange i j k"]) auto
  moreover have "es * lo \<le> es * i" "es * lo \<le> es * j" "es * (i + k) \<le> es * hi" "es * (j + k) \<le> es * hi" using assms by simp_all
  then have "block_swap (a + es * i) (a + es * j) (es * k) m x = m x" if "x < a + es * lo \<or> a + es * hi \<le> x" for x
    using that by (intro block_swap_at(3)) (simp only: distrib_left; linarith)+
  ultimately show ?thesis
    using mset_permuted [of "exchange i j k" lo hi "elt es a (block_swap (a + es * i) (a + es * j) (es * k) m)" "elt es a m"]
    by (simp add: rearranges_def elt_block_swap)
qed

text \<open>The exchange of two elements.\<close>

lemma swap_elems_elt:
  assumes "swap_ok st es"
  shows "elt es a (swap_elems st es (a + es * i) (a + es * j) m) l = elt es a m (if l = i then j else if l = j then i else l)"
    "lo \<le> i \<Longrightarrow> lo \<le> j \<Longrightarrow> i < hi \<Longrightarrow> j < hi \<Longrightarrow> rearranges es a lo hi m (swap_elems st es (a + es * i) (a + es * j) m)"
proof -
  have ij: "i = j \<or> i + 1 \<le> j \<or> j + 1 \<le> i" by auto
  then have "i = j \<or> es * (i + 1) \<le> es * j \<or> es * (j + 1) \<le> es * i" by (metis mult_le_mono2)
  then have "apart (a + es * i) (a + es * j) es" by (auto simp: apart_def)
  then have s: "swap_elems st es (a + es * i) (a + es * j) m = block_swap (a + es * i) (a + es * j) (es * 1) m"
    using swap_elems_blocks [OF assms] by simp
  show "elt es a (swap_elems st es (a + es * i) (a + es * j) m) l = elt es a m (if l = i then j else if l = j then i else l)"
    unfolding s by (subst elt_block_swap) (auto simp: exchange_def)
  show "rearranges es a lo hi m (swap_elems st es (a + es * i) (a + es * j) m)" if "lo \<le> i" "lo \<le> j" "i < hi" "j < hi"
    unfolding s using that ij by (intro block_swap_rearranges) auto
qed

subsection \<open>Insertion sort\<close>

text \<open>
  The comparison function orders the elements by a key: it is negative, zero or positive as the key of the first element
  is below, equal to or above that of the second.
\<close>

definition compares :: "compar_fn \<Rightarrow> nat \<Rightarrow> (u8 list \<Rightarrow> 'k::linorder) \<Rightarrow> bool" where
  "compares cmp es key \<longleftrightarrow>
     (\<forall>x y. length x = es \<longrightarrow> length y = es \<longrightarrow> (cmp x y < 0 \<longleftrightarrow> key x < key y) \<and> (cmp x y > 0 \<longleftrightarrow> key y < key x))"

lemma cmp_elts:
  assumes "compares cmp es key"
  shows "cmp (read_bytes (a + es * i) es m) (read_bytes (a + es * j) es m) > 0 \<longleftrightarrow> key (elt es a m j) < key (elt es a m i)"
    "cmp (read_bytes (a + es * i) es m) (read_bytes (a + es * j) es m) < 0 \<longleftrightarrow> key (elt es a m i) < key (elt es a m j)"
  using assms by (auto simp: compares_def elt_def)

lemma insert_down_sorts:
  assumes ok: "swap_ok st es" and cm: "compares cmp es key"
    and srt: "\<And>x y. x < y \<Longrightarrow> y \<le> hi \<Longrightarrow> y \<noteq> i \<Longrightarrow> key (elt es a m x) \<le> key (elt es a m y)" and i: "i \<le> hi"
  shows "\<exists>m'. insert_down cmp st es a (a + es * i) m = Some m' \<and> rearranges es a 0 (Suc hi) m m'
    \<and> (\<forall>x y. x < y \<longrightarrow> y \<le> hi \<longrightarrow> key (elt es a m' x) \<le> key (elt es a m' y))"
  using srt i
proof (induction i arbitrary: m)
  case 0
  then show ?case by (subst insert_down.simps) (auto intro: exI [of _ m])
next
  case (Suc i)
  have es: "es > 0" using ok by (simp add: swap_ok_def)
  have p: "a + es * Suc i - es = a + es * i" by simp
  note c = cmp_elts(1) [OF cm, of a i m "Suc i"]
  show ?case
  proof (cases "key (elt es a m (Suc i)) < key (elt es a m i)")
    case True
    define m1 where "m1 = swap_elems st es (a + es * Suc i) (a + es * i) m"
    have e: "elt es a m1 l = elt es a m (if l = Suc i then i else if l = i then Suc i else l)" for l
      unfolding m1_def using swap_elems_elt(1) [OF ok] .
    have r: "rearranges es a 0 (Suc hi) m m1" unfolding m1_def using Suc.prems(2) by (intro swap_elems_elt(2) [OF ok]) auto
    have "key (elt es a m1 x) \<le> key (elt es a m1 y)" if xy: "x < y" "y \<le> hi" "y \<noteq> i" for x y
    proof (cases "y = Suc i")
      case T: True
      then have "x = i \<or> x < i" using xy(1) by auto
      then show ?thesis using T True Suc.prems(1) [of x i] Suc.prems(2) by (auto simp: e)
    next
      case False
      then have "key (elt es a m x) \<le> key (elt es a m y)" "x = i \<Longrightarrow> key (elt es a m (Suc i)) \<le> key (elt es a m y)"
          "x = Suc i \<Longrightarrow> key (elt es a m i) \<le> key (elt es a m y)"
        using Suc.prems(1) [of _ y] xy by auto
      then show ?thesis using False xy(3) by (auto simp: e)
    qed
    then obtain m' where "insert_down cmp st es a (a + es * i) m1 = Some m'" "rearranges es a 0 (Suc hi) m1 m'"
        "\<forall>x y. x < y \<longrightarrow> y \<le> hi \<longrightarrow> key (elt es a m' x) \<le> key (elt es a m' y)"
      using Suc.IH [of m1] Suc.prems(2) by auto
    moreover have "insert_down cmp st es a (a + es * Suc i) m = insert_down cmp st es a (a + es * i) m1"
      using True es c p by (subst insert_down.simps) (simp add: m1_def)
    ultimately show ?thesis using rearranges_trans [OF r] by auto
  next
    case False
    have "insert_down cmp st es a (a + es * Suc i) m = Some m" using False c p by (subst insert_down.simps) simp
    moreover have "key (elt es a m x) \<le> key (elt es a m y)" if xy: "x < y" "y \<le> hi" for x y
    proof (cases "y = Suc i")
      case True
      then have "key (elt es a m x) \<le> key (elt es a m i)" using Suc.prems(1) [of x i] Suc.prems(2) xy by (cases "x = i") auto
      then show ?thesis using False True by simp
    qed (use Suc.prems(1) xy in simp)
    ultimately show ?thesis by auto
  qed
qed

lemma insertion_sort_sorts:
  assumes ok: "swap_ok st es" and cm: "compares cmp es key"
    and srt: "\<And>x y. x < y \<Longrightarrow> y < i \<Longrightarrow> key (elt es a m x) \<le> key (elt es a m y)"
  shows "\<exists>m'. insertion_sort cmp st es a n (a + es * i) m = Some m' \<and> rearranges es a 0 n m m'
    \<and> (\<forall>x y. x < y \<longrightarrow> y < n \<longrightarrow> key (elt es a m' x) \<le> key (elt es a m' y))"
  using srt
proof (induction "n - i" arbitrary: i m)
  case 0
  then have "insertion_sort cmp st es a n (a + es * i) m = Some m" by (subst insertion_sort.simps) (simp add: mult.commute)
  then show ?case using 0 by auto
next
  case (Suc k)
  have lt: "i < n" and k: "k = n - Suc i" using Suc.hyps(2) by simp_all
  obtain m1 where m1: "insert_down cmp st es a (a + es * i) m = Some m1" "rearranges es a 0 (Suc i) m m1"
      "\<forall>x y. x < y \<longrightarrow> y \<le> i \<longrightarrow> key (elt es a m1 x) \<le> key (elt es a m1 y)"
    using insert_down_sorts [OF ok cm, of i i a m] Suc.prems by auto
  obtain m' where m': "insertion_sort cmp st es a n (a + es * Suc i) m1 = Some m'" "rearranges es a 0 n m1 m'"
      "\<forall>x y. x < y \<longrightarrow> y < n \<longrightarrow> key (elt es a m' x) \<le> key (elt es a m' y)"
    using Suc.hyps(1) [OF k, of m1] m1(3) by auto
  have "insertion_sort cmp st es a n (a + es * i) m = Some m'"
    using lt m1(1) m'(1) ok by (subst insertion_sort.simps) (simp add: ac_simps swap_ok_def)
  moreover have "rearranges es a 0 n m m'"
    using rearranges_trans [OF rearranges_widen [OF m1(2)] m'(2)] lt by simp
  ultimately show ?case using m'(3) by auto
qed

subsection \<open>Partition\<close>

text \<open>
  The invariant of the partition, with element 0 the pivot: the elements before \<open>i\<close> and after \<open>d\<close> are equal to it, those
  from \<open>i\<close> up to \<open>j\<close> are smaller, those after \<open>c\<close> up to \<open>d\<close> are greater, and the others have not been looked at.
\<close>

definition parted :: "(u8 list \<Rightarrow> 'k::linorder) \<Rightarrow> nat \<Rightarrow> nat \<Rightarrow> nat \<Rightarrow> nat \<Rightarrow> nat \<Rightarrow> nat \<Rightarrow> nat \<Rightarrow> bytes \<Rightarrow> bool" where
  "parted key es a n i j c d m \<longleftrightarrow> 1 \<le> i \<and> i \<le> j \<and> j \<le> Suc c \<and> c \<le> d \<and> d < n
     \<and> (\<forall>x. 1 \<le> x \<longrightarrow> x < i \<longrightarrow> key (elt es a m x) = key (elt es a m 0))
     \<and> (\<forall>x. i \<le> x \<longrightarrow> x < j \<longrightarrow> key (elt es a m x) < key (elt es a m 0))
     \<and> (\<forall>x. c < x \<longrightarrow> x \<le> d \<longrightarrow> key (elt es a m 0) < key (elt es a m x))
     \<and> (\<forall>x. d < x \<longrightarrow> x < n \<longrightarrow> key (elt es a m x) = key (elt es a m 0))"

lemma cmp_pivot:
  assumes "compares cmp es key"
  shows "cmp (read_bytes (a + es * i) es m) (read_bytes a es m) > 0 \<longleftrightarrow> key (elt es a m 0) < key (elt es a m i)"
    "cmp (read_bytes (a + es * i) es m) (read_bytes a es m) < 0 \<longleftrightarrow> key (elt es a m i) < key (elt es a m 0)"
    "cmp (read_bytes (a + es * i) es m) (read_bytes a es m) = 0 \<longleftrightarrow> key (elt es a m i) = key (elt es a m 0)"
proof -
  show c: "cmp (read_bytes (a + es * i) es m) (read_bytes a es m) > 0 \<longleftrightarrow> key (elt es a m 0) < key (elt es a m i)"
    "cmp (read_bytes (a + es * i) es m) (read_bytes a es m) < 0 \<longleftrightarrow> key (elt es a m i) < key (elt es a m 0)"
    using cmp_elts [OF assms, of a i m 0] by simp_all
  then show "cmp (read_bytes (a + es * i) es m) (read_bytes a es m) = 0 \<longleftrightarrow> key (elt es a m i) = key (elt es a m 0)"
    by (metis antisym_conv3 less_irrefl)
qed

lemma scan_up_parts:
  assumes ok: "swap_ok st es" and cm: "compares cmp es key"
  shows "parted key es a n i j c d m \<Longrightarrow>
    \<exists>i' j' cnt' m'. scan_up cmp st es a (a + es * i) (a + es * j) (a + es * c) cnt m = Some (a + es * i', a + es * j', cnt', m')
      \<and> parted key es a n i' j' c d m' \<and> rearranges es a 1 n m m' \<and> j \<le> j' \<and> (j' \<le> c \<longrightarrow> key (elt es a m' 0) < key (elt es a m' j'))"
proof (induction "Suc c - j" arbitrary: i j cnt m)
  case 0
  then have "c < j" by simp
  then have "\<not> a + es * j \<le> a + es * c" using ok by (simp add: swap_ok_def)
  then have "scan_up cmp st es a (a + es * i) (a + es * j) (a + es * c) cnt m = Some (a + es * i, a + es * j, cnt, m)"
    by (subst scan_up.simps) (simp add: Let_def)
  then show ?case using 0 \<open>c < j\<close> by fastforce
next
  case (Suc k)
  have jc: "j \<le> c" and k: "k = Suc c - Suc j" using Suc.hyps(2) by simp_all
  have le: "a + es * j \<le> a + es * c" using jc by simp
  note cp = cmp_pivot [OF cm, of a j m]
  consider "key (elt es a m 0) < key (elt es a m j)" | "key (elt es a m j) < key (elt es a m 0)" | "key (elt es a m j) = key (elt es a m 0)" by fastforce
  then show ?case
  proof cases
    case 1
    then have "scan_up cmp st es a (a + es * i) (a + es * j) (a + es * c) cnt m = Some (a + es * i, a + es * j, cnt, m)"
      using cp by (subst scan_up.simps) (simp add: Let_def)
    then show ?thesis using 1 Suc.prems by fastforce
  next
    case 2
    then have "scan_up cmp st es a (a + es * i) (a + es * j) (a + es * c) cnt m = scan_up cmp st es a (a + es * i) (a + es * Suc j) (a + es * c) cnt m"
      using cp le by (subst scan_up.simps) (simp add: Let_def ac_simps)
    moreover have "parted key es a n i (Suc j) c d m" using Suc.prems jc 2 by (auto simp: parted_def less_Suc_eq)
    ultimately show ?thesis using Suc.hyps(1) [OF k, of i m cnt] by (metis Suc_leD)
  next
    case 3
    define m1 where "m1 = swap_elems st es (a + es * i) (a + es * j) m"
    have e: "elt es a m1 l = elt es a m (if l = i then j else if l = j then i else l)" for l
      unfolding m1_def using swap_elems_elt(1) [OF ok] .
    have b: "1 \<le> i" "i \<le> j" "c \<le> d" "d < n" using Suc.prems by (auto simp: parted_def)
    have r: "rearranges es a 1 n m m1" unfolding m1_def using jc b by (intro swap_elems_elt(2) [OF ok]) auto
    have "scan_up cmp st es a (a + es * i) (a + es * j) (a + es * c) cnt m = scan_up cmp st es a (a + es * Suc i) (a + es * Suc j) (a + es * c) True m1"
      using 3 cp le by (subst scan_up.simps) (simp add: Let_def m1_def ac_simps)
    moreover have "parted key es a n (Suc i) (Suc j) c d m1"
      using Suc.prems jc 3 by (auto simp: parted_def e less_Suc_eq)
    ultimately show ?thesis using Suc.hyps(1) [OF k, of "Suc i" m1 True] rearranges_trans [OF r] by (metis Suc_leD)
  qed
qed

lemma scan_down_parts:
  assumes ok: "swap_ok st es" and cm: "compares cmp es key"
  shows "parted key es a n i j c d m \<Longrightarrow>
    \<exists>c' d' cnt' m'. scan_down cmp st es a (a + es * j) (a + es * c) (a + es * d) cnt m = Some (a + es * c', a + es * d', cnt', m')
      \<and> parted key es a n i j c' d' m' \<and> rearranges es a 1 n m m' \<and> c' \<le> c \<and> (j \<le> c' \<longrightarrow> key (elt es a m' c') < key (elt es a m' 0))
      \<and> (\<forall>x \<le> c'. elt es a m' x = elt es a m x)"
proof (induction "Suc c - j" arbitrary: c d cnt m)
  case 0
  then have "c < j" by simp
  then have "\<not> a + es * j \<le> a + es * c" using ok by (simp add: swap_ok_def)
  then have "scan_down cmp st es a (a + es * j) (a + es * c) (a + es * d) cnt m = Some (a + es * c, a + es * d, cnt, m)"
    by (subst scan_down.simps) (simp add: Let_def)
  then show ?case using 0 \<open>c < j\<close> by fastforce
next
  case (Suc k)
  have jc: "j \<le> c" using Suc.hyps(2) by simp
  have b: "1 \<le> i" "i \<le> j" "c \<le> d" "d < n" using Suc.prems by (auto simp: parted_def)
  then obtain c0 where c0: "c = Suc c0" using jc by (cases c) auto
  obtain d0 where d0: "d = Suc d0" using b c0 by (cases d) auto
  have k: "k = Suc c0 - j" using Suc.hyps(2) c0 by simp
  have le: "a + es * j \<le> a + es * c" using jc by simp
  have pm: "a + es * c - es = a + es * c0" "a + es * d - es = a + es * d0" by (simp_all add: c0 d0)
  note cp = cmp_pivot [OF cm, of a c m]
  consider "key (elt es a m c) < key (elt es a m 0)" | "key (elt es a m 0) < key (elt es a m c)" | "key (elt es a m c) = key (elt es a m 0)" by fastforce
  then show ?case
  proof cases
    case 1
    then have "scan_down cmp st es a (a + es * j) (a + es * c) (a + es * d) cnt m = Some (a + es * c, a + es * d, cnt, m)"
      using cp by (subst scan_down.simps) (simp add: Let_def)
    then show ?thesis using 1 Suc.prems by fastforce
  next
    case 2
    then have "scan_down cmp st es a (a + es * j) (a + es * c) (a + es * d) cnt m = scan_down cmp st es a (a + es * j) (a + es * c0) (a + es * d) cnt m"
      using cp le pm by (subst scan_down.simps) (simp add: Let_def)
    moreover have "key (elt es a m 0) < key (elt es a m x)" if "c0 < x" "x \<le> d" for x
      using that 2 Suc.prems c0 by (cases "x = c") (auto simp: parted_def)
    then have "parted key es a n i j c0 d m" using Suc.prems jc c0 by (simp add: parted_def)
    from Suc.hyps(1) [OF k this, of cnt] obtain c' d' cnt' m'
      where q: "scan_down cmp st es a (a + es * j) (a + es * c0) (a + es * d) cnt m = Some (a + es * c', a + es * d', cnt', m')"
        "parted key es a n i j c' d' m'" "rearranges es a 1 n m m'" "c' \<le> c0" "j \<le> c' \<longrightarrow> key (elt es a m' c') < key (elt es a m' 0)"
        "\<forall>x \<le> c'. elt es a m' x = elt es a m x" by blast
    then show ?thesis using calculation c0 by (intro exI [of _ c'] exI [of _ d'] exI [of _ cnt'] exI [of _ m']) simp
  next
    case 3
    define m1 where "m1 = swap_elems st es (a + es * c) (a + es * d) m"
    have e: "elt es a m1 l = elt es a m (if l = c then d else if l = d then c else l)" for l
      unfolding m1_def using swap_elems_elt(1) [OF ok] .
    have r: "rearranges es a 1 n m m1" unfolding m1_def using jc b by (intro swap_elems_elt(2) [OF ok]) auto
    have step: "scan_down cmp st es a (a + es * j) (a + es * c) (a + es * d) cnt m = scan_down cmp st es a (a + es * j) (a + es * c0) (a + es * d0) True m1"
      using 3 cp le pm by (subst scan_down.simps) (simp add: Let_def m1_def)
    have "elt es a m1 x = elt es a m x" if "x < j" for x using that jc b by (simp add: e)
    moreover have "key (elt es a m 0) < key (elt es a m1 x)" if "c0 < x" "x \<le> d0" for x
      using that Suc.prems c0 d0 by (cases "x = c") (simp_all add: parted_def e)
    moreover have "key (elt es a m1 x) = key (elt es a m 0)" if "d0 < x" "x < n" for x
      using that 3 Suc.prems c0 d0 b by (cases "x = d") (auto simp: parted_def e)
    ultimately have "parted key es a n i j c0 d0 m1"
      using Suc.prems jc c0 d0 by (simp add: parted_def)
    from Suc.hyps(1) [OF k this, of True] obtain c' d' cnt' m'
      where q: "scan_down cmp st es a (a + es * j) (a + es * c0) (a + es * d0) True m1 = Some (a + es * c', a + es * d', cnt', m')"
        "parted key es a n i j c' d' m'" "rearranges es a 1 n m1 m'" "c' \<le> c0" "j \<le> c' \<longrightarrow> key (elt es a m' c') < key (elt es a m' 0)"
        "\<forall>x \<le> c'. elt es a m' x = elt es a m1 x" by blast
    have "elt es a m' x = elt es a m x" if "x \<le> c'" for x using that q(4,6) c0 b by (auto simp: e)
    then show ?thesis using step q(1-5) rearranges_trans [OF r q(3)] c0 by (intro exI [of _ c'] exI [of _ d'] exI [of _ cnt'] exI [of _ m']) simp
  qed
qed

lemma partition_loop_parts:
  assumes ok: "swap_ok st es" and cm: "compares cmp es key"
  shows "parted key es a n i j c d m \<Longrightarrow>
    \<exists>i' j' c' d' cnt' m'. partition_loop cmp st es a (a + es * i) (a + es * j) (a + es * c) (a + es * d) cnt m
        = Some (a + es * i', a + es * j', a + es * c', a + es * d', cnt', m')
      \<and> parted key es a n i' j' c' d' m' \<and> c' < j' \<and> rearranges es a 1 n m m'"
proof (induction "Suc c - j" arbitrary: i j c d cnt m rule: less_induct)
  case less
  obtain i1 j1 cnt1 m1 where u: "scan_up cmp st es a (a + es * i) (a + es * j) (a + es * c) cnt m = Some (a + es * i1, a + es * j1, cnt1, m1)"
      "parted key es a n i1 j1 c d m1" "rearranges es a 1 n m m1" "j \<le> j1" "j1 \<le> c \<longrightarrow> key (elt es a m1 0) < key (elt es a m1 j1)"
    using scan_up_parts [OF ok cm less.prems] by metis
  obtain c2 d2 cnt2 m2 where w: "scan_down cmp st es a (a + es * j1) (a + es * c) (a + es * d) cnt1 m1 = Some (a + es * c2, a + es * d2, cnt2, m2)"
      "parted key es a n i1 j1 c2 d2 m2" "rearranges es a 1 n m1 m2" "c2 \<le> c" "j1 \<le> c2 \<longrightarrow> key (elt es a m2 c2) < key (elt es a m2 0)"
      "\<forall>x \<le> c2. elt es a m2 x = elt es a m1 x"
    using scan_down_parts [OF ok cm u(2)] by metis
  have r: "rearranges es a 1 n m m2" using rearranges_trans [OF u(3) w(3)] .
  show ?case
  proof (cases "c2 < j1")
    case True
    then have "a + es * j1 > a + es * c2" using ok by (simp add: swap_ok_def)
    then have "partition_loop cmp st es a (a + es * i) (a + es * j) (a + es * c) (a + es * d) cnt m
        = Some (a + es * i1, a + es * j1, a + es * c2, a + es * d2, cnt2, m2)"
      using u(1) w(1) by (subst partition_loop.simps) simp
    then show ?thesis using w(2) True r by blast
  next
    case False
    then have jc: "j1 \<le> c2" by simp
    then have "key (elt es a m2 0) < key (elt es a m2 j1)" using u(5) w(4,6) by simp
    moreover have "key (elt es a m2 c2) < key (elt es a m2 0)" using w(5) jc by simp
    ultimately have keys: "key (elt es a m2 0) < key (elt es a m2 j1)" "key (elt es a m2 c2) < key (elt es a m2 0)" "j1 < c2"
      using jc by (auto simp: order.order_iff_strict)
    have b: "1 \<le> i1" "i1 \<le> j1" "c2 \<le> d2" "d2 < n" using w(2) by (auto simp: parted_def)
    obtain c3 where c3: "c2 = Suc c3" using keys(3) by (cases c2) auto
    define m3 where "m3 = swap_elems st es (a + es * j1) (a + es * c2) m2"
    have e: "elt es a m3 l = elt es a m2 (if l = j1 then c2 else if l = c2 then j1 else l)" for l
      unfolding m3_def using swap_elems_elt(1) [OF ok] .
    have r3: "rearranges es a 1 n m2 m3" unfolding m3_def using keys(3) b by (intro swap_elems_elt(2) [OF ok]) auto
    have "parted key es a n i1 (Suc j1) c3 d2 m3" using w(2) keys c3 by (auto simp: parted_def e)
    moreover have "Suc c3 - Suc j1 < Suc c - j" using c3 w(4) u(4) keys(3) by simp
    ultimately obtain i' j' c' d' cnt' m' where q: "partition_loop cmp st es a (a + es * i1) (a + es * Suc j1) (a + es * c3) (a + es * d2) True m3
        = Some (a + es * i', a + es * j', a + es * c', a + es * d', cnt', m')" "parted key es a n i' j' c' d' m'" "c' < j'" "rearranges es a 1 n m3 m'"
      using less.hyps by metis
    have pj: "a + es * j1 + es = a + es * Suc j1" by simp
    have "\<not> a + es * j1 > a + es * c2" using jc by simp
    moreover have "a + es * c2 - es = a + es * c3" by (simp add: c3)
    ultimately have "partition_loop cmp st es a (a + es * i) (a + es * j) (a + es * c) (a + es * d) cnt m
        = partition_loop cmp st es a (a + es * i1) (a + es * Suc j1) (a + es * c3) (a + es * d2) True m3"
      using u(1) w(1) pj jc by (subst partition_loop.simps) (simp add: m3_def add.assoc del: mult_Suc_right)
    then show ?thesis using q rearranges_trans [OF r rearranges_trans [OF r3 q(4)]] by auto
  qed
qed

subsection \<open>The pivot and the exchange of blocks\<close>

lemma med3_cases: "med3 cmp es a b c m \<in> {a, b, c}"
  by (simp add: med3_def Let_def)

lemma pivot_in_array:
  assumes "7 \<le> n" "n * es < 2147483648"
  shows "\<exists>t < n. pivot_pos cmp es a n m = a + es * t"
proof -
  define q where "q = n div 8"
  have "q * es \<le> n * es" by (simp add: q_def)
  then have d: "c_int (int (n div 8 * es)) = int (q * es)" unfolding q_def [symmetric] using assms(2) by (intro c_int_id) linarith+
  have up: "nat (int (a + es * u) + 1 * int (q * es)) = a + es * (u + q)" "nat (int (a + es * u) + 2 * int (q * es)) = a + es * (u + 2 * q)" for u
    by (simp_all add: nat_eq_iff algebra_simps)
  have dn: "nat (int (a + es * u) + - 1 * int (q * es)) = a + es * (u - q)" if "q \<le> u" for u
    using that by (auto simp: le_iff_add nat_eq_iff algebra_simps)
  have dn2: "nat (int (a + es * u) + - 2 * int (q * es)) = a + es * (u - 2 * q)" if "2 * q \<le> u" for u
    using that by (auto simp: le_iff_add nat_eq_iff algebra_simps)
  have in_arr: "\<exists>t < n. med3 cmp es (a + es * u) (a + es * v) (a + es * w) m = a + es * t" if "u < n" "v < n" "w < n" for u v w
    using med3_cases [of cmp es "a + es * u" "a + es * v" "a + es * w" m] that by auto
  have b: "2 * q < n" "q \<le> n div 2" "n div 2 + q < n" "2 * q \<le> n - 1" "q \<le> n - 1" "0 < n"
    "q < n" "n div 2 < n" "n div 2 - q < n" "n - 1 - 2 * q < n" "n - 1 - q < n" "n - 1 < n" using assms(1) by (auto simp: q_def)
  consider "n = 7" | "7 < n" "n \<le> 40" | "40 < n" using assms(1) by linarith
  then show ?thesis
  proof cases
    case 1
    then show ?thesis by (intro exI [of _ 3]) (simp add: pivot_pos_def)
  next
    case 2
    then show ?thesis using in_arr [of 0 "n div 2" "n - 1"] by (simp add: pivot_pos_def Let_def mult.commute)
  next
    case 3
    obtain u where u: "u < n" "med3 cmp es a (nat (int a + 1 * int (q * es))) (nat (int a + 2 * int (q * es))) m = a + es * u"
      using in_arr [OF b(6) b(7) b(1)] up [of 0] by (simp only: mult_0_right add_0_right add_0_left) blast
    obtain v where v: "v < n" "med3 cmp es (nat (int (a + es * (n div 2)) + - 1 * int (q * es))) (a + es * (n div 2))
        (nat (int (a + es * (n div 2)) + 1 * int (q * es))) m = a + es * v"
      using in_arr [OF b(9) b(8) b(3)] unfolding up(1) dn [OF b(2)] by blast
    obtain w where w: "w < n" "med3 cmp es (nat (int (a + es * (n - 1)) + - 2 * int (q * es))) (nat (int (a + es * (n - 1)) + - 1 * int (q * es)))
        (a + es * (n - 1)) m = a + es * w"
      using in_arr [OF b(10-12)] unfolding dn [OF b(5)] dn2 [OF b(4)] by blast
    have c: "(7 < n) = True" "(40 < n) = True" using 3 by auto
    have "pivot_pos cmp es a n m = med3 cmp es (a + es * u) (a + es * v) (a + es * w) m"
      by (simp only: pivot_pos_def Let_def d c if_True prod.case mult.commute [of "n div 2" es] mult.commute [of "n - 1" es] u(2) v(2) w(2))
    then show ?thesis using in_arr [OF u(1) v(1) w(1)] by simp
  qed
qed

lemma vecswap_blocks:
  assumes "swap_ok st es" "i + k \<le> j"
  shows "vecswap st (a + es * i) (a + es * j) (int (es * k)) m = block_swap (a + es * i) (a + es * j) (es * k) m"
proof (cases "k = 0")
  case True
  then show ?thesis by (auto simp: vecswap_def block_swap_def fun_eq_iff)
next
  case False
  have "es * (i + k) \<le> es * j" using assms(2) by simp
  then have "apart (a + es * i) (a + es * j) (es * k)" by (simp add: apart_def distrib_left)
  moreover have "es * k > 0" using assms(1) False by (simp add: swap_ok_def)
  ultimately show ?thesis using swapfunc_blocks [OF assms(1), of k] False
    by (simp only: vecswap_def nat_int of_nat_0_less_iff if_True neq0_conv)
qed

text \<open>After the two exchanges the smaller elements come first, then the equal ones, then the greater ones.\<close>

text \<open>Where the exchange of the end of a block with its beginning takes an index: \<open>u\<close> elements go first, \<open>v\<close> elements last.\<close>

lemma exchange_blocks:
  fixes u v lo x :: nat
  defines "k \<equiv> min u v"
  shows "lo \<le> x \<Longrightarrow> x < lo + v \<Longrightarrow> lo + u \<le> exchange lo (lo + u + v - k) k x \<and> exchange lo (lo + u + v - k) k x < lo + u + v"
    "lo + v \<le> x \<Longrightarrow> x < lo + u + v \<Longrightarrow> lo \<le> exchange lo (lo + u + v - k) k x \<and> exchange lo (lo + u + v - k) k x < lo + u"
    "x < lo \<or> lo + u + v \<le> x \<Longrightarrow> exchange lo (lo + u + v - k) k x = x"
proof -
  consider "k = u" "u \<le> v" | "k = v" "v \<le> u" by (cases "u \<le> v") (auto simp: k_def)
  then show "lo \<le> x \<Longrightarrow> x < lo + v \<Longrightarrow> lo + u \<le> exchange lo (lo + u + v - k) k x \<and> exchange lo (lo + u + v - k) k x < lo + u + v"
    by cases (simp_all add: exchange_def)
  consider "k = u" "u \<le> v" | "k = v" "v \<le> u" by (cases "u \<le> v") (auto simp: k_def)
  then show "lo + v \<le> x \<Longrightarrow> x < lo + u + v \<Longrightarrow> lo \<le> exchange lo (lo + u + v - k) k x \<and> exchange lo (lo + u + v - k) k x < lo + u"
    by cases (auto simp: exchange_def)
  show "x < lo \<or> lo + u + v \<le> x \<Longrightarrow> exchange lo (lo + u + v - k) k x = x"
    by (auto simp: exchange_def k_def)
qed

lemma blocks_in_order:
  assumes ok: "swap_ok st es" and p: "parted key es a n i (Suc c) c d m"
    and m3: "m3 = vecswap st a (a + es * (Suc c - min i (Suc c - i))) (int (es * min i (Suc c - i))) m"
    and m4: "m4 = vecswap st (a + es * Suc c) (a + es * (n - min (d - c) (n - 1 - d))) (int (es * min (d - c) (n - 1 - d))) m3"
  shows "rearranges es a 0 n m m4"
    "\<And>x. x < Suc c - i \<Longrightarrow> key (elt es a m4 x) < key (elt es a m 0)"
    "\<And>x. Suc c - i \<le> x \<Longrightarrow> x < n - (d - c) \<Longrightarrow> key (elt es a m4 x) = key (elt es a m 0)"
    "\<And>x. n - (d - c) \<le> x \<Longrightarrow> x < n \<Longrightarrow> key (elt es a m 0) < key (elt es a m4 x)"
proof -
  define k1 k2 where "k1 = min i (Suc c - i)" and "k2 = min (d - c) (n - 1 - d)"
  have b: "1 \<le> i" "i \<le> Suc c" "c \<le> d" "d < n" using p by (auto simp: parted_def)
  have k: "k1 \<le> i" "k1 \<le> Suc c - i" "k2 \<le> d - c" "k2 \<le> n - 1 - d" by (auto simp: k1_def k2_def)
  have s3: "m3 = block_swap (a + es * 0) (a + es * (Suc c - k1)) (es * k1) m"
    unfolding m3 k1_def [symmetric] using vecswap_blocks [OF ok, of 0 k1 "Suc c - k1" a m] k b by simp
  have s4: "m4 = block_swap (a + es * Suc c) (a + es * (n - k2)) (es * k2) m3"
    unfolding m4 k2_def [symmetric] using k b by (intro vecswap_blocks [OF ok]) linarith
  note X1 = exchange_blocks [where lo = 0 and u = i and v = "Suc c - i", folded k1_def]
    and X2 = exchange_blocks [where lo = "Suc c" and u = "d - c" and v = "n - 1 - d", folded k2_def]
  have w: "i + (Suc c - i) = Suc c" "0 + i = i" "0 + (Suc c - i) = Suc c - i" "Suc c + (d - c) = Suc d" "Suc d + (n - 1 - d) = n" "Suc c + (n - 1 - d) = n - (d - c)" using b by linarith+
  have e: "elt es a m4 x = elt es a m (exchange 0 (Suc c - k1) k1 (exchange (Suc c) (n - k2) k2 x))" for x
    unfolding s4 elt_block_swap s3 ..
  have r3: "rearranges es a 0 n m m3" unfolding s3 using k b by (intro block_swap_rearranges) linarith+
  have r4: "rearranges es a 0 n m3 m4" unfolding s4 using k b by (intro block_swap_rearranges) linarith+
  show "rearranges es a 0 n m m4" using rearranges_trans [OF r3 r4] .
  have eq: "key (elt es a m x) = key (elt es a m 0)" if "x < i \<or> d < x \<and> x < n" for x
    using p that by (cases "x = 0") (auto simp: parted_def)
  have less: "key (elt es a m x) < key (elt es a m 0)" if "i \<le> x" "x < Suc c" for x using p that by (auto simp: parted_def)
  have greater: "key (elt es a m 0) < key (elt es a m x)" if "c < x" "x \<le> d" for x using p that by (auto simp: parted_def)
  show "key (elt es a m4 x) < key (elt es a m 0)" if x: "x < Suc c - i" for x
  proof -
    have "x < Suc c" using x by linarith
    then have "exchange (Suc c) (n - k2) k2 x = x" using X2(3) [of x] unfolding w by blast
    moreover have "i \<le> exchange 0 (Suc c - k1) k1 x \<and> exchange 0 (Suc c - k1) k1 x < Suc c" using X1(1) [OF le0, of x, unfolded w, OF x] .
    ultimately show ?thesis unfolding e using less by simp
  qed
  show "key (elt es a m4 x) = key (elt es a m 0)" if x: "Suc c - i \<le> x" "x < n - (d - c)" for x
  proof (cases "x < Suc c")
    case True
    have "exchange (Suc c) (n - k2) k2 x = x" using X2(3) [of x] True unfolding w by blast
    moreover have "exchange 0 (Suc c - k1) k1 x < i" using X1(2) [of x, unfolded w, OF x(1) True] by (rule conjunct2)
    ultimately show ?thesis unfolding e using eq [of "exchange 0 (Suc c - k1) k1 x"] by simp
  next
    case False
    have "d < exchange (Suc c) (n - k2) k2 x \<and> exchange (Suc c) (n - k2) k2 x < n" using X2(1) [of x] False x(2) unfolding w by simp
    moreover from this have "exchange 0 (Suc c - k1) k1 (exchange (Suc c) (n - k2) k2 x) = exchange (Suc c) (n - k2) k2 x"
      using X1(3) [of "exchange (Suc c) (n - k2) k2 x"] b unfolding w by linarith
    ultimately show ?thesis unfolding e using eq [of "exchange (Suc c) (n - k2) k2 x"] by simp
  qed
  show "key (elt es a m 0) < key (elt es a m4 x)" if x: "n - (d - c) \<le> x" "x < n" for x
  proof -
    have "Suc c \<le> exchange (Suc c) (n - k2) k2 x \<and> exchange (Suc c) (n - k2) k2 x < Suc d" using X2(2) [of x] x unfolding w by simp
    moreover from this have "exchange 0 (Suc c - k1) k1 (exchange (Suc c) (n - k2) k2 x) = exchange (Suc c) (n - k2) k2 x"
      using X1(3) [of "exchange (Suc c) (n - k2) k2 x"] b unfolding w by linarith
    ultimately show ?thesis unfolding e using greater by simp
  qed
qed

subsection \<open>The whole routine\<close>

lemma byte_diff: "v \<le> u \<Longrightarrow> int (a + es * u) - int (a + es * v) = int (es * (u - v))"
  by (auto simp: le_iff_add algebra_simps)

lemma byte_back: "k \<le> u \<Longrightarrow> nat (int (a + es * u) - int (es * k)) = a + es * (u - k)"
  by (auto simp: le_iff_add nat_eq_iff algebra_simps)

lemma byte_small:
  assumes "n * es < 2147483648" "u \<le> n"
  shows "c_int (int (es * u)) = int (es * u)"
proof -
  have "es * u \<le> n * es" using assms(2) by (simp add: mult.commute)
  then show ?thesis using assms(1) by (intro c_int_id) linarith+
qed

lemma byte_min: "min (int (es * u)) (int (es * v)) = int (es * min u v)"
  by (simp only: of_nat_min [symmetric] nat_mult_min_right)

lemma qsort_step:
  assumes n: "7 \<le> n" "n * es < 2147483648" "es > 0" and p: "parted key es a n i (Suc c) c d m2"
    and loop: "partition_loop cmp (swapinit a es) es a (a + es) (a + es) (a + es * (n - 1)) (a + es * (n - 1)) False
        (swap_elems (swapinit a es) es a (pivot_pos cmp es a n m) m) = Some (a + es * i, a + es * Suc c, a + es * c, a + es * d, True, m2)"
    and m3: "m3 = vecswap (swapinit a es) a (a + es * (Suc c - min i (Suc c - i))) (int (es * min i (Suc c - i))) m2"
    and m4: "m4 = vecswap (swapinit a es) (a + es * Suc c) (a + es * (n - min (d - c) (n - 1 - d))) (int (es * min (d - c) (n - 1 - d))) m3"
  shows "qsort cmp es a n m = do {
      m5 \<leftarrow> (if Suc c - i > 1 then qsort cmp es a (Suc c - i) m4 else Some m4);
      if d - c > 1 then qsort cmp es (a + es * (n - (d - c))) (d - c) m5 else Some m5 }"
proof -
  have b: "1 \<le> i" "i \<le> Suc c" "c \<le> d" "d < n" using p by (auto simp: parted_def)
  have i0: "int (a + es * i) - int a = int (es * i)" by simp
  have es1: "c_int (int es) = int (es * 1)" using byte_small [OF n(2), of 1] n(1) by simp
  have pn: "int (a + n * es) - int (a + es * d) - int (es * 1) = int (es * (n - 1 - d))"
  proof -
    obtain e where "n = d + 1 + e" using b(4) by (metis less_iff_Suc_add add.commute plus_1_eq_Suc add.assoc)
    then show ?thesis by (simp add: algebra_simps)
  qed
  have r1: "c_int (min (int (a + es * i) - int a) (int (a + es * Suc c) - int (a + es * i))) = int (es * min i (Suc c - i))"
    unfolding i0 byte_diff [OF b(2)] byte_min using b by (intro byte_small [OF n(2)]) simp
  have q1: "nat (int (a + es * Suc c) - int (es * min i (Suc c - i))) = a + es * (Suc c - min i (Suc c - i))" using b by (intro byte_back) simp
  have r2: "c_int (min (int (a + es * d) - int (a + es * c)) (int (a + n * es) - int (a + es * d) - c_int (int es))) = int (es * min (d - c) (n - 1 - d))"
    unfolding es1 pn byte_diff [OF b(3)] byte_min using b by (intro byte_small [OF n(2)]) simp
  have q2: "nat (int (a + n * es) - int (es * k)) = a + es * (n - k)" if "k \<le> n" for k using byte_back [OF that, of a es] by (simp add: mult.commute)
  have r3: "c_int (int (a + es * Suc c) - int (a + es * i)) = int (es * (Suc c - i))"
    unfolding byte_diff [OF b(2)] using b by (intro byte_small [OF n(2)]) simp
  have r4: "c_int (int (a + es * d) - int (a + es * c)) = int (es * (d - c))"
    unfolding byte_diff [OF b(3)] using b by (intro byte_small [OF n(2)]) simp
  have gt: "int (es * u) > int (es * 1) \<longleftrightarrow> u > 1" "nat (int (es * u)) div es = u" for u
    using n(3) by (simp, simp only: nat_int nonzero_mult_div_cancel_left [of es u] neq0_conv)
  have k2: "min (d - c) (n - 1 - d) \<le> n" "d - c \<le> n" using b by auto
  have nn: "(n < 7) = False" "(n - 1) * es = es * (n - 1)" using n(1) by simp_all
  show ?thesis
    by (subst qsort.simps)
      (simp only: Let_def nn if_False loop bind.bind_lunit prod.case not_True_eq_False r1 q1 m3 [symmetric] r2 [unfolded es1] q2 [OF k2(1)] m4 [symmetric] r3 r4 es1 gt
        q2 [OF k2(2)])
qed

lemma rearranges_shift:
  assumes "rearranges es (a + es * k) 0 g m m'"
  shows "rearranges es a k (k + g) m m'"
proof -
  have "map (elt es a m) [k ..< k + g] = map (elt es (a + es * k) m) [0 ..< g]" for m
  proof -
    have "[k ..< k + g] = map (\<lambda>i. i + k) [0 ..< g]" using map_add_upt [of k g] by (simp add: add.commute)
    then show ?thesis by (simp add: elt_shift add.commute comp_def)
  qed
  then show ?thesis using assms by (simp add: rearranges_def distrib_left add.assoc)
qed

text \<open>Sorting the smaller and the greater elements sorts the whole.\<close>

lemma three_zones:
  fixes key :: "u8 list \<Rightarrow> 'k::linorder"
  assumes z: "\<And>x. x < u \<Longrightarrow> key (elt es a m4 x) < pv" "\<And>x. u \<le> x \<Longrightarrow> x < v \<Longrightarrow> key (elt es a m4 x) = pv"
      "\<And>x. v \<le> x \<Longrightarrow> x < n \<Longrightarrow> pv < key (elt es a m4 x)"
    and l: "rearranges es a 0 u m4 m5" "\<forall>x y. x < y \<longrightarrow> y < u \<longrightarrow> key (elt es a m5 x) \<le> key (elt es a m5 y)"
    and g: "rearranges es a v n m5 m6" "\<forall>x y. x < y \<longrightarrow> y < n - v \<longrightarrow> key (elt es (a + es * v) m6 x) \<le> key (elt es (a + es * v) m6 y)"
    and uv: "u \<le> v" and xy: "x < y" "y < n"
  shows "key (elt es a m6 x) \<le> key (elt es a m6 y)"
proof -
  have low: "key (elt es a m6 i) < pv" "elt es a m6 i = elt es a m5 i" if "i < u" for i
    using rearranges_elt [OF g(1), of i] rearranges_all [OF l(1), of "\<lambda>e. key e < pv" i] z(1) that uv by auto
  have mid: "key (elt es a m6 i) = pv" if "u \<le> i" "i < v" for i
    using rearranges_elt [OF g(1), of i] rearranges_elt [OF l(1), of i] z(2) that by auto
  have high: "pv < key (elt es a m6 i)" if "v \<le> i" "i < n" for i
  proof (rule rearranges_all [OF g(1) _ that])
    show "pv < key (elt es a m5 j)" if "v \<le> j" "j < n" for j using rearranges_elt [OF l(1), of j] z(3) that uv by auto
  qed
  have upper_half: "pv \<le> key (elt es a m6 i)" if "u \<le> i" "i < n" for i
  proof (cases "i < v")
    case True
    then show ?thesis using mid [OF that(1) True] by simp
  next
    case False
    then show ?thesis using high [of i] that(2) by (simp add: less_imp_le)
  qed
  consider "y < u" | "x < u" "u \<le> y" | "u \<le> x" "x < v" | "v \<le> x" by linarith
  then show ?thesis
  proof cases
    case 1
    then show ?thesis using l(2) xy(1) low(2) [of x] low(2) [of y] by simp
  next
    case 2
    show ?thesis by (rule order_trans [OF less_imp_le [OF low(1) [OF 2(1)]] upper_half [OF 2(2) xy(2)]])
  next
    case 3
    then have "u \<le> y" using xy(1) by simp
    then show ?thesis using mid [OF 3] upper_half [of y] xy(2) by simp
  next
    case 4
    then have "key (elt es (a + es * v) m6 (x - v)) \<le> key (elt es (a + es * v) m6 (y - v))" using g(2) xy by simp
    then show ?thesis using 4 xy by (simp add: elt_shift)
  qed
qed

lemma qsort_ok:
  assumes es: "es > 0" and cm: "compares cmp es key"
  shows "n * es < 2147483648 \<Longrightarrow> \<exists>m'. qsort cmp es a n m = Some m' \<and> rearranges es a 0 n m m'
    \<and> (\<forall>x y. x < y \<longrightarrow> y < n \<longrightarrow> key (elt es a m' x) \<le> key (elt es a m' y))"
proof (induction n arbitrary: a m rule: less_induct)
  case (less n)
  define st where "st = swapinit a es"
  have ok: "swap_ok st es" unfolding st_def using swapinit_ok [OF es] .
  have insertion: "\<exists>m'. insertion_sort cmp st es a n (a + es) m = Some m' \<and> rearranges es a 0 n m m'
    \<and> (\<forall>x y. x < y \<longrightarrow> y < n \<longrightarrow> key (elt es a m' x) \<le> key (elt es a m' y))" for m
    using insertion_sort_sorts [OF ok cm, of 1 a m n] by simp
  have sub_sort: "\<exists>m'. (if u > 1 then qsort cmp es b u m else Some m) = Some m' \<and> rearranges es b 0 u m m'
    \<and> (\<forall>x y. x < y \<longrightarrow> y < u \<longrightarrow> key (elt es b m' x) \<le> key (elt es b m' y))" if "u < n" for u b m
  proof (cases "u > 1")
    case True
    have "u * es < 2147483648" using that less.prems mult_le_mono1 [of u n es] by linarith
    then show ?thesis using True less.IH [OF that, of b m] by simp
  qed auto
  show ?case
  proof (cases "n < 7")
    case True
    then show ?thesis using insertion [of m] by (subst qsort.simps) (simp add: st_def)
  next
    case False
    then have n7: "7 \<le> n" by simp
    obtain t where t: "t < n" "pivot_pos cmp es a n m = a + es * t" using pivot_in_array [OF n7 less.prems] by blast
    define m1 where "m1 = swap_elems st es a (pivot_pos cmp es a n m) m"
    have r1: "rearranges es a 0 n m m1" unfolding m1_def t(2) using swap_elems_elt(2) [OF ok, of 0 0 t n a m] t(1) n7 by simp
    have "parted key es a n 1 1 (n - 1) (n - 1) m1" using n7 by (auto simp: parted_def)
    then obtain i j c d cnt m2 where lp: "partition_loop cmp st es a (a + es) (a + es) (a + es * (n - 1)) (a + es * (n - 1)) False m1
          = Some (a + es * i, a + es * j, a + es * c, a + es * d, cnt, m2)"
        "parted key es a n i j c d m2" "c < j" "rearranges es a 1 n m1 m2"
      using partition_loop_parts [OF ok cm, of a n 1 1 "n - 1" "n - 1" m1 False] by (metis mult.right_neutral)
    have j: "j = Suc c" using lp(2,3) by (auto simp: parted_def)
    have r2: "rearranges es a 0 n m m2" using rearranges_trans [OF r1 rearranges_widen [OF lp(4)]] n7 by simp
    show ?thesis
    proof (cases cnt)
      case False
      have "qsort cmp es a n m = insertion_sort cmp st es a n (a + es) m2"
        using n7 lp(1) False unfolding m1_def st_def by (subst qsort.simps) (simp add: mult.commute)
      then show ?thesis using insertion [of m2] rearranges_trans [OF r2] by auto
    next
      case True
      define m3 where "m3 = vecswap st a (a + es * (Suc c - min i (Suc c - i))) (int (es * min i (Suc c - i))) m2"
      define m4 where "m4 = vecswap st (a + es * Suc c) (a + es * (n - min (d - c) (n - 1 - d))) (int (es * min (d - c) (n - 1 - d))) m3"
      note p = lp(2) [unfolded j]
      note zones = blocks_in_order [OF ok p m3_def m4_def]
      have step: "qsort cmp es a n m = do {
          m5 \<leftarrow> (if Suc c - i > 1 then qsort cmp es a (Suc c - i) m4 else Some m4);
          if d - c > 1 then qsort cmp es (a + es * (n - (d - c))) (d - c) m5 else Some m5 }"
        using qsort_step [OF n7 less.prems es p _ m3_def [unfolded st_def] m4_def [unfolded st_def]] lp(1) True j unfolding m1_def st_def by simp
      have b: "1 \<le> i" "i \<le> Suc c" "c \<le> d" "d < n" using p by (auto simp: parted_def)
      have lt: "Suc c - i < n" "d - c < n" using b by linarith+
      obtain m5 where m5: "(if Suc c - i > 1 then qsort cmp es a (Suc c - i) m4 else Some m4) = Some m5" "rearranges es a 0 (Suc c - i) m4 m5"
          "\<forall>x y. x < y \<longrightarrow> y < Suc c - i \<longrightarrow> key (elt es a m5 x) \<le> key (elt es a m5 y)"
        using sub_sort [OF lt(1), of a m4] by auto
      obtain m6 where m6: "(if d - c > 1 then qsort cmp es (a + es * (n - (d - c))) (d - c) m5 else Some m5) = Some m6"
          "rearranges es (a + es * (n - (d - c))) 0 (d - c) m5 m6"
          "\<forall>x y. x < y \<longrightarrow> y < d - c \<longrightarrow> key (elt es (a + es * (n - (d - c))) m6 x) \<le> key (elt es (a + es * (n - (d - c))) m6 y)"
        using sub_sort [OF lt(2), of "a + es * (n - (d - c))" m5] by auto
      have r6: "rearranges es a (n - (d - c)) n m5 m6" using rearranges_shift [OF m6(2)] b by simp
      have "rearranges es a 0 n m m6"
        using rearranges_trans [OF rearranges_trans [OF rearranges_trans [OF r2 zones(1)] rearranges_widen [OF m5(2)]] rearranges_widen [OF r6]] b by simp
      moreover have "qsort cmp es a n m = Some m6" using step m5(1) m6(1) by simp
      moreover have "key (elt es a m6 x) \<le> key (elt es a m6 y)" if "x < y" "y < n" for x y
        using three_zones [OF zones(2-4) m5(2,3) r6 _ _ that] m6(3) b by simp
      ultimately show ?thesis by blast
    qed
  qed
qed

text \<open>
  C40. \<open>qsort\<close> sorts: for an array of less than \<open>2^31\<close> bytes with elements of at least one byte, and a comparison function
  that orders the elements by a key, the routine returns, the elements are then in ascending order of their keys and are
  the elements the array had before, each as often, and no byte outside the array has changed.
\<close>

theorem qsort_sorts:
  assumes "es > 0" "n * es < 2 ^ 31" "compares cmp es (key :: u8 list \<Rightarrow> 'k::linorder)"
  shows "\<exists>m'. qsort cmp es a n m = Some m' \<and> sorted (map key (map (elt es a m') [0 ..< n]))
    \<and> mset (map (elt es a m') [0 ..< n]) = mset (map (elt es a m) [0 ..< n])
    \<and> (\<forall>x. x < a \<or> a + n * es \<le> x \<longrightarrow> m' x = m x)"
proof -
  obtain m' where m': "qsort cmp es a n m = Some m'" "rearranges es a 0 n m m'"
      "\<forall>x y. x < y \<longrightarrow> y < n \<longrightarrow> key (elt es a m' x) \<le> key (elt es a m' y)"
    using qsort_ok [OF assms(1,3), of n a m] assms(2) by auto
  have "sorted (map key (map (elt es a m') [0 ..< n]))" using m'(3) by (auto simp: sorted_iff_nth_mono_less)
  then show ?thesis using m'(1,2) by (auto simp: rearranges_def mult.commute)
qed

text \<open>Two bytes per element, in big-endian order.\<close>

definition be16_key :: "u8 list \<Rightarrow> int" where
  "be16_key x = 256 * uint (x ! 0) + uint (x ! 1)"

definition be16_cmp :: compar_fn where
  "be16_cmp x y = be16_key x - be16_key y"

lemma be16_compares: "compares be16_cmp 2 be16_key"
  by (simp add: compares_def be16_cmp_def)

theorem qsort_sorts_witness:
  "\<exists>m'. qsort be16_cmp 2 16 9 (\<lambda>x. of_nat (200 - x)) = Some m' \<and> sorted (map be16_key (map (elt 2 16 m') [0 ..< 9])) \<and> m' 0 = 200"
proof -
  have "(0 :: nat) < 2" "(9 :: nat) * 2 < 2 ^ 31" by simp_all
  from qsort_sorts [OF this be16_compares, of 16 "\<lambda>x. of_nat (200 - x)"]
  obtain m' where m': "qsort be16_cmp 2 16 9 (\<lambda>x. of_nat (200 - x)) = Some m'" "sorted (map be16_key (map (elt 2 16 m') [0 ..< 9]))"
      "\<forall>x. x < 16 \<or> 16 + 9 * 2 \<le> x \<longrightarrow> m' x = of_nat (200 - x)"
    by blast
  have "m' 0 = 200" using m'(3) [rule_format, of 0] by simp
  then show ?thesis using m'(1,2) by blast
qed

end
